(* ===== verification/OS_Prelude.thy ===== *)
theory OS_Prelude
  imports Main "HOL-Library.Word"
begin

text \<open>
  What every component of the kernel model shares: the names of the machine types
  (\<open>include/type.h\<close>), the outcome of code that can hit an \<open>assert\<close>, the flat
  byte-addressed memory of the 32-bit machine with its little-endian 16/32-bit accesses, and
  the separation lemmas by which the components frame their writes.
\<close>

unbundle bit_operations_syntax

named_theorems mem_simps \<open>reading back what was written, or what was not touched\<close>
named_theorems sep_intros \<open>ways to establish that two memory ranges do not meet\<close>

section \<open>Machine types\<close>

type_synonym u8 = "8 word"
type_synonym u16 = "16 word"
type_synonym u32 = "32 word"

text \<open>
  A kernel routine that fails an \<open>assert\<close> (\<open>include/debug.h\<close>) ends in
  \<open>print_stack_info\<close>, which prints its message and then spins in \<open>while (1)\<close>. Such a
  run never comes back to the caller: it is the error value \<open>Panic msg\<close>. \<open>Hang\<close> is an
  unbounded busy loop of the source that never exits, \<open>Undefined\<close> an access the C standard
  leaves undefined (beyond the end of an array).
\<close>

datatype kerror = Panic string | Hang | Undefined

type_synonym 'a result = "kerror + 'a"

definition bindE :: "'a result \<Rightarrow> ('a \<Rightarrow> 'b result) \<Rightarrow> 'b result" where
  "bindE r k = (case r of Inl e \<Rightarrow> Inl e | Inr x \<Rightarrow> k x)"

lemma bindE_Inl [simp]: "bindE (Inl e) k = Inl e"
  by (simp add: bindE_def)

lemma bindE_Inr [simp]: "bindE (Inr x) k = k x"
  by (simp add: bindE_def)

lemma bindE_eq_Inr: "bindE r k = Inr y \<longleftrightarrow> (\<exists>x. r = Inr x \<and> k x = Inr y)"
  by (cases r) auto

lemma bindE_cong [fundef_cong]:
  "r = r' \<Longrightarrow> (\<And>x. r' = Inr x \<Longrightarrow> k x = k' x) \<Longrightarrow> bindE r k = bindE r' k'"
  by (cases r') auto

text \<open>Statements that may also not return, in sequence: the first that fails or does not return ends it.\<close>

definition bindO :: "'a result option \<Rightarrow> ('a \<Rightarrow> 'b result option) \<Rightarrow> 'b result option" where
  "bindO r k = (case r of None \<Rightarrow> None | Some (Inl e) \<Rightarrow> Some (Inl e) | Some (Inr x) \<Rightarrow> k x)"

lemma bindO_simps [simp]:
  "bindO None k = None" "bindO (Some (Inl e)) k = Some (Inl e)" "bindO (Some (Inr x)) k = k x"
  by (simp_all add: bindO_def)

text \<open>They may stand in the body of a \<open>partial_function\<close>.\<close>

lemma bindO_mono [partial_function_mono]:
  assumes "\<And>x. mono_option (\<lambda>f. k f x)"
  shows "mono_option (\<lambda>f. bindO r (k f))"
proof (cases r)
  case (Some q)
  then show ?thesis using assms by (cases q) (simp_all add: monotone_def flat_ord_def)
qed (simp add: monotone_def flat_ord_def)

section \<open>Memory\<close>

type_synonym memory = "u32 \<Rightarrow> u8"

definition load32 :: "memory \<Rightarrow> u32 \<Rightarrow> u32" where
  "load32 m a = ucast (m a) OR push_bit 8 (ucast (m (a + 1)))
     OR push_bit 16 (ucast (m (a + 2))) OR push_bit 24 (ucast (m (a + 3)))"

definition store32 :: "memory \<Rightarrow> u32 \<Rightarrow> u32 \<Rightarrow> memory" where
  "store32 m a v = m(a := ucast v, a + 1 := ucast (drop_bit 8 v),
     a + 2 := ucast (drop_bit 16 v), a + 3 := ucast (drop_bit 24 v))"

text \<open>
  Two ranges of \<open>n\<close> bytes at \<open>a\<close> and \<open>k\<close> bytes at \<open>b\<close> do not meet: going
  up from one start (modulo \<open>2 ^ 32\<close>) the other is at least one length away.
\<close>

definition sep :: "u32 \<Rightarrow> nat \<Rightarrow> u32 \<Rightarrow> nat \<Rightarrow> bool" where
  "sep a n b k \<longleftrightarrow> n \<le> unat (b - a) \<and> k \<le> unat (a - b)"

definition in_range :: "u32 \<Rightarrow> nat \<Rightarrow> u32 \<Rightarrow> bool" where
  "in_range a n x \<longleftrightarrow> unat (x - a) < n"

lemma unat_lt32: "unat (x :: u32) < 4294967296"
proof -
  have "unat x < 2 ^ LENGTH(32)" by (rule unsigned_less)
  then show ?thesis by simp
qed

lemma sep_commute: "sep a n b k \<longleftrightarrow> sep b k a n"
  by (auto simp: sep_def)

lemma sep_in_range: "sep a n b k \<Longrightarrow> in_range a n x \<Longrightarrow> \<not> in_range b k x"
proof -
  assume s: "sep a n b k" and r: "in_range a n x"
  define p q where "p = x - a" and "q = b - a"
  have e: "x - b = p - q" "a - b = - q" by (simp_all add: p_def q_def)
  have lt: "unat p < unat q" and k: "k \<le> unat (- q)"
    using s r unfolding sep_def in_range_def p_def [symmetric] q_def [symmetric] e by simp_all
  then have "q \<noteq> 0" by auto
  then have "unat (- q) = 2 ^ 32 - unat q"
    using unat_sub_if' [of 0 q] unat_lt32 [of q] by (simp add: unat_eq_0)
  moreover have "unat (p - q) = 2 ^ 32 + unat p - unat q"
    using lt by (simp add: unat_sub_if')
  ultimately have "k \<le> unat (p - q)" using k by simp
  then show "\<not> in_range b k x" by (simp add: in_range_def e)
qed

lemma sep_natI [sep_intros]:
  assumes "unat a + n \<le> unat b" and "unat b + k \<le> 2 ^ 32" and "0 < n"
  shows "sep a n b k"
proof -
  have "unat a < unat b" using assms by simp
  moreover from this have "unat (b - a) = unat b - unat a" by (simp add: unat_sub_if')
  moreover from calculation have "unat (a - b) = 2 ^ 32 + unat a - unat b"
    by (simp add: unat_sub_if')
  ultimately show ?thesis using assms unfolding sep_def by simp arith
qed

lemma sep_natI' [sep_intros]:
  "unat b + k \<le> unat a \<Longrightarrow> unat a + n \<le> 2 ^ 32 \<Longrightarrow> 0 < k \<Longrightarrow> sep a n b k"
  using sep_natI sep_commute by blast

text \<open>Two different word-aligned cells never meet.\<close>

lemma aligned_sep [sep_intros]:
  assumes "4 dvd unat a" "4 dvd unat b" "a \<noteq> b"
  shows "sep a 4 b 4"
proof -
  have A: "sep a 4 b 4" if "4 dvd unat a" "4 dvd unat b" "unat a < unat b" for a b :: u32
  proof (rule sep_natI)
    from that obtain i j where ij: "unat a = 4 * i" "unat b = 4 * j" by (auto elim!: dvdE)
    then show "unat a + 4 \<le> unat b" using that by simp
    have "j < 1073741824" using unat_lt32 [of b] ij by simp
    then show "unat b + 4 \<le> 2 ^ 32" using ij by simp
  qed simp
  have "unat a \<noteq> unat b" using assms by (simp add: word_unat_eq_iff)
  then consider "unat a < unat b" | "unat b < unat a" by linarith
  then show ?thesis using A assms sep_commute
    by cases (auto simp: sep_def)
qed

lemma in_range4: "in_range a 4 x \<longleftrightarrow> x = a \<or> x = a + 1 \<or> x = a + 2 \<or> x = a + 3"
proof -
  have "in_range a 4 x \<longleftrightarrow> x - a < 4" by (simp add: in_range_def word_less_nat_alt)
  also have "\<dots> \<longleftrightarrow> x - a = 0 \<or> x - a = 1 \<or> x - a = 2 \<or> x - a = 3"
    by unat_arith
  also have "\<dots> \<longleftrightarrow> x = a \<or> x = a + 1 \<or> x = a + 2 \<or> x = a + 3"
    by (auto simp: algebra_simps)
  finally show ?thesis .
qed

lemma not_in_range_0 [simp]: "\<not> in_range p 0 x"
  by (simp add: in_range_def)

lemma in_range_Suc:
  assumes "n < 2 ^ 32"
  shows "in_range p (Suc n) x \<longleftrightarrow> x = p \<or> in_range (p + 1) n x"
proof (cases "x = p")
  case False
  then have ne: "x - p \<noteq> 0" by simp
  have e: "x - (p + 1) = (x - p) - 1" by simp
  have "1 \<le> unat (x - p)" using ne by (simp add: Suc_le_eq unat_gt_0)
  then have "unat (x - (p + 1)) = unat (x - p) - 1"
    unfolding e using unat_sub_if' [of "x - p" 1] by simp
  then show ?thesis using False \<open>1 \<le> unat (x - p)\<close> by (auto simp: in_range_def)
qed (simp add: in_range_def)

lemma not_in_range_pred [simp]: "n < 4294967296 \<Longrightarrow> \<not> in_range (p + 1) n p"
  by (simp add: in_range_def unsigned_minus_1_eq_mask mask_eq_exp_minus_1)

lemma in_range_offset: "i < n \<Longrightarrow> n \<le> 2 ^ 32 \<Longrightarrow> in_range p n (p + of_nat i)"
  by (simp add: in_range_def unat_of_nat)

lemma in_rangeD: "in_range p n x \<Longrightarrow> \<exists>i<n. x = p + of_nat i"
proof -
  assume "in_range p n x"
  moreover have "x = p + of_nat (unat (x - p))" by simp
  ultimately show ?thesis unfolding in_range_def by blast
qed

subsection \<open>Reading back 32-bit cells\<close>

lemma load32_store32_same [simp, mem_simps]: "load32 (store32 m a v) a = v"
  unfolding load32_def store32_def
  apply simp
  apply (rule bit_word_eqI)
  subgoal for n
    by (cases "24 \<le> n"; cases "16 \<le> n"; cases "8 \<le> n") (auto simp: bit_simps)
  done

lemma load32_cong:
  assumes "\<And>x. in_range a 4 x \<Longrightarrow> m x = m' x"
  shows "load32 m a = load32 m' a"
  using assms by (simp add: load32_def in_range4)

lemma store32_other [mem_simps]: "\<not> in_range a 4 x \<Longrightarrow> store32 m a v x = m x"
  by (auto simp: store32_def in_range4)

lemma load32_store32_sep [mem_simps]: "sep a 4 b 4 \<Longrightarrow> load32 (store32 m a v) b = load32 m b"
  by (rule load32_cong) (metis sep_in_range store32_other)

lemma load32_store32_aligned:
  "4 dvd unat a \<Longrightarrow> 4 dvd unat b \<Longrightarrow>
     load32 (store32 m a v) b = (if a = b then v else load32 m b)"
  by (auto simp: aligned_sep load32_store32_sep)

text \<open>The cells of one structure: constant offsets from a common base.\<close>

lemma sep_offsets [simp]:
  "sep (p + x) n (p + y) k \<longleftrightarrow> n \<le> unat (y - x) \<and> k \<le> unat (x - y)"
  "sep p n (p + y) k \<longleftrightarrow> n \<le> unat y \<and> k \<le> unat (- y)"
  "sep (p + x) n p k \<longleftrightarrow> n \<le> unat (- x) \<and> k \<le> unat x"
  by (simp_all add: sep_def)

lemma sep_offsets':
  "sep (x + p) n p k \<longleftrightarrow> n \<le> unat (- x) \<and> k \<le> unat x"
  "sep p n (y + p) k \<longleftrightarrow> n \<le> unat y \<and> k \<le> unat (- y)"
  "sep (x + p) n (p + y) k \<longleftrightarrow> n \<le> unat (y - x) \<and> k \<le> unat (x - y)"
  "sep (p + x) n (y + p) k \<longleftrightarrow> n \<le> unat (y - x) \<and> k \<le> unat (x - y)"
  "sep (x + p) n (y + p) k \<longleftrightarrow> n \<le> unat (y - x) \<and> k \<le> unat (x - y)"
  by (simp_all add: sep_def)

lemma sep_sub:
  assumes "sep a n b k" "unat x + i \<le> n" "unat y + j \<le> k" "0 < i" "0 < j"
  shows "sep (a + x) i (b + y) j"
proof -
  define d where "d = b - a"
  have ab: "a - b = - d" by (simp add: d_def)
  have s: "n \<le> unat d" "k \<le> unat (- d)" using assms(1) by (simp_all add: sep_def d_def ab [symmetric])
  then have "d \<noteq> 0" using assms(2,4) by auto
  then have nd: "unat (- d) = 2 ^ 32 - unat d"
    using unat_sub_if' [of 0 d] unat_lt32 [of d] by (simp add: unat_eq_0)
  have "unat d + unat y < 2 ^ 32" using s nd assms(3,5) unat_lt32 [of d] by simp
  then have u: "unat (d + y) = unat d + unat y" by (simp add: unat_plus_if')
  have "unat x \<le> unat (d + y)" using u s assms(2) by simp
  then have v: "unat (d + y - x) = unat d + unat y - unat x" using u by (simp add: unat_sub_if')
  have "0 < unat (d + y - x)" using v s assms(2,4) by simp
  then have "d + y - x \<noteq> 0" by auto
  then have w: "unat (- (d + y - x)) = 2 ^ 32 - unat (d + y - x)"
    using unat_sub_if' [of 0 "d + y - x"] unat_lt32 [of "d + y - x"] by (simp add: unat_eq_0)
  have e: "(b + y) - (a + x) = d + y - x" "(a + x) - (b + y) = - (d + y - x)"
    by (simp_all add: d_def)
  show ?thesis unfolding sep_def e using v w s nd assms by linarith
qed

lemma sep_disjoint:
  assumes "0 < n" "0 < k" "\<And>x. in_range a n x \<Longrightarrow> \<not> in_range b k x" shows "sep a n b k"
proof -
  have "\<not> in_range a n b" "\<not> in_range b k a" using assms(3) [of a] assms(3) [of b] assms(1,2) by (auto simp: in_range_def)
  then show ?thesis by (simp add: sep_def in_range_def)
qed

lemma in_range_sub:
  assumes "in_range (a + x) k z" "unat x + k \<le> n" "n \<le> 2 ^ 32"
  shows "in_range a n z"
proof -
  define d where "d = z - (a + x)"
  have d: "unat d < k" using assms(1) by (simp add: in_range_def d_def)
  have "z - a = d + x" by (simp add: d_def)
  moreover have "unat (d + x) = unat d + unat x" using d assms(2,3) by (simp add: unat_plus_if')
  ultimately show ?thesis using d assms(2) by (simp add: in_range_def)
qed

subsection \<open>Pages\<close>

lemma page_mask_not: "(0xFFFFF000 :: u32) = NOT (mask 12)"
  by (simp add: mask_eq_exp_minus_1)

lemma unat_page_mask: "unat ((a :: u32) AND 0xFFFFF000) = 4096 * (unat a div 4096)"
proof -
  have "a AND 0xFFFFF000 = push_bit 12 (drop_bit 12 a)"
    unfolding page_mask_not by (rule bit_word_eqI) (auto simp: bit_simps)
  moreover have "4096 * (unat a div 4096) < 4294967296"
    using unat_lt32 [of a] by (metis le_less_trans times_div_less_eq_dividend)
  moreover have "unat (push_bit 12 (drop_bit 12 a)) = take_bit 32 (push_bit 12 (unat (drop_bit 12 a)))"
    by (simp only: unsigned_push_bit_eq) simp
  ultimately show ?thesis
    by (simp only: unat_drop_bit_eq)
      (simp add: push_bit_eq_mult drop_bit_eq_div take_bit_eq_mod mult.commute)
qed

text \<open>Filling a range with one byte, the effect of the \<open>memset\<close> loop.\<close>

definition fill :: "memory \<Rightarrow> u32 \<Rightarrow> nat \<Rightarrow> u8 \<Rightarrow> memory" where
  "fill m p n v = (\<lambda>x. if in_range p n x then v else m x)"

lemma fill_0 [simp]: "fill m p 0 v = m"
  by (simp add: fill_def)

lemma fill_Suc: "n < 2 ^ 32 \<Longrightarrow> fill (m(p := v)) (p + 1) n v = fill m p (Suc n) v"
  by (auto simp: fill_def in_range_Suc)

lemma load32_fill_sep [mem_simps]: "sep p n a 4 \<Longrightarrow> load32 (fill m p n v) a = load32 m a"
  by (rule load32_cong) (metis fill_def sep_in_range)

lemma load32_fill_inside [mem_simps]:
  assumes "\<And>x. in_range a 4 x \<Longrightarrow> in_range p n x"
  shows "load32 (fill m p n 0) a = 0"
proof -
  have "load32 (fill m p n 0) a = load32 (\<lambda>_. 0) a"
    by (rule load32_cong) (simp add: fill_def assms)
  then show ?thesis by (simp add: load32_def)
qed

section \<open>Numerals\<close>

text \<open>The value of a list of digits, the highest first, and the digits of a number, the lowest first.\<close>

definition base_value :: "nat \<Rightarrow> nat list \<Rightarrow> nat" where
  "base_value b ds = foldl (\<lambda>v d. b * v + d) 0 ds"

lemma base_value_foldl: "foldl (\<lambda>v d. b * v + d) a ds = a * b ^ length ds + base_value b ds"
proof (induction ds arbitrary: a)
  case (Cons d ds)
  show ?case using Cons [of "b * a + d"] Cons [of d] by (simp add: base_value_def algebra_simps)
qed (simp add: base_value_def)

lemma base_value_Nil [simp]: "base_value b [] = 0"
  by (simp add: base_value_def)

lemma base_value_Cons: "base_value b (d # ds) = d * b ^ length ds + base_value b ds"
  using base_value_foldl [of b d ds] by (simp add: base_value_def)

lemma base_value_snoc: "base_value b (ds @ [d]) = b * base_value b ds + d"
  by (simp add: base_value_def)

fun low_digits :: "nat \<Rightarrow> nat \<Rightarrow> nat list" where
  "low_digits b n = (if n = 0 \<or> b \<le> 1 then [] else n mod b # low_digits b (n div b))"

declare low_digits.simps [simp del]

lemma low_digits_0 [simp]: "low_digits b 0 = []"
  by (simp add: low_digits.simps)

lemma low_digits_step: "n \<noteq> 0 \<Longrightarrow> 1 < b \<Longrightarrow> low_digits b n = n mod b # low_digits b (n div b)"
  by (simp add: low_digits.simps [of b n])

lemma low_digits_facts:
  assumes b: "1 < b"
  shows "base_value b (rev (low_digits b n)) = n" "d \<in> set (low_digits b n) \<Longrightarrow> d < b"
    "n \<noteq> 0 \<Longrightarrow> low_digits b n \<noteq> [] \<and> last (low_digits b n) \<noteq> 0"
    "n < b ^ k \<Longrightarrow> length (low_digits b n) \<le> k"
proof -
  have "base_value b (rev (low_digits b n)) = n \<and> (\<forall>d \<in> set (low_digits b n). d < b) \<and>
      (n \<noteq> 0 \<longrightarrow> low_digits b n \<noteq> [] \<and> last (low_digits b n) \<noteq> 0)"
  proof (induction n rule: less_induct)
    case (less n)
    show ?case
    proof (cases "n = 0")
      case False
      then have "n div b < n" using b by simp
      note ih = less.IH [OF this]
      show ?thesis
      proof (cases "n div b = 0")
        case True
        then have "n < b" using b by (simp add: div_eq_0_iff)
        then show ?thesis using True False b by (simp add: low_digits_step base_value_def mod_less)
      next
        case nz: False
        have "low_digits b n = n mod b # low_digits b (n div b)" using False b by (rule low_digits_step)
        then show ?thesis using ih nz b by (simp add: base_value_snoc)
      qed
    qed simp
  qed
  then show "base_value b (rev (low_digits b n)) = n" "d \<in> set (low_digits b n) \<Longrightarrow> d < b"
    "n \<noteq> 0 \<Longrightarrow> low_digits b n \<noteq> [] \<and> last (low_digits b n) \<noteq> 0" by auto
  show "n < b ^ k \<Longrightarrow> length (low_digits b n) \<le> k"
  proof (induction k arbitrary: n)
    case (Suc k)
    have "n div b < b ^ k" using Suc.prems b by (simp add: div_less_iff_less_mult mult.commute)
    then show ?case using Suc.IH [of "n div b"] b by (cases "n = 0") (simp_all add: low_digits_step)
  qed simp
qed

end
