(* ===== verification/Machine.thy ===== *)
theory Machine
  imports OS_Prelude
begin

text \<open>
  The parts of the machine that several kernel components touch: the memory as the CPU
  addresses it, the page-directory base register, the bytes written to I/O ports
  (\<open>include/io.h\<close>) in order, and the table of interrupt handlers that \<open>src/trap.c\<close>
  keeps and other components register in. The components' states extend this record.
\<close>

text \<open>The three handlers the kernel registers.\<close>

datatype handler = Timer_callback | Page_fault | Keyboard_handler

record machine =
  mem :: memory
  cr3 :: u32
  ports :: "(u16 \<times> u8) list"
  handlers :: "u8 \<Rightarrow> handler option"

text \<open>\<open>include/io.h\<close>, \<open>outb\<close>: one byte to one port. Its \<open>io_delay\<close> only passes time.\<close>

definition outb :: "u16 \<Rightarrow> u8 \<Rightarrow> 'a machine_scheme \<Rightarrow> 'a machine_scheme" where
  "outb port data s = s\<lparr>ports := ports s @ [(port, data)]\<rparr>"

text \<open>\<open>include/system.h\<close>, \<open>set_cr3\<close>.\<close>

definition set_cr3 :: "u32 \<Rightarrow> 'a machine_scheme \<Rightarrow> 'a machine_scheme" where
  "set_cr3 pgd s = s\<lparr>cr3 := pgd\<rparr>"

text \<open>
  \<open>include/system.h\<close>, \<open>_local_irq_save\<close>: \<open>pushfl\<close> and \<open>popl\<close> copy the flag register, \<open>cli\<close> clears its
  interrupt flag, bit 9; the result is the copy and the register. \<open>_local_irq_restore\<close> puts a copy back.
\<close>

definition local_irq_save :: "u32 \<Rightarrow> u32 \<times> u32" where
  "local_irq_save flags = (flags, flags AND NOT 0x200)"

definition local_irq_restore :: "u32 \<Rightarrow> u32 \<Rightarrow> u32" where
  "local_irq_restore x flags = x"

text \<open>\<open>src/trap.c\<close>, \<open>register_interrupt_handler\<close>.\<close>

definition register_interrupt_handler ::
    "u8 \<Rightarrow> handler \<Rightarrow> 'a machine_scheme \<Rightarrow> 'a machine_scheme" where
  "register_interrupt_handler num h s = s\<lparr>handlers := (handlers s)(num \<mapsto> h)\<rparr>"

lemma machine_frames [simp]:
  "mem (outb p d s) = mem s" "handlers (outb p d s) = handlers s" "cr3 (outb p d s) = cr3 s"
  "mem (set_cr3 a s) = mem s" "ports (set_cr3 a s) = ports s" "handlers (set_cr3 a s) = handlers s"
  "mem (register_interrupt_handler n h s) = mem s"
  "ports (register_interrupt_handler n h s) = ports s"
  "cr3 (register_interrupt_handler n h s) = cr3 s"
  by (simp_all add: outb_def set_cr3_def register_interrupt_handler_def)

end
