(* ===== verification/FrameStack.thy ===== *)
theory FrameStack
  imports Machine
begin

text \<open>
  The physical frame allocator of \<open>src/memory.c\<close>: the globals \<open>_stack\<close> and \<open>_top\<close>,
  \<open>alloc_page\<close>, \<open>free_page\<close>, and \<open>init_page\<close>, which fills the stack from the multiboot
  memory map. Slot 0 of \<open>_stack\<close> is never used. The view of the stack as the list of free
  frames, the contract \<open>frame_stack\<close> with its clients, and what a memory map contributes.
\<close>

section \<open>Constants and state\<close>

abbreviation (input) MEMORY_MAX_SIZE :: u32 where "MEMORY_MAX_SIZE \<equiv> 0x20000000"
abbreviation (input) MEMORY_PAGE_SIZE :: u32 where "MEMORY_PAGE_SIZE \<equiv> 0x1000"
abbreviation (input) PAGE_MAX_SIZE :: u32 where "PAGE_MAX_SIZE \<equiv> 0x20000"
abbreviation (input) PAGE_OFFSET :: u32 where "PAGE_OFFSET \<equiv> 0xC0000000"
abbreviation (input) PAGE_SIZE :: u32 where "PAGE_SIZE \<equiv> 4096"
abbreviation (input) PAGE_MASK :: u32 where "PAGE_MASK \<equiv> 0xFFFFF000"
abbreviation (input) PAGE_PRESENT :: u32 where "PAGE_PRESENT \<equiv> 1"
abbreviation (input) PAGE_WRITE :: u32 where "PAGE_WRITE \<equiv> 2"
abbreviation (input) PTE_COUNT :: u32 where "PTE_COUNT \<equiv> 128"

text \<open>The fields of \<open>multiboot_t\<close> and \<open>memory_map_t\<close> that the kernel reads, packed structures of words.\<close>

abbreviation (input) mb_num :: "u32 \<Rightarrow> u32" where "mb_num mb \<equiv> mb + 28"
abbreviation (input) mb_addr :: "u32 \<Rightarrow> u32" where "mb_addr mb \<equiv> mb + 36"
abbreviation (input) mb_shndx :: "u32 \<Rightarrow> u32" where "mb_shndx mb \<equiv> mb + 40"
abbreviation (input) mmap_length :: "u32 \<Rightarrow> u32" where "mmap_length mb \<equiv> mb + 44"
abbreviation (input) mmap_addr :: "u32 \<Rightarrow> u32" where "mmap_addr mb \<equiv> mb + 48"

abbreviation (input) base_addr_low :: "u32 \<Rightarrow> u32" where "base_addr_low a \<equiv> a + 4"
abbreviation (input) length_low :: "u32 \<Rightarrow> u32" where "length_low a \<equiv> a + 12"
abbreviation (input) region_type :: "u32 \<Rightarrow> u32" where "region_type a \<equiv> a + 20"

abbreviation (input) page_aligned :: "u32 \<Rightarrow> bool" where
  "page_aligned a \<equiv> 4096 dvd unat a"

record vm_state = machine +
  pg_stack :: "u32 \<Rightarrow> u32"
  pg_top :: u32

section \<open>The frame stack\<close>

definition alloc_page :: "'a vm_state_scheme \<Rightarrow> (u32 \<times> 'a vm_state_scheme) result" where
  "alloc_page s =
     (if pg_top s = 0 then Inl (Panic ''out of memory'')
      else Inr (pg_stack s (pg_top s), s\<lparr>pg_top := pg_top s - 1\<rparr>))"

definition free_page :: "u32 \<Rightarrow> 'a vm_state_scheme \<Rightarrow> 'a vm_state_scheme result" where
  "free_page p s =
     (if pg_top s = PAGE_MAX_SIZE then Inl (Panic ''no unused memory'')
      else Inr (s\<lparr>pg_top := pg_top s + 1, pg_stack := (pg_stack s)(pg_top s + 1 := p)\<rparr>))"

text \<open>
  \<open>init_page\<close> walks the multiboot memory map. An entry is the packed \<open>memory_map_t\<close> of
  \<open>include/multiboot.h\<close>, 24 bytes: \<open>base_addr_low\<close> at 4, \<open>length_low\<close> at 12, \<open>type\<close>
  at 20. The end pointer is \<open>mmap_length\<close> entries, not bytes, behind the start: the
  addition is on \<open>memory_map_t *\<close>. \<open>_end - _start\<close> comes from the linker script.
\<close>

function free_region :: "u32 \<Rightarrow> u32 \<Rightarrow> 'a vm_state_scheme \<Rightarrow> 'a vm_state_scheme result" where
  "free_region page_addr lim s =
     (if page_addr < lim \<and> page_addr \<le> MEMORY_MAX_SIZE
      then bindE (free_page page_addr s) (free_region (page_addr + MEMORY_PAGE_SIZE) lim)
      else Inr s)"
  by pat_completeness auto
termination
proof (relation "measure (\<lambda>(p, l, s). 0x20001000 - unat p)", goal_cases)
  case (2 p l s x)
  then have "unat p \<le> 0x20000000" by (simp add: word_le_nat_alt)
  then show ?case by (simp add: unat_plus_if')
qed simp

declare free_region.simps [simp del]

partial_function (option) init_page_loop ::
    "u32 \<Rightarrow> u32 \<Rightarrow> u32 \<Rightarrow> 'a vm_state_scheme \<Rightarrow> 'a vm_state_scheme result option" where
  "init_page_loop kernel_size cur_addr map_end_addr s =
     (if cur_addr < map_end_addr
      then case (if load32 (mem s) (region_type cur_addr) = 1 \<and> load32 (mem s) (base_addr_low cur_addr) = 0x100000
                 then free_region (load32 (mem s) (base_addr_low cur_addr) + kernel_size)
                        (load32 (mem s) (base_addr_low cur_addr) + load32 (mem s) (length_low cur_addr)) s
                 else Inr s) of
             Inl e \<Rightarrow> Some (Inl e)
           | Inr s' \<Rightarrow> init_page_loop kernel_size (cur_addr + 24) map_end_addr s'
      else Some (Inr s))"

definition init_page ::
    "u32 \<Rightarrow> u32 \<Rightarrow> 'a vm_state_scheme \<Rightarrow> 'a vm_state_scheme result option" where
  "init_page kernel_size glb_mboot_ptr s =
     (let map_start_addr = load32 (mem s) (mmap_addr glb_mboot_ptr);
          map_end_addr = load32 (mem s) (mmap_addr glb_mboot_ptr) + 24 * load32 (mem s) (mmap_length glb_mboot_ptr)
      in init_page_loop kernel_size map_start_addr map_end_addr s)"

section \<open>The frame stack as a list\<close>

primrec frames_from :: "(u32 \<Rightarrow> u32) \<Rightarrow> nat \<Rightarrow> u32 list" where
  "frames_from st 0 = []"
| "frames_from st (Suc n) = st (of_nat (Suc n)) # frames_from st n"

text \<open>The free frames, the next one to be handed out first.\<close>

definition frames :: "'a vm_state_scheme \<Rightarrow> u32 list" where
  "frames s = frames_from (pg_stack s) (unat (pg_top s))"

definition stack_ok :: "'a vm_state_scheme \<Rightarrow> bool" where
  "stack_ok s \<longleftrightarrow> pg_top s \<le> PAGE_MAX_SIZE"

lemma frames_cong:
  "pg_stack s' = pg_stack s \<Longrightarrow> pg_top s' = pg_top s \<Longrightarrow> frames s' = frames s"
  by (simp add: frames_def)

lemma frames_update [simp]:
  "frames (s\<lparr>mem := m\<rparr>) = frames s" "frames (s\<lparr>ports := o'\<rparr>) = frames s"
  "frames (s\<lparr>handlers := h\<rparr>) = frames s" "frames (s\<lparr>cr3 := c\<rparr>) = frames s"
  by (simp_all add: frames_def)

lemma stack_ok_update [simp]:
  "stack_ok (s\<lparr>mem := m\<rparr>) = stack_ok s"
  by (simp add: stack_ok_def)

lemma frames_from_upd:
  "n < k \<Longrightarrow> k < 2 ^ 32 \<Longrightarrow> frames_from (st(of_nat k := v)) n = frames_from st n"
proof (induction n)
  case (Suc n)
  have "of_nat (Suc n) \<noteq> (of_nat k :: u32)"
    using Suc.prems by (simp add: word_unat_eq_iff unat_of_nat del: of_nat_Suc)
  then show ?case using Suc by (simp del: of_nat_Suc)
qed simp

lemma length_frames_from [simp]: "length (frames_from st n) = n"
  by (induction n) auto

lemma length_frames: "length (frames s) = unat (pg_top s)"
  by (simp add: frames_def)

lemma frames_empty_iff: "frames s = [] \<longleftrightarrow> pg_top s = 0"
  by (metis length_0_conv length_frames unat_0_iff)

lemma alloc_page_Inl: "alloc_page s = Inl e \<longleftrightarrow> frames s = [] \<and> e = Panic ''out of memory''"
  by (auto simp: alloc_page_def frames_empty_iff)

lemma alloc_page_Inr:
  assumes "alloc_page s = Inr (p, s')"
  shows "frames s = p # frames s'" and "stack_ok s \<Longrightarrow> stack_ok s'"
    and "mem s' = mem s" and "machine.extend (machine.truncate s) () = machine.extend (machine.truncate s') ()"
proof -
  have nz: "pg_top s \<noteq> 0" and p: "p = pg_stack s (pg_top s)"
    and s': "s' = s\<lparr>pg_top := pg_top s - 1\<rparr>"
    using assms by (auto simp: alloc_page_def split: if_splits)
  obtain n where n: "unat (pg_top s) = Suc n" using nz by (cases "unat (pg_top s)") (auto simp: unat_eq_0)
  then have "pg_top s = of_nat (Suc n)" by (metis of_nat_unat ucast_id)
  moreover have "unat (pg_top s - 1) = n" using n by (simp add: unat_sub_if')
  ultimately show "frames s = p # frames s'" using n p s' by (simp add: frames_def)
  show "stack_ok s \<Longrightarrow> stack_ok s'"
    using \<open>unat (pg_top s - 1) = n\<close> n s' by (simp add: stack_ok_def word_le_nat_alt)
qed (use assms in \<open>auto simp: alloc_page_def machine.defs split: if_splits\<close>)

lemma free_page_spec:
  assumes "stack_ok s"
  shows "if length (frames s) = unat PAGE_MAX_SIZE
         then free_page p s = Inl (Panic ''no unused memory'')
         else \<exists>s'. free_page p s = Inr s' \<and> frames s' = p # frames s \<and> stack_ok s' \<and> mem s' = mem s"
proof (cases "pg_top s = PAGE_MAX_SIZE")
  case True
  then show ?thesis by (simp add: free_page_def length_frames)
next
  case False
  then have lt: "unat (pg_top s) < unat PAGE_MAX_SIZE"
    using assms by (simp add: stack_ok_def word_le_nat_alt word_unat_eq_iff)
  then have u: "unat (pg_top s + 1) = Suc (unat (pg_top s))" by (simp add: unat_plus_if')
  have w: "pg_top s + 1 = of_nat (Suc (unat (pg_top s)))" by simp
  have "frames_from ((pg_stack s)(pg_top s + 1 := p)) (unat (pg_top s))
      = frames_from (pg_stack s) (unat (pg_top s))"
    unfolding w using lt by (intro frames_from_upd) simp_all
  then show ?thesis
    using False lt u
    by (auto simp: free_page_def frames_def length_frames stack_ok_def word_le_nat_alt)
qed

text \<open>
  The contract between the frame stack and its clients: handing out takes the first free
  frame, giving back puts it in front, and only an empty or a full stack stops the kernel.
\<close>

fun alloc_many :: "('s \<Rightarrow> (u32 \<times> 's) result) \<Rightarrow> nat \<Rightarrow> 's \<Rightarrow> (u32 list \<times> 's) result" where
  "alloc_many alloc 0 s = Inr ([], s)"
| "alloc_many alloc (Suc n) s =
     bindE (alloc s) (\<lambda>(p, s). bindE (alloc_many alloc n s) (\<lambda>(ps, s). Inr (p # ps, s)))"

fun free_many :: "(u32 \<Rightarrow> 's \<Rightarrow> 's result) \<Rightarrow> u32 list \<Rightarrow> 's \<Rightarrow> 's result" where
  "free_many free [] s = Inr s"
| "free_many free (p # ps) s = bindE (free p s) (free_many free ps)"

locale frame_stack =
  fixes alloc :: "'s \<Rightarrow> (u32 \<times> 's) result"
    and free :: "u32 \<Rightarrow> 's \<Rightarrow> 's result"
    and avail :: "'s \<Rightarrow> u32 list"
    and ok :: "'s \<Rightarrow> bool"
    and cap :: nat
  assumes alloc_empty: "avail s = [] \<Longrightarrow> alloc s = Inl (Panic ''out of memory'')"
    and alloc_cons: "avail s = p # ps \<Longrightarrow> \<exists>s'. alloc s = Inr (p, s') \<and> avail s' = ps"
    and alloc_ok: "alloc s = Inr (p, s') \<Longrightarrow> ok s \<Longrightarrow> ok s'"
    and free_full: "ok s \<Longrightarrow> length (avail s) = cap \<Longrightarrow> free p s = Inl (Panic ''no unused memory'')"
    and free_room: "ok s \<Longrightarrow> length (avail s) \<noteq> cap \<Longrightarrow>
      \<exists>s'. free p s = Inr s' \<and> avail s' = p # avail s \<and> ok s'"
    and ok_cap: "ok s \<Longrightarrow> length (avail s) \<le> cap"
begin

lemma alloc_many_take:
  "n \<le> length (avail s) \<Longrightarrow>
     \<exists>s'. alloc_many alloc n s = Inr (take n (avail s), s') \<and> avail s' = drop n (avail s)"
proof (induction n arbitrary: s)
  case (Suc n)
  then obtain p ps where ps: "avail s = p # ps" by (cases "avail s") auto
  then obtain s1 where s1: "alloc s = Inr (p, s1)" "avail s1 = ps" using alloc_cons by blast
  have "n \<le> length (avail s1)" using Suc.prems ps s1 by simp
  from Suc.IH [OF this] show ?case using ps s1 by auto
qed simp

lemma alloc_many_short:
  "length (avail s) < n \<Longrightarrow> alloc_many alloc n s = Inl (Panic ''out of memory'')"
proof (induction n arbitrary: s)
  case (Suc n)
  show ?case
  proof (cases "avail s")
    case Nil then show ?thesis by (simp add: alloc_empty)
  next
    case (Cons p ps)
    then obtain s1 where s1: "alloc s = Inr (p, s1)" "avail s1 = ps" using alloc_cons by blast
    then show ?thesis using Suc Cons by simp
  qed
qed simp

lemma free_many_rev:
  "ok s \<Longrightarrow> length ps + length (avail s) \<le> cap \<Longrightarrow>
     \<exists>s'. free_many free ps s = Inr s' \<and> avail s' = rev ps @ avail s \<and> ok s'"
proof (induction ps arbitrary: s)
  case (Cons p ps)
  then obtain s1 where s1: "free p s = Inr s1" "avail s1 = p # avail s" "ok s1"
    using free_room [of s p] by auto
  then show ?case using Cons.IH [of s1] Cons.prems by auto
qed simp

lemma alloc_many_distinct:
  "alloc_many alloc n s = Inr (ps, s') \<Longrightarrow> distinct (avail s) \<Longrightarrow>
     distinct ps \<and> set ps \<inter> set (avail s') = {} \<and> length ps = n"
proof -
  assume r: "alloc_many alloc n s = Inr (ps, s')" and d: "distinct (avail s)"
  have n: "n \<le> length (avail s)" using r alloc_many_short [of s n] by fastforce
  then have "ps = take n (avail s)" "avail s' = drop n (avail s)"
    using alloc_many_take [OF n] r by auto
  then show ?thesis using d n by (auto simp: set_take_disj_set_drop_if_distinct)
qed

lemma free_then_alloc:
  assumes "ok s" "length ps + length (avail s) \<le> cap"
  shows "\<exists>s'. bindE (free_many free ps s) (alloc_many alloc (length ps)) = Inr (rev ps, s')
     \<and> avail s' = avail s"
proof -
  obtain s1 where s1: "free_many free ps s = Inr s1" "avail s1 = rev ps @ avail s"
    using free_many_rev [OF assms] by auto
  then show ?thesis using alloc_many_take [of "length ps" s1] by simp
qed

end

interpretation fstack: frame_stack alloc_page free_page frames stack_ok "unat PAGE_MAX_SIZE"
proof (unfold_locales, goal_cases)
  case (1 s)
  then show ?case by (simp add: alloc_page_Inl)
next
  case (2 s p ps)
  then show ?case by (cases "alloc_page s") (auto simp: alloc_page_Inl dest: alloc_page_Inr(1))
next
  case (3 s p s')
  then show ?case by (auto dest: alloc_page_Inr(2))
next
  case (4 s p)
  then show ?case using free_page_spec [of s p] by simp
next
  case (5 s p)
  then show ?case using free_page_spec [of s p] by (auto split: if_splits)
next
  case (6 s)
  then show ?case by (simp add: length_frames stack_ok_def word_le_nat_alt)
qed

section \<open>Filling the stack at boot\<close>

subsection \<open>Freeing a region\<close>

definition region_count :: "u32 \<Rightarrow> u32 \<Rightarrow> nat" where
  "region_count p lim =
     (if p < lim \<and> p \<le> MEMORY_MAX_SIZE
      then (min (unat lim - 1) (unat MEMORY_MAX_SIZE) - unat p) div 4096 + 1 else 0)"

definition region_pages :: "u32 \<Rightarrow> u32 \<Rightarrow> u32 list" where
  "region_pages p lim = map (\<lambda>k. p + MEMORY_PAGE_SIZE * of_nat k) [0..<region_count p lim]"

lemma region_count_step:
  assumes "p < lim" "p \<le> MEMORY_MAX_SIZE"
  shows "region_count p lim = Suc (region_count (p + MEMORY_PAGE_SIZE) lim)"
proof -
  have le: "unat p \<le> 536870912" using assms(2) by (simp add: word_le_nat_alt)
  have u: "unat (p + MEMORY_PAGE_SIZE) = unat p + 4096" using le by (simp add: unat_plus_if')
  define a b where "a = unat p" and "b = min (unat lim - 1) 536870912"
  have ab: "a \<le> b" using assms le by (simp add: a_def b_def word_less_nat_alt)
  have c: "p + MEMORY_PAGE_SIZE < lim \<and> p + MEMORY_PAGE_SIZE \<le> MEMORY_MAX_SIZE \<longleftrightarrow> a + 4096 \<le> b"
    using u assms(1) by (auto simp: a_def b_def word_less_nat_alt word_le_nat_alt)
  have "(b - a) div 4096 + 1 = Suc (if a + 4096 \<le> b then (b - (a + 4096)) div 4096 + 1 else 0)"
  proof (cases "a + 4096 \<le> b")
    case True
    then obtain d where d: "b = a + 4096 + d" by (metis le_Suc_ex)
    then have "b - a = d + 4096" "b - (a + 4096) = d" by simp_all
    then show ?thesis using True by simp
  qed (use ab in simp)
  moreover have "region_count p lim = (b - a) div 4096 + 1"
    using assms by (simp add: region_count_def a_def b_def)
  moreover have "region_count (p + MEMORY_PAGE_SIZE) lim =
      (if a + 4096 \<le> b then (b - (a + 4096)) div 4096 + 1 else 0)"
    unfolding region_count_def c u by (simp add: a_def b_def)
  ultimately show ?thesis by simp
qed

lemma region_pages_step:
  assumes "p < lim" "p \<le> MEMORY_MAX_SIZE"
  shows "region_pages p lim = p # region_pages (p + MEMORY_PAGE_SIZE) lim"
proof -
  have "map (\<lambda>k. p + MEMORY_PAGE_SIZE * of_nat k) [0..<Suc n] =
      p # map (\<lambda>k. p + MEMORY_PAGE_SIZE + MEMORY_PAGE_SIZE * of_nat k) [0..<n]" for n
    by (simp add: map_upt_Suc algebra_simps del: upt_Suc)
  then show ?thesis by (simp add: region_pages_def region_count_step [OF assms] del: upt_Suc)
qed

lemma region_pages_stop: "\<not> (p < lim \<and> p \<le> MEMORY_MAX_SIZE) \<Longrightarrow> region_pages p lim = []"
  by (auto simp: region_pages_def region_count_def)

lemma free_region_spec:
  "stack_ok s \<Longrightarrow> length (region_pages p lim) + length (frames s) \<le> unat PAGE_MAX_SIZE \<Longrightarrow>
     \<exists>s'. free_region p lim s = Inr s' \<and> frames s' = rev (region_pages p lim) @ frames s
        \<and> stack_ok s' \<and> mem s' = mem s"
proof (induction p lim s rule: free_region.induct)
  case (1 p lim s)
  show ?case
  proof (cases "p < lim \<and> p \<le> MEMORY_MAX_SIZE")
    case True
    then have st: "region_pages p lim = p # region_pages (p + MEMORY_PAGE_SIZE) lim"
      by (intro region_pages_step) auto
    then obtain s1 where s1: "free_page p s = Inr s1" "frames s1 = p # frames s" "stack_ok s1" "mem s1 = mem s"
      using free_page_spec [OF 1(2), of p] 1(3) by (auto split: if_splits)
    from 1(1) [OF True s1(1) s1(3)] 1(3) s1 st True show ?thesis
      by (subst free_region.simps) auto
  next
    case False
    then have "free_region p lim s = Inr s" by (subst free_region.simps) auto
    then show ?thesis using 1(2) False by (simp add: region_pages_stop)
  qed
qed

lemma region_pages_mem:
  assumes "q \<in> set (region_pages p lim)" "page_aligned p"
  shows "p \<le> q \<and> q < lim \<and> q \<le> MEMORY_MAX_SIZE \<and> page_aligned q"
proof -
  obtain k where k: "k < region_count p lim" "q = p + MEMORY_PAGE_SIZE * of_nat k"
    using assms(1) by (auto simp: region_pages_def)
  then have c: "p < lim" "p \<le> MEMORY_MAX_SIZE"
    by (auto simp: region_count_def split: if_splits)
  then have le: "unat p \<le> 536870912" by (simp add: word_le_nat_alt)
  let ?b = "min (unat lim - 1) 536870912"
  have kb: "4096 * k \<le> ?b - unat p" using k(1) c by (simp add: region_count_def)
  have pb: "unat p \<le> ?b" using c le by (simp add: word_less_nat_alt)
  have uk: "unat (MEMORY_PAGE_SIZE * of_nat k) = 4096 * k"
    using kb by (simp add: unat_word_ariths unat_of_nat)
  have uq: "unat q = unat p + 4096 * k"
    using uk kb pb k(2) le by (simp add: unat_plus_if')
  have "unat q \<le> ?b" unfolding uq using kb pb by arith
  then have "unat q < unat lim" "unat q \<le> 536870912" using c by (auto simp: word_less_nat_alt)
  then show ?thesis
    using uq assms(2) by (simp add: word_le_nat_alt word_less_nat_alt)
qed

lemma distinct_region_pages: "distinct (region_pages p lim)"
proof -
  have "region_count p lim \<le> 131073"
    unfolding region_count_def by (auto simp: min_def split: if_splits)
  then have "inj_on (\<lambda>k. p + MEMORY_PAGE_SIZE * of_nat k :: u32) {0..<region_count p lim}"
    by (intro inj_onI) (simp only: add_left_cancel, simp add: word_unat_eq_iff unat_word_ariths unat_of_nat)
  then show ?thesis by (simp add: region_pages_def distinct_map)
qed

subsection \<open>The entries of the memory map that are used\<close>

definition entry_pages :: "u32 \<Rightarrow> memory \<Rightarrow> u32 \<Rightarrow> u32 list" where
  "entry_pages ksize m a =
     (if load32 m (region_type a) = 1 \<and> load32 m (base_addr_low a) = 0x100000
      then region_pages (load32 m (base_addr_low a) + ksize) (load32 m (base_addr_low a) + load32 m (length_low a)) else [])"

primrec map_pages :: "u32 \<Rightarrow> memory \<Rightarrow> u32 \<Rightarrow> nat \<Rightarrow> u32 list" where
  "map_pages ksize m a 0 = []"
| "map_pages ksize m a (Suc n) = entry_pages ksize m a @ map_pages ksize m (a + 24) n"

lemma init_page_loop_spec:
  "stack_ok s \<Longrightarrow> unat a + 24 * n < 2 ^ 32 \<Longrightarrow> lim = a + 24 * of_nat n \<Longrightarrow>
   length (map_pages ksize (mem s) a n) + length (frames s) \<le> unat PAGE_MAX_SIZE \<Longrightarrow>
     \<exists>s'. init_page_loop ksize a lim s = Some (Inr s') \<and>
        frames s' = rev (map_pages ksize (mem s) a n) @ frames s \<and> stack_ok s' \<and> mem s' = mem s"
proof (induction n arbitrary: a s)
  case 0
  then show ?case by (subst init_page_loop.simps) simp
next
  case (Suc n)
  have ul: "unat lim = unat a + 24 * Suc n"
    using Suc.prems(2,3) by (simp add: unat_word_ariths unat_of_nat del: of_nat_Suc)
  then have lt: "a < lim" by (simp add: word_less_nat_alt)
  let ?c = "load32 (mem s) (region_type a) = 1 \<and> load32 (mem s) (base_addr_low a) = 0x100000"
  obtain s1 where s1: "(if ?c then free_region (load32 (mem s) (base_addr_low a) + ksize)
        (load32 (mem s) (base_addr_low a) + load32 (mem s) (length_low a)) s else Inr s) = Inr s1"
      "frames s1 = rev (entry_pages ksize (mem s) a) @ frames s" "stack_ok s1" "mem s1 = mem s"
    proof (cases ?c)
      case True
      then show ?thesis
        using that free_region_spec [OF Suc.prems(1), of "0x100000 + ksize"
            "0x100000 + load32 (mem s) (length_low a)"] Suc.prems(4)
        by (auto simp: entry_pages_def)
    next
      case False
      then show ?thesis using that [of s] Suc.prems(1) by (auto simp: entry_pages_def)
    qed
  have ua: "unat (a + 24) = unat a + 24" using Suc.prems(2) by (simp add: unat_plus_if')
  have "\<exists>s'. init_page_loop ksize (a + 24) lim s1 = Some (Inr s') \<and>
      frames s' = rev (map_pages ksize (mem s1) (a + 24) n) @ frames s1 \<and> stack_ok s' \<and> mem s' = mem s1"
    using Suc.prems(2,3,4) s1 ua by (intro Suc.IH) (auto simp: algebra_simps)
  then obtain s' where s': "init_page_loop ksize (a + 24) lim s1 = Some (Inr s')"
      "frames s' = rev (map_pages ksize (mem s1) (a + 24) n) @ frames s1" "stack_ok s'" "mem s' = mem s1"
    by blast
  have "init_page_loop ksize a lim s = init_page_loop ksize (a + 24) lim s1"
    by (subst init_page_loop.simps) (simp add: lt s1(1) del: if_split)
  then show ?case using s' s1 by simp
qed

section \<open>What the frame stack guarantees\<close>

text \<open>C24: page frames handed out one after another are different from each other and from the
  frames still free, and frames given back are handed out again in the reverse order, leaving
  the same frames free.\<close>

theorem frames_handed_out_once:
  assumes "stack_ok s" "distinct (frames s)" "n \<le> length (frames s)"
  shows "\<exists>ps s' s''. alloc_many alloc_page n s = Inr (ps, s') \<and> distinct ps \<and> length ps = n \<and>
    set ps \<inter> set (frames s') = {} \<and>
    free_many free_page (rev ps) s' = Inr s'' \<and> frames s'' = frames s"
proof -
  obtain s' where a: "alloc_many alloc_page n s = Inr (take n (frames s), s')" "frames s' = drop n (frames s)"
    using fstack.alloc_many_take [OF assms(3)] by blast
  have "length (frames s') \<le> unat PAGE_MAX_SIZE"
    using a(2) fstack.ok_cap [OF assms(1)] by simp
  then have "stack_ok s'" by (simp add: stack_ok_def length_frames word_le_nat_alt)
  then obtain s'' where "free_many free_page (rev (take n (frames s))) s' = Inr s''" "frames s'' = frames s"
    using fstack.free_many_rev [of s' "rev (take n (frames s))"] a(2) assms(1,3) fstack.ok_cap [of s]
    by auto
  then show ?thesis using a fstack.alloc_many_distinct [OF a(1) assms(2)] by blast
qed

lemma map_pages_above:
  "f \<in> set (map_pages ksize m a n) \<Longrightarrow> page_aligned ksize \<Longrightarrow> unat ksize < 0x1FF00000 \<Longrightarrow>
     0x100000 + ksize \<le> f \<and> f \<le> MEMORY_MAX_SIZE \<and> page_aligned f"
proof (induction n arbitrary: a)
  case (Suc n)
  have "page_aligned (0x100000 + ksize)" using Suc.prems(2,3) by (simp add: unat_plus_if')
  then show ?case
    using Suc region_pages_mem [of f "0x100000 + ksize" "0x100000 + load32 m (length_low a)"]
    by (auto simp: entry_pages_def split: if_splits)
qed simp

text \<open>C25: at boot, \<open>init_page\<close> reads \<open>mmap_length\<close> entries of the memory map (the field counts bytes)
  and frees, highest last, exactly the pages of its usable entry at 1 MB that lie behind the
  kernel image; so the frames are page aligned, above the image and at most at 512 MB.\<close>

theorem init_page_frees_map:
  assumes "stack_ok s" "frames s = []" "start = load32 (mem s) (mmap_addr mb)"
    and "count = unat (load32 (mem s) (mmap_length mb))" "unat start + 24 * count < 2 ^ 32"
    and "length (map_pages ksize (mem s) start count) \<le> unat PAGE_MAX_SIZE"
    and "page_aligned ksize" "unat ksize < 0x1FF00000"
  shows "\<exists>s'. init_page ksize mb s = Some (Inr s') \<and> frames s' = rev (map_pages ksize (mem s) start count) \<and>
    stack_ok s' \<and> mem s' = mem s \<and>
    (\<forall>f \<in> set (frames s'). 0x100000 + ksize \<le> f \<and> f \<le> MEMORY_MAX_SIZE \<and> page_aligned f)"
proof -
  have c: "load32 (mem s) (mmap_length mb) = of_nat count" using assms(4) by simp
  obtain s' where s': "init_page_loop ksize start (start + 24 * of_nat count) s = Some (Inr s')"
      "frames s' = rev (map_pages ksize (mem s) start count)" "stack_ok s'" "mem s' = mem s"
    using init_page_loop_spec [OF assms(1,5), of _ ksize] assms(2,6) by auto
  moreover have "init_page ksize mb s = init_page_loop ksize start (start + 24 * of_nat count) s"
    using assms(3) c by (simp add: init_page_def Let_def)
  ultimately show ?thesis using map_pages_above [OF _ assms(7,8)] by fastforce
qed

text \<open>A machine with 8 KB of memory behind a kernel image of 4 KB: the multiboot structure is at
  0x8000, its memory map, of one entry, at 0x9000.\<close>

definition boot_machine :: vm_state where
  "boot_machine = \<lparr>mem = store32 (store32 (store32 (store32 (store32 (\<lambda>_. 0) 0x802C 1) 0x8030 0x9000)
       0x9004 0x100000) 0x900C 0x3000) 0x9014 1,
     cr3 = 0, ports = [], handlers = (\<lambda>_. None), pg_stack = (\<lambda>_. 0), pg_top = 0\<rparr>"

lemma boot_machine_mem:
  "load32 (mem boot_machine) 0x802C = 1" "load32 (mem boot_machine) 0x8030 = 0x9000"
  "load32 (mem boot_machine) 0x9004 = 0x100000" "load32 (mem boot_machine) 0x900C = 0x3000"
  "load32 (mem boot_machine) 0x9014 = 1"
  by (simp_all add: boot_machine_def load32_store32_aligned)

lemma boot_machine_pages: "map_pages 0x1000 (mem boot_machine) 0x9000 1 = [0x101000, 0x102000]"
  by (simp add: entry_pages_def boot_machine_mem region_pages_def region_count_def upt_rec)

theorem init_page_frees_map_witness:
  "\<exists>s'. init_page 0x1000 0x8000 boot_machine = Some (Inr s') \<and> frames s' = [0x102000, 0x101000]"
proof -
  have "stack_ok boot_machine" "frames boot_machine = []"
    by (simp_all add: boot_machine_def stack_ok_def frames_def)
  from init_page_frees_map [OF this, where mb = "0x8000" and ksize = "0x1000" and start = "0x9000" and count = 1]
  show ?thesis using boot_machine_mem(1,2) boot_machine_pages by auto
qed

definition three_frames :: vm_state where
  "three_frames = \<lparr>mem = (\<lambda>_. 0), cr3 = 0xC0100000, ports = [], handlers = (\<lambda>_. None),
     pg_stack = (\<lambda>i. 0x200000 + 4096 * i), pg_top = 3\<rparr>"

lemma three_frames_ok:
  "stack_ok three_frames" "frames three_frames = [0x203000, 0x202000, 0x201000]"
proof -
  have "frames_from st 3 = [st 3, st 2, st 1]" for st by (simp add: eval_nat_numeral)
  then show "stack_ok three_frames" "frames three_frames = [0x203000, 0x202000, 0x201000]"
    by (simp_all add: three_frames_def stack_ok_def frames_def)
qed

theorem frames_handed_out_once_witness:
  "\<exists>ps s'. alloc_many alloc_page 2 three_frames = Inr (ps, s') \<and> distinct ps \<and> length ps = 2"
  using frames_handed_out_once [of three_frames 2] three_frames_ok by fastforce

end
