(* ===== verification/CString.thy ===== *)
theory CString
  imports OS_Prelude
begin

text \<open>
  The string and memory routines of \<open>src/string.c\<close> over the byte memory. A pointer is its
  32-bit address, \<open>p++\<close> is \<open>p + 1\<close>. The counted loops recurse on the number of
  iterations left; the loops that stop at a NUL byte are \<open>partial_function (option)\<close>,
  because over a memory without a NUL byte they do not stop: \<open>None\<close> is that run.
  A \<open>char\<close> is compared only for equality and with \<open>'\0'\<close>, so its byte is all that
  matters; \<open>strcmp\<close> and \<open>strncmp\<close> cast to \<open>unsigned char\<close> themselves.
\<close>

section \<open>The routines\<close>

primrec memcpy_loop :: "memory \<Rightarrow> u32 \<Rightarrow> u32 \<Rightarrow> nat \<Rightarrow> memory" where
  "memcpy_loop m dp sp 0 = m"
| "memcpy_loop m dp sp (Suc n) = memcpy_loop (m(dp := m sp)) (dp + 1) (sp + 1) n"

definition memcpy :: "memory \<Rightarrow> u32 \<Rightarrow> u32 \<Rightarrow> u32 \<Rightarrow> memory \<times> u32" where
  "memcpy m dest src count = (memcpy_loop m dest src (unat count), dest)"

primrec memset_loop :: "memory \<Rightarrow> u32 \<Rightarrow> u8 \<Rightarrow> nat \<Rightarrow> memory" where
  "memset_loop m dp val 0 = m"
| "memset_loop m dp val (Suc n) = memset_loop (m(dp := val)) (dp + 1) val n"

definition memset :: "memory \<Rightarrow> u32 \<Rightarrow> u8 \<Rightarrow> u32 \<Rightarrow> memory \<times> u32" where
  "memset m dest val count = (memset_loop m dest val (unat count), dest)"

definition store16 :: "memory \<Rightarrow> u32 \<Rightarrow> u16 \<Rightarrow> memory" where
  "store16 m a v = m(a := ucast v, a + 1 := ucast (drop_bit 8 v))"

primrec memsetw_loop :: "memory \<Rightarrow> u32 \<Rightarrow> u16 \<Rightarrow> nat \<Rightarrow> memory" where
  "memsetw_loop m dp val 0 = m"
| "memsetw_loop m dp val (Suc n) = memsetw_loop (store16 m dp val) (dp + 2) val n"

definition memsetw :: "memory \<Rightarrow> u32 \<Rightarrow> u16 \<Rightarrow> u32 \<Rightarrow> memory \<times> u32" where
  "memsetw m dest val count = (memsetw_loop m dest val (unat count), dest)"

partial_function (option) strlen_loop :: "memory \<Rightarrow> u32 \<Rightarrow> u32 option" where
  "strlen_loop m sp = (if m sp \<noteq> 0 then strlen_loop m (sp + 1) else Some sp)"

definition strlen :: "memory \<Rightarrow> u32 \<Rightarrow> u32 option" where
  "strlen m str = map_option (\<lambda>sp. sp - str) (strlen_loop m str)"

partial_function (option) strnlen_loop :: "memory \<Rightarrow> u32 \<Rightarrow> u32 \<Rightarrow> u32 option" where
  "strnlen_loop m lim sp =
     (if m sp \<noteq> 0 \<and> sp \<le> lim then strnlen_loop m lim (sp + 1) else Some sp)"

definition strnlen :: "memory \<Rightarrow> u32 \<Rightarrow> u32 \<Rightarrow> u32 option" where
  "strnlen m str len = map_option (\<lambda>sp. sp - str) (strnlen_loop m (str + len) str)"

partial_function (option) strcpy_loop :: "memory \<Rightarrow> u32 \<Rightarrow> u32 \<Rightarrow> memory option" where
  "strcpy_loop m dst src =
     (let c = m src; m' = m(dst := c)
      in if c \<noteq> 0 then strcpy_loop m' (dst + 1) (src + 1) else Some m')"

definition strcpy :: "memory \<Rightarrow> u32 \<Rightarrow> u32 \<Rightarrow> (memory \<times> u32) option" where
  "strcpy m dst src = map_option (\<lambda>m'. (m', dst)) (strcpy_loop m dst src)"

text \<open>
  \<open>strncpy\<close>: the first loop copies while \<open>cnt\<close> is not used up and leaves, when it copied the
  NUL, with \<open>cnt\<close> not yet decremented for it; then \<open>while (--cnt)\<close> pads with NULs.
\<close>

primrec strncpy_copy :: "memory \<Rightarrow> u32 \<Rightarrow> u32 \<Rightarrow> nat \<Rightarrow> memory \<times> u32 \<times> nat" where
  "strncpy_copy m dst src 0 = (m, dst, 0)"
| "strncpy_copy m dst src (Suc cnt) =
     (let c = m src; m' = m(dst := c)
      in if c \<noteq> 0 then strncpy_copy m' (dst + 1) (src + 1) cnt else (m', dst + 1, Suc cnt))"

primrec strncpy_pad :: "memory \<Rightarrow> u32 \<Rightarrow> nat \<Rightarrow> memory" where
  "strncpy_pad m dst 0 = m"
| "strncpy_pad m dst (Suc n) = strncpy_pad (m(dst := 0)) (dst + 1) n"

definition strncpy :: "memory \<Rightarrow> u32 \<Rightarrow> u32 \<Rightarrow> u32 \<Rightarrow> memory \<times> u32" where
  "strncpy m dst src cnt =
     (case strncpy_copy m dst src (unat cnt) of (m', dst', left) \<Rightarrow>
        (if 0 < left then strncpy_pad m' dst' (left - 1) else m', dst))"

text \<open>\<open>NULL\<close> is the address 0.\<close>

partial_function (option) strchr_loop :: "memory \<Rightarrow> u32 \<Rightarrow> u8 \<Rightarrow> u32 option" where
  "strchr_loop m tmp c =
     (if m tmp \<noteq> 0
      then if m tmp = c then Some tmp else strchr_loop m (tmp + 1) c
      else Some (if m tmp = c then tmp else 0))"

definition strchr :: "memory \<Rightarrow> u32 \<Rightarrow> u32 \<Rightarrow> u32 option" where
  "strchr m str c = strchr_loop m str (ucast c)"

text \<open>
  \<open>strrchr\<close> never assigns \<open>tmp\<close> from \<open>str\<close> and may leave \<open>ret\<close> unassigned:
  the two stack words it starts from are the arguments \<open>ret0\<close> and \<open>tmp0\<close>.
\<close>

partial_function (option) strrchr_loop :: "memory \<Rightarrow> u32 \<Rightarrow> u32 \<Rightarrow> u8 \<Rightarrow> u32 option" where
  "strrchr_loop m ret tmp c =
     (if m tmp \<noteq> 0 then strrchr_loop m (if m tmp = c then tmp else ret) (tmp + 1) c
      else Some (if m ret = c then ret else 0))"

definition strrchr :: "u32 \<Rightarrow> u32 \<Rightarrow> memory \<Rightarrow> u32 \<Rightarrow> u32 \<Rightarrow> u32 option" where
  "strrchr ret0 tmp0 m str c = strrchr_loop m ret0 tmp0 (ucast c)"

partial_function (option) strcmp :: "memory \<Rightarrow> u32 \<Rightarrow> u32 \<Rightarrow> int option" where
  "strcmp m s1 s2 =
     (if m s1 = m s2
      then if m s1 = 0 then Some 0 else strcmp m (s1 + 1) (s2 + 1)
      else Some (uint (m s1) - uint (m s2)))"

primrec strncmp_loop :: "memory \<Rightarrow> u32 \<Rightarrow> u32 \<Rightarrow> nat \<Rightarrow> int" where
  "strncmp_loop m s1 s2 0 = 0"
| "strncmp_loop m s1 s2 (Suc n) =
     (if m s1 \<noteq> m s2 then uint (m s1) - uint (m s2)
      else if m s1 = 0 then 0
      else strncmp_loop m (s1 + 1) (s2 + 1) n)"

definition strncmp :: "memory \<Rightarrow> u32 \<Rightarrow> u32 \<Rightarrow> u32 \<Rightarrow> int" where
  "strncmp m s1 s2 n = (if n = 0 then 0 else strncmp_loop m s1 s2 (unat n))"

section \<open>C strings in memory\<close>

text \<open>\<open>cstr m p s\<close>: the bytes \<open>s\<close>, none of them NUL, stand at \<open>p\<close>, then a NUL.\<close>

primrec cstr :: "memory \<Rightarrow> u32 \<Rightarrow> u8 list \<Rightarrow> bool" where
  "cstr m p [] \<longleftrightarrow> m p = 0"
| "cstr m p (c # s) \<longleftrightarrow> m p = c \<and> c \<noteq> 0 \<and> cstr m (p + 1) s"

text \<open>The result of comparing two strings bytewise, as \<open>strcmp\<close> reports it.\<close>

fun byte_diff :: "u8 list \<Rightarrow> u8 list \<Rightarrow> int" where
  "byte_diff [] [] = 0"
| "byte_diff [] (d # t) = - uint d"
| "byte_diff (c # s) [] = uint c"
| "byte_diff (c # s) (d # t) = (if c = d then byte_diff s t else uint c - uint d)"

lemma cstr_cong:
  "length s < 2 ^ 32 \<Longrightarrow> (\<And>x. in_range p (Suc (length s)) x \<Longrightarrow> m' x = m x) \<Longrightarrow>
     cstr m' p s \<longleftrightarrow> cstr m p s"
proof (induction s arbitrary: p)
  case Nil
  have "in_range p (Suc 0) p" by (simp add: in_range_def)
  with Nil.prems show ?case by simp
next
  case (Cons c s)
  have p: "m' p = m p" by (rule Cons.prems(2)) (simp add: in_range_def)
  have "cstr m' (p + 1) s \<longleftrightarrow> cstr m (p + 1) s"
  proof (rule Cons.IH)
    fix x assume "in_range (p + 1) (Suc (length s)) x"
    then show "m' x = m x"
      using Cons.prems(1) by (intro Cons.prems(2)) (simp add: in_range_Suc [of "Suc (length s)"])
  qed (use Cons.prems in simp)
  with p show ?case by simp
qed

lemma cstr_nonzero: "cstr m p s \<Longrightarrow> i < length s \<Longrightarrow> s ! i \<noteq> 0"
  by (induction s arbitrary: p i) (auto simp: nth_Cons split: nat.splits)

lemma cstr_unique: "cstr m p s \<Longrightarrow> cstr m p t \<Longrightarrow> s = t"
proof (induction s arbitrary: p t)
  case Nil then show ?case by (cases t) auto
next
  case (Cons c s) then show ?case by (cases t) auto
qed

subsection \<open>Length\<close>

lemma strlen_loop_cstr: "cstr m p s \<Longrightarrow> strlen_loop m p = Some (p + of_nat (length s))"
  by (induction s arbitrary: p) (auto simp: strlen_loop.simps algebra_simps)

lemma strlen_cstr: "cstr m p s \<Longrightarrow> strlen m p = Some (of_nat (length s))"
  by (simp add: strlen_def strlen_loop_cstr)

lemma strlen_loop_diverges: "(\<And>x. m x \<noteq> 0) \<Longrightarrow> strlen_loop m p = None"
proof -
  assume nz: "\<And>x. m x \<noteq> 0"
  have "m q = 0" if "strlen_loop m p = Some q" for q
    by (rule strlen_loop.raw_induct [where P = "\<lambda>m p q. m q = 0", OF _ that])
      (auto split: if_splits)
  with nz show ?thesis by (cases "strlen_loop m p") auto
qed

lemma cstr_exists: "m (p + of_nat n) = 0 \<Longrightarrow> \<exists>s. cstr m p s \<and> length s \<le> n"
proof (induction n arbitrary: p)
  case 0 then show ?case by (intro exI [of _ "[]"]) simp
next
  case (Suc n)
  show ?case
  proof (cases "m p = 0")
    case True then show ?thesis by (intro exI [of _ "[]"]) simp
  next
    case False
    have "m ((p + 1) + of_nat n) = 0" using Suc.prems by (simp add: algebra_simps)
    from Suc.IH [OF this] obtain s where "cstr m (p + 1) s" "length s \<le> n" by blast
    with False show ?thesis by (intro exI [of _ "m p # s"]) simp
  qed
qed

lemma cstr_at: "m z = 0 \<Longrightarrow> \<exists>s. cstr m p s \<and> length s < 2 ^ 32"
  using cstr_exists [of m p "unat (z - p)"] unat_lt32 [of "z - p"] by fastforce


lemma strlen_total_iff: "(\<exists>n. strlen m p = Some n) \<longleftrightarrow> (\<exists>x. m x = 0)"
proof
  assume "\<exists>n. strlen m p = Some n"
  then have "strlen_loop m p \<noteq> None" by (auto simp: strlen_def)
  then show "\<exists>x. m x = 0" using strlen_loop_diverges [of m p] by metis
next
  assume "\<exists>x. m x = 0"
  then obtain s where "cstr m p s" using cstr_at by blast
  then show "\<exists>n. strlen m p = Some n" by (auto dest: strlen_cstr)
qed

subsection \<open>Filling and copying\<close>

lemma memset_loop_fill: "n \<le> 2 ^ 32 \<Longrightarrow> memset_loop m p v n = fill m p n v"
proof (induction n arbitrary: m p)
  case 0 then show ?case by simp
next
  case (Suc n)
  then have "memset_loop m p v (Suc n) = fill (m(p := v)) (p + 1) n v" by simp
  also have "\<dots> = fill m p (Suc n) v" using Suc.prems by (intro fill_Suc) simp
  finally show ?case .
qed

lemma memset_fill [mem_simps]: "memset m p v c = (fill m p (unat c) v, p)"
  using unat_lt32 [of c] by (simp add: memset_def memset_loop_fill)

lemma sep_Suc: "sep a (Suc n) b (Suc k) \<Longrightarrow> sep (a + 1) n (b + 1) k"
  by (simp add: sep_def)

lemma sep_head:
  assumes "sep a (Suc n) b (Suc k)" "k < 2 ^ 32"
  shows "\<not> in_range (b + 1) k a"
proof -
  have "in_range a (Suc n) a" by (simp add: in_range_def)
  then have "\<not> in_range b (Suc k) a" using assms(1) sep_in_range by blast
  then show ?thesis using assms(2) by (simp add: in_range_Suc)
qed

lemma memcpy_loop_copies:
  "n \<le> 2 ^ 32 \<Longrightarrow> sep dp n sp n \<Longrightarrow>
     memcpy_loop m dp sp n = (\<lambda>x. if in_range dp n x then m (sp + (x - dp)) else m x)"
proof (induction n arbitrary: m dp sp)
  case 0 then show ?case by simp
next
  case (Suc n)
  have n: "n \<le> 2 ^ 32" "n < 2 ^ 32" using Suc.prems(1) by simp_all
  have s: "sep (dp + 1) n (sp + 1) n" using Suc.prems(2) by (rule sep_Suc)
  have h: "\<not> in_range (sp + 1) n dp" using sep_head [OF Suc.prems(2) n(2)] .
  show ?case
  proof
    fix x
    consider "x = dp" | "x \<noteq> dp" "in_range (dp + 1) n x" | "x \<noteq> dp" "\<not> in_range (dp + 1) n x"
      by blast
    then show "memcpy_loop m dp sp (Suc n) x =
        (if in_range dp (Suc n) x then m (sp + (x - dp)) else m x)"
    proof cases
      case 1
      show ?thesis using 1 n by (simp add: Suc.IH [OF n(1) s] in_range_Suc)
    next
      case 2
      have "unat (x - (dp + 1)) < n" using 2(2) by (simp add: in_range_def)
      then have "in_range (sp + 1) n ((sp + 1) + (x - (dp + 1)))"
        unfolding in_range_def by (simp only: add_diff_cancel_left')
      then have "(sp + 1) + (x - (dp + 1)) \<noteq> dp" using h by metis
      then show ?thesis using 2 n by (simp add: Suc.IH [OF n(1) s] in_range_Suc)
    next
      case 3
      then show ?thesis using n by (simp add: Suc.IH [OF n(1) s] in_range_Suc)
    qed
  qed
qed

lemma strcpy_loop_copies:
  "length s + 1 \<le> 2 ^ 32 \<Longrightarrow> cstr m src s \<Longrightarrow> sep dst (length s + 1) src (length s + 1) \<Longrightarrow>
     \<exists>m'. strcpy_loop m dst src = Some m' \<and> cstr m' dst s
        \<and> (\<forall>x. \<not> in_range dst (length s + 1) x \<longrightarrow> m' x = m x)"
proof (induction s arbitrary: m dst src)
  case Nil
  then show ?case by (simp add: strcpy_loop.simps in_range_def)
next
  case (Cons c s)
  let ?m = "m(dst := c)"
  have len: "length s + 1 < 2 ^ 32" using Cons.prems(1) by simp
  have s': "sep (dst + 1) (length s + 1) (src + 1) (length s + 1)"
    using Cons.prems(3) by (auto intro: sep_Suc)
  have "\<not> in_range (src + 1) (length s + 1) dst"
    using sep_head [of dst "length s + 1" src "length s + 1"] Cons.prems(3) len by simp
  then have "cstr ?m (src + 1) s"
    using Cons.prems(2) len by (subst cstr_cong [where m = m]) auto
  from Cons.IH [OF _ this s'] len obtain m' where m': "strcpy_loop ?m (dst + 1) (src + 1) = Some m'"
      "cstr m' (dst + 1) s" "\<forall>x. \<not> in_range (dst + 1) (length s + 1) x \<longrightarrow> m' x = ?m x"
    using less_imp_le by blast
  have "\<not> in_range (dst + 1) (length s + 1) dst"
    using len by (intro not_in_range_pred) simp
  then have "m' dst = c" using m'(3) by simp
  moreover have "strcpy_loop m dst src = Some m'"
    using Cons.prems(2) m'(1) by (subst strcpy_loop.simps) (simp add: Let_def)
  moreover have "m' x = m x" if "\<not> in_range dst (length (c # s) + 1) x" for x
    using that m'(3) len in_range_Suc [of "length s + 1" dst x] by auto
  ultimately show ?case using Cons.prems(2) m'(2) by auto
qed

lemma strcpy_cstr:
  assumes "cstr m src s" and "length s < 2 ^ 32" and "sep dst (length s + 1) src (length s + 1)"
  obtains m' where "strcpy m dst src = Some (m', dst)" and "cstr m' dst s"
    and "\<And>x. \<not> in_range dst (length s + 1) x \<Longrightarrow> m' x = m x"
  using strcpy_loop_copies [OF _ assms(1,3)] assms(2) by (auto simp: strcpy_def)


subsection \<open>Comparing\<close>

lemma strcmp_cstr: "cstr m p s \<Longrightarrow> cstr m q t \<Longrightarrow> strcmp m p q = Some (byte_diff s t)"
proof (induction s t arbitrary: p q rule: byte_diff.induct)
  case 1 then show ?case by (simp add: strcmp.simps)
next
  case (2 d t) then show ?case by (subst strcmp.simps) auto
next
  case (3 c s) then show ?case by (subst strcmp.simps) auto
next
  case (4 c s d t) then show ?case by (subst strcmp.simps) auto
qed

lemma strncmp_loop_cstr:
  "cstr m p s \<Longrightarrow> cstr m q t \<Longrightarrow> strncmp_loop m p q n = byte_diff (take n s) (take n t)"
proof (induction n arbitrary: p q s t)
  case 0 then show ?case by simp
next
  case (Suc n)
  then show ?case by (cases s; cases t) auto
qed

lemma strncmp_cstr:
  "cstr m p s \<Longrightarrow> cstr m q t \<Longrightarrow> strncmp m p q n = byte_diff (take (unat n) s) (take (unat n) t)"
  by (simp add: strncmp_def strncmp_loop_cstr)

lemma byte_diff_0_iff:
  "0 \<notin> set s \<Longrightarrow> 0 \<notin> set t \<Longrightarrow> byte_diff s t = 0 \<longleftrightarrow> s = t"
proof (induction s t rule: byte_diff.induct)
  case (4 c s d t)
  then show ?case using word_uint_eq_iff [of c d] by simp
qed (simp_all add: uint_0_iff)

lemma byte_diff_neg_iff:
  "0 \<notin> set s \<Longrightarrow> 0 \<notin> set t \<Longrightarrow> byte_diff s t < 0 \<longleftrightarrow> (s, t) \<in> lexord {(c, d). c < d}"
proof (induction s t rule: byte_diff.induct)
  case (2 d t)
  then have "0 < uint d" by (metis list.set_intros(1) uint_0_iff uint_ge_0 order_le_less)
  then show ?case by simp
next
  case (4 c s d t)
  then show ?case by (auto simp: word_less_def)
qed auto

lemma cstr_no_nul: "cstr m p s \<Longrightarrow> 0 \<notin> set s"
  by (induction s arbitrary: p) auto

subsection \<open>Bounded routines\<close>

lemma strncpy_pad_fill: "n \<le> 2 ^ 32 \<Longrightarrow> strncpy_pad m p n = fill m p n 0"
proof (induction n arbitrary: m p)
  case 0 then show ?case by simp
next
  case (Suc n)
  then have "strncpy_pad m p (Suc n) = fill (m(p := 0)) (p + 1) n 0" by simp
  also have "\<dots> = fill m p (Suc n) 0" using Suc.prems by (intro fill_Suc) simp
  finally show ?case .
qed

definition padded :: "u8 list \<Rightarrow> nat \<Rightarrow> u8" where
  "padded s i = (if i < length s then s ! i else 0)"

definition strncpy_run :: "memory \<Rightarrow> u32 \<Rightarrow> u32 \<Rightarrow> nat \<Rightarrow> memory" where
  "strncpy_run m dst src n =
     (case strncpy_copy m dst src n of (m', dst', left) \<Rightarrow>
        if 0 < left then strncpy_pad m' dst' (left - 1) else m')"

lemma strncpy_run_Suc:
  "strncpy_run m dst src (Suc n) =
     (if m src \<noteq> 0 then strncpy_run (m(dst := m src)) (dst + 1) (src + 1) n
      else strncpy_pad (m(dst := 0)) (dst + 1) n)"
  by (simp add: strncpy_run_def Let_def)

lemma strncpy_run_spec:
  "n < 2 ^ 32 \<Longrightarrow> cstr m src s \<Longrightarrow> length s < 2 ^ 32 - 1 \<Longrightarrow>
   sep dst (Suc (max n (length s))) src (Suc (max n (length s))) \<Longrightarrow>
     strncpy_run m dst src n =
       (\<lambda>x. if in_range dst n x then padded s (unat (x - dst)) else m x)"
proof (induction n arbitrary: m dst src s)
  case 0 then show ?case by (simp add: strncpy_run_def)
next
  case (Suc n)
  have n: "n < 2 ^ 32" using Suc.prems(1) by simp
  show ?case
  proof (cases s)
    case Nil
    then have "strncpy_run m dst src (Suc n) = fill (m(dst := 0)) (dst + 1) n 0"
      using Suc.prems n by (simp add: strncpy_run_Suc strncpy_pad_fill)
    also have "\<dots> = fill m dst (Suc n) 0" using n by (intro fill_Suc)
    finally show ?thesis using Nil by (simp add: fill_def padded_def cong: if_cong)
  next
    case (Cons c t)
    let ?m = "m(dst := c)" and ?k = "max n (length t)"
    have sp: "sep dst (Suc (Suc ?k)) src (Suc (Suc ?k))"
      using Suc.prems(4) Cons by (simp add: max_def split: if_splits)
    have k: "Suc (length t) < 2 ^ 32" "Suc ?k < 2 ^ 32" using Suc.prems(1,3) Cons by auto
    have nr: "\<not> in_range (src + 1) (Suc ?k) dst" using sep_head [OF sp k(2)] .
    then have "\<not> in_range (src + 1) (Suc (length t)) dst"
      by (auto simp: in_range_def)
    then have ct: "cstr ?m (src + 1) t"
      using Suc.prems(2) Cons k by (subst cstr_cong [where m = m]) auto
    have IH: "strncpy_run ?m (dst + 1) (src + 1) n =
        (\<lambda>x. if in_range (dst + 1) n x then padded t (unat (x - (dst + 1))) else ?m x)"
      using Suc.prems(3) Cons by (intro Suc.IH [OF n ct _ sep_Suc [OF sp]]) simp
    have "strncpy_run m dst src (Suc n) = strncpy_run ?m (dst + 1) (src + 1) n"
      using Suc.prems(2) Cons by (simp add: strncpy_run_Suc)
    also have "\<dots> = (\<lambda>x. if in_range dst (Suc n) x then padded s (unat (x - dst)) else m x)"
    proof
      fix x
      show "strncpy_run ?m (dst + 1) (src + 1) n x =
          (if in_range dst (Suc n) x then padded s (unat (x - dst)) else m x)"
      proof (cases "x = dst")
        case True
        then show ?thesis using IH n Cons by (simp add: in_range_Suc padded_def)
      next
        case False
        then have "1 \<le> unat (x - dst)" by (simp add: Suc_le_eq unat_gt_0)
        then have "unat (x - dst) = Suc (unat (x - (dst + 1)))"
          using unat_sub_if' [of "x - dst" 1] by (simp add: diff_diff_eq)
        then show ?thesis using IH n Cons False by (simp add: in_range_Suc padded_def)
      qed
    qed
    finally show ?thesis .
  qed
qed

lemma strncpy_run_eq: "strncpy m dst src cnt = (strncpy_run m dst src (unat cnt), dst)"
  by (simp add: strncpy_def strncpy_run_def split: prod.splits)

text \<open>
  \<open>strnlen\<close> tests \<open>sp <= str + len\<close> after reading \<open>*sp\<close>, so it steps over one byte more
  than its bound.
\<close>

lemma strnlen_loop_cstr:
  "cstr m p s \<Longrightarrow> unat p + length s < 2 ^ 32 \<Longrightarrow> unat lim < 2 ^ 32 - 1 \<Longrightarrow>
   unat p \<le> Suc (unat lim) \<Longrightarrow>
     strnlen_loop m lim p = Some (p + of_nat (min (length s) (Suc (unat lim) - unat p)))"
proof (induction s arbitrary: p)
  case Nil
  then show ?case by (subst strnlen_loop.simps) simp
next
  case (Cons c s)
  have u: "unat (p + 1) = Suc (unat p)"
    using Cons.prems(2) by (simp add: unat_plus_if')
  show ?case
  proof (cases "p \<le> lim")
    case True
    then have le: "unat p \<le> unat lim" by (simp add: word_le_nat_alt)
    have "strnlen_loop m lim p = strnlen_loop m lim (p + 1)"
      using Cons.prems(1) True by (subst strnlen_loop.simps) simp
    also have "\<dots> = Some (p + 1 + of_nat (min (length s) (Suc (unat lim) - unat (p + 1))))"
      using Cons.prems u le by (intro Cons.IH) auto
    moreover have "1 + of_nat (min (length s) (Suc (unat lim) - unat (p + 1))) =
        (of_nat (min (length (c # s)) (Suc (unat lim) - unat p)) :: u32)"
      using le u by (simp add: min_def Suc_diff_le flip: of_nat_Suc)
    ultimately show ?thesis by (simp only: add.assoc)
  next
    case False
    then have "unat lim < unat p" by (simp add: word_le_nat_alt)
    then have "Suc (unat lim) - unat p = 0" using Cons.prems(4) by simp
    then show ?thesis using False by (subst strnlen_loop.simps) simp
  qed
qed

lemma strchr_loop_cstr:
  "cstr m p s \<Longrightarrow> c \<noteq> 0 \<Longrightarrow>
     strchr_loop m p c = Some (if c \<in> set s then p + of_nat (length (takeWhile (\<lambda>d. d \<noteq> c) s)) else 0)"
proof (induction s arbitrary: p)
  case Nil then show ?case by (subst strchr_loop.simps) simp
next
  case (Cons d s)
  then show ?case by (subst strchr_loop.simps) (auto simp: algebra_simps)
qed

section \<open>The contracts of the string functions\<close>

text \<open>C40: \<open>strcmp\<close> and \<open>strncmp\<close> return on any two C strings and order them as sequences of unsigned
  bytes: 0 exactly for equal strings (equal prefixes of at most \<open>n\<close> bytes), and negative exactly
  when the first comes first in the dictionary.\<close>

theorem string_compare_orders:
  assumes "cstr m p s" "cstr m q t"
  shows "\<exists>r. strcmp m p q = Some r \<and> (r = 0 \<longleftrightarrow> s = t) \<and> (r < 0 \<longleftrightarrow> (s, t) \<in> lexord {(c, d). c < d}) \<and>
    (strncmp m p q n = 0 \<longleftrightarrow> take (unat n) s = take (unat n) t) \<and>
    (strncmp m p q n < 0 \<longleftrightarrow> (take (unat n) s, take (unat n) t) \<in> lexord {(c, d). c < d})"
proof -
  have "0 \<notin> set (take k s)" "0 \<notin> set (take k t)" for k
    using cstr_no_nul [OF assms(1)] cstr_no_nul [OF assms(2)] by (meson in_set_takeD)+
  then show ?thesis
    using cstr_no_nul [OF assms(1)] cstr_no_nul [OF assms(2)]
    by (simp add: strcmp_cstr [OF assms] strncmp_cstr [OF assms] byte_diff_0_iff byte_diff_neg_iff)
qed

text \<open>\<open>strcpy\<close> between buffers that do not overlap returns its destination with the same string
  in it, and writes nothing beyond that string and its NUL.\<close>

theorem strcpy_copies:
  assumes "cstr m src s" "length s < 2 ^ 32" "sep dst (length s + 1) src (length s + 1)"
  shows "\<exists>m'. strcpy m dst src = Some (m', dst) \<and> cstr m' dst s \<and>
    (\<forall>x. \<not> in_range dst (length s + 1) x \<longrightarrow> m' x = m x)"
  using strcpy_cstr [OF assms] by metis

text \<open>\<open>strncpy\<close> writes exactly \<open>cnt\<close> bytes: the string, cut after \<open>cnt\<close> bytes, and NULs in what
  is left; so a string of \<open>cnt\<close> or more bytes stays without a NUL.\<close>

theorem strncpy_pads:
  assumes "cstr m src s" "length s < 2 ^ 32 - 1"
    and "sep dst (Suc (max (unat cnt) (length s))) src (Suc (max (unat cnt) (length s)))"
  shows "strncpy m dst src cnt =
    ((\<lambda>x. if in_range dst (unat cnt) x then padded s (unat (x - dst)) else m x), dst)"
  using strncpy_run_spec [OF _ assms] unat_lt32 [of cnt] by (simp add: strncpy_run_eq)

text \<open>\<open>strnlen\<close> returns, but its bound is off by one: a string longer than \<open>len\<close> is reported as
  \<open>len + 1\<close> bytes long.\<close>

theorem strnlen_overshoots:
  assumes "cstr m p s" "unat p + length s < 2 ^ 32" "unat p + unat len < 2 ^ 32 - 1"
  shows "strnlen m p len = Some (of_nat (min (length s) (unat len + 1)))"
proof -
  have u: "unat (p + len) = unat p + unat len" using assms(3) by (simp add: unat_plus_if')
  then have "strnlen_loop m (p + len) p = Some (p + of_nat (min (length s) (Suc (unat len))))"
    using strnlen_loop_cstr [OF assms(1,2), of "p + len"] assms(3) by (simp add: Suc_diff_le)
  then show ?thesis by (simp add: strnlen_def)
qed

text \<open>The strings \<open>ab\<close> at 0x1000 and \<open>ac\<close> at 0x2000.\<close>

definition two_strings :: memory where
  "two_strings = (\<lambda>_. 0)(0x1000 := 97, 0x1001 := 98, 0x2000 := 97, 0x2001 := 99)"

lemma two_strings_at: "cstr two_strings 0x1000 [97, 98]" "cstr two_strings 0x2000 [97, 99]"
  by (simp_all add: two_strings_def)

theorem string_compare_orders_witness:
  "\<exists>r. strcmp two_strings 0x1000 0x2000 = Some r \<and> r < 0 \<and> strncmp two_strings 0x1000 0x2000 1 = 0"
  using string_compare_orders [OF two_strings_at, of 1] by auto

theorem strcpy_copies_witness:
  "\<exists>m'. strcpy two_strings 0x3000 0x1000 = Some (m', 0x3000) \<and> cstr m' 0x3000 [97, 98]"
  using strcpy_copies [OF two_strings_at(1), of "0x3000"] by (auto simp: sep_def)

theorem strncpy_pads_witness:
  "fst (strncpy two_strings 0x3000 0x1000 1) 0x3000 = 97 \<and> fst (strncpy two_strings 0x3000 0x1000 1) 0x3001 = 0"
  using strncpy_pads [OF two_strings_at(1), of "0x3000" 1]
  by (simp add: sep_def in_range_def padded_def) (simp add: two_strings_def)

theorem strnlen_overshoots_witness: "strnlen two_strings 0x1000 0 = Some 1"
  using strnlen_overshoots [OF two_strings_at(1), of 0] by simp

end
