(* ===== verification/Paging.thy ===== *)
theory Paging
  imports FrameStack CString
begin

text \<open>
  The page tables of \<open>src/memory.c\<close>: \<open>map\<close>, \<open>unmap\<close>, \<open>get_mapping\<close> and \<open>init_vmm\<close>.
  Page directories and page tables live in memory: \<open>pgd_now[i]\<close> is the 32-bit cell at
  \<open>pgd_now + 4 * i\<close>, and a table at physical address \<open>p\<close> is reached at
  \<open>p + PAGE_OFFSET\<close>. Memory is the flat array the kernel's pointers address; the
  \<open>invlpg\<close> instruction, which only drops a cached translation, has no effect on it.
  The tables are viewed as a map from pages to entries (\<open>pte_entry\<close>), with the contract
  \<open>address_map\<close>; \<open>paging_inv\<close> keeps directory, tables and free frames apart.
\<close>

section \<open>Page tables\<close>

definition PTE_INDEX :: "u32 \<Rightarrow> u32" where
  "PTE_INDEX x = drop_bit 12 x AND 0x3FF"

definition PGD_INDEX :: "u32 \<Rightarrow> u32" where
  "PGD_INDEX x = drop_bit 22 x AND 0x3FF"
definition map_page ::
    "u32 \<Rightarrow> u32 \<Rightarrow> u32 \<Rightarrow> u32 \<Rightarrow> 'a vm_state_scheme \<Rightarrow> 'a vm_state_scheme result" where
  "map_page pgd_now va pa flags s =
     (let pgd_idx = PGD_INDEX va; pte_idx = PTE_INDEX va;
          pte = load32 (mem s) (pgd_now + 4 * pgd_idx) AND PAGE_MASK
      in bindE
           (if pte = 0
            then bindE (alloc_page s) (\<lambda>(pte, s).
                   let m = store32 (mem s) (pgd_now + 4 * pgd_idx) (pte OR PAGE_PRESENT OR PAGE_WRITE);
                       pte = pte + PAGE_OFFSET
                   in Inr (pte, s\<lparr>mem := fst (memset m pte 0 PAGE_SIZE)\<rparr>))
            else Inr (pte + PAGE_OFFSET, s))
           (\<lambda>(pte, s).
              Inr (s\<lparr>mem := store32 (mem s) (pte + 4 * pte_idx) ((pa AND PAGE_MASK) OR flags)\<rparr>)))"

definition unmap :: "u32 \<Rightarrow> u32 \<Rightarrow> 'a machine_scheme \<Rightarrow> 'a machine_scheme" where
  "unmap pgd_now va s =
     (let pgd_idx = PGD_INDEX va; pte_idx = PTE_INDEX va;
          pte = load32 (mem s) (pgd_now + 4 * pgd_idx) AND PAGE_MASK
      in if pte = 0 then s
         else let pte = pte + PAGE_OFFSET in s\<lparr>mem := store32 (mem s) (pte + 4 * pte_idx) 0\<rparr>)"

text \<open>
  \<open>get_mapping\<close> returns 0 or 1 and writes through \<open>pa\<close> only when it returns 1: the second
  component is what it writes. \<open>has_pa\<close> says whether the pointer \<open>pa\<close> is not NULL.
\<close>

definition get_mapping :: "u32 \<Rightarrow> u32 \<Rightarrow> bool \<Rightarrow> memory \<Rightarrow> u32 \<times> u32 option" where
  "get_mapping pgd_now va has_pa m =
     (let pgd_idx = PGD_INDEX va; pte_idx = PTE_INDEX va;
          pte = load32 m (pgd_now + 4 * pgd_idx) AND PAGE_MASK
      in if pte = 0 then (0, None)
         else let pte = pte + PAGE_OFFSET
              in if load32 m (pte + 4 * pte_idx) \<noteq> 0 \<and> has_pa
                 then (1, Some (load32 m (pte + 4 * pte_idx) AND PAGE_MASK))
                 else (0, None))"

primrec init_pgd_loop :: "u32 \<Rightarrow> u32 \<Rightarrow> memory \<Rightarrow> u32 \<Rightarrow> u32 \<Rightarrow> nat \<Rightarrow> memory" where
  "init_pgd_loop pgd_kern pte_kern m i j 0 = m"
| "init_pgd_loop pgd_kern pte_kern m i j (Suc n) =
     init_pgd_loop pgd_kern pte_kern
       (store32 m (pgd_kern + 4 * i)
          ((pte_kern + PAGE_SIZE * j - PAGE_OFFSET) OR PAGE_PRESENT OR PAGE_WRITE))
       (i + 1) (j + 1) n"

primrec init_pte_loop :: "u32 \<Rightarrow> memory \<Rightarrow> u32 \<Rightarrow> nat \<Rightarrow> memory" where
  "init_pte_loop pte m i 0 = m"
| "init_pte_loop pte m i (Suc n) =
     init_pte_loop pte (store32 m (pte + 4 * i) (push_bit 12 i OR PAGE_PRESENT OR PAGE_WRITE)) (i + 1) n"

text \<open>
  \<open>init_vmm\<close>: \<open>pgd_kern\<close> and \<open>pte_kern\<close> are the link-time addresses of the two arrays.
  The first loop runs \<open>PTE_COUNT\<close> times from \<open>kern_pte_first_idx\<close>, the second from 1
  to \<open>PTE_COUNT * PTE_SIZE\<close>.
\<close>

definition init_vmm :: "u32 \<Rightarrow> u32 \<Rightarrow> 'a machine_scheme \<Rightarrow> 'a machine_scheme" where
  "init_vmm pgd_kern pte_kern s =
     (let kern_pte_first_idx = PGD_INDEX PAGE_OFFSET;
          m1 = init_pgd_loop pgd_kern pte_kern (mem s) kern_pte_first_idx 0 128;
          m2 = init_pte_loop pte_kern m1 1 (128 * 1024 - 1)
      in set_cr3 (pgd_kern - PAGE_OFFSET)
           (register_interrupt_handler 14 Page_fault (s\<lparr>mem := m2\<rparr>)))"

section \<open>Cells of a page\<close>

lemma index_lt [simp]: "PTE_INDEX x < 1024" "PGD_INDEX x < 1024"
proof -
  have "w AND 0x3FF < 1024" for w :: u32
    using word_and_le1 [of w "0x3FF"] by (rule le_less_trans) simp
  then show "PTE_INDEX x < 1024" "PGD_INDEX x < 1024"
    by (simp_all add: PTE_INDEX_def PGD_INDEX_def)
qed

lemma index_lt_nat: "i < 1024 \<Longrightarrow> unat (i :: u32) < 1024"
  by (simp add: word_less_nat_alt)

lemma page_room:
  assumes "page_aligned a" shows "unat a + 4096 \<le> 4294967296"
proof -
  obtain k where k: "unat a = 4096 * k" using assms by (auto elim!: dvdE)
  then have "k < 1048576" using unat_lt32 [of a] by simp
  then show ?thesis using k by simp
qed

lemma unat_cell:
  assumes "page_aligned a" "i < 1024"
  shows "unat (a + 4 * i) = unat a + 4 * unat i"
proof -
  have i: "unat i < 1024" using assms(2) by (rule index_lt_nat)
  then have "unat (4 * i) = 4 * unat i" by (simp add: unat_word_ariths)
  then show ?thesis using page_room [OF assms(1)] i by (simp add: unat_plus_if')
qed

lemma cell_aligned:
  assumes "page_aligned a" "i < 1024" shows "4 dvd unat (a + 4 * i)"
proof -
  obtain k where "unat a = 4096 * k" using assms(1) by (auto elim!: dvdE)
  then have "unat (a + 4 * i) = 4 * (1024 * k + unat i)" using assms by (simp add: unat_cell)
  then show ?thesis by (metis dvd_triv_left)
qed

lemma cell_inj:
  assumes "page_aligned a" "page_aligned b" "i < 1024" "j < 1024"
  shows "a + 4 * i = b + 4 * j \<longleftrightarrow> a = b \<and> i = j"
proof
  assume eq: "a + 4 * i = b + 4 * j"
  obtain p q where p: "unat a = 4096 * p" "unat b = 4096 * q" using assms(1,2) by (auto elim!: dvdE)
  have ij: "unat i < 1024" "unat j < 1024" using assms(3,4) index_lt_nat by auto
  have "unat a + 4 * unat i = unat b + 4 * unat j"
    using eq unat_cell assms by metis
  then have e: "1024 * p + unat i = 1024 * q + unat j" using p by simp
  have "p = (1024 * p + unat i) div 1024" "q = (1024 * q + unat j) div 1024" using ij by simp_all
  then have "p = q \<and> unat i = unat j" using e by simp
  then show "a = b \<and> i = j" using p by (auto simp: word_unat_eq_iff)
qed simp

lemma load_cell_store [mem_simps]:
  assumes "page_aligned a" "page_aligned b" "i < 1024" "j < 1024"
  shows "load32 (store32 m (a + 4 * i) v) (b + 4 * j) = (if a = b \<and> i = j then v else load32 m (b + 4 * j))"
  using assms by (simp add: load32_store32_aligned cell_aligned cell_inj)

lemma pages_sep:
  assumes "page_aligned a" "page_aligned b" "a \<noteq> b"
  shows "sep a 4096 b 4096"
proof -
  obtain p q where p: "unat a = 4096 * p" "unat b = 4096 * q" using assms(1,2) by (auto elim!: dvdE)
  then have "p \<noteq> q" using assms(3) by (auto simp: word_unat_eq_iff)
  then consider "unat a + 4096 \<le> unat b" | "unat b + 4096 \<le> unat a" using p by linarith
  then show ?thesis
    using page_room [OF assms(1)] page_room [OF assms(2)] by cases (auto intro: sep_natI sep_natI')
qed

lemma cell_in_page:
  assumes "page_aligned a" "i < 1024" "in_range (a + 4 * i) 4 x"
  shows "in_range a 4096 x"
proof -
  obtain k where k: "k < 4" "x = (a + 4 * i) + of_nat k" using in_rangeD [OF assms(3)] by blast
  have i: "unat i < 1024" using assms(2) by (rule index_lt_nat)
  have "x = a + of_nat (4 * unat i + k)" using k(2) by simp
  moreover have "4 * unat i + k < 4096" using i k(1) by simp
  ultimately show ?thesis using in_range_offset [of "4 * unat i + k" 4096 a] by simp
qed

lemma load_cell_fill [mem_simps]:
  assumes "page_aligned a" "page_aligned b" "j < 1024"
  shows "load32 (fill m a 4096 0) (b + 4 * j) = (if a = b then 0 else load32 m (b + 4 * j))"
proof (cases "a = b")
  case True
  then show ?thesis using assms by (simp add: load32_fill_inside cell_in_page)
next
  case False
  have "load32 (fill m a 4096 0) (b + 4 * j) = load32 m (b + 4 * j)"
  proof (rule load32_cong)
    fix x assume "in_range (b + 4 * j) 4 x"
    then have "in_range b 4096 x" using cell_in_page assms(2,3) by blast
    then have "\<not> in_range a 4096 x"
      using sep_in_range pages_sep [of b a] assms False by blast
    then show "fill m a 4096 0 x = m x" by (simp add: fill_def)
  qed
  with False show ?thesis by simp
qed

lemma aligned_and_mask:
  assumes "page_aligned a" shows "a AND PAGE_MASK = a"
proof -
  obtain k where "unat a = 4096 * k" using assms by (auto elim!: dvdE)
  then show ?thesis by (simp add: word_unat_eq_iff unat_page_mask)
qed

lemma mask_aligned [simp]: "page_aligned (a AND PAGE_MASK)"
  by (simp add: unat_page_mask)

lemma mask_flags [simp]: "((a AND PAGE_MASK) OR 3) AND PAGE_MASK = a AND PAGE_MASK"
proof -
  have "(3 :: u32) AND PAGE_MASK = 0" by simp
  then show ?thesis by (simp add: bit.conj_disj_distrib2 and.assoc)
qed

lemma aligned_flags [simp]: "page_aligned a \<Longrightarrow> (a OR 3) AND PAGE_MASK = a"
  using mask_flags [of a] by (simp add: aligned_and_mask)

lemma page_aligned_add:
  assumes "page_aligned a" "page_aligned b" shows "page_aligned (a + b)"
proof -
  have "4096 dvd (unat a + unat b) mod 4294967296" using assms by (intro dvd_mod) auto
  then show ?thesis by (simp add: unat_word_ariths(1))
qed

lemma aligned_add_OFFSET: "page_aligned a \<Longrightarrow> page_aligned (a + PAGE_OFFSET)"
  by (erule page_aligned_add) simp

text \<open>Two addresses are translated by the same page-table entry iff they lie in the same page.\<close>

lemma same_page_iff:
  "PGD_INDEX v = PGD_INDEX w \<and> PTE_INDEX v = PTE_INDEX w \<longleftrightarrow> v AND PAGE_MASK = w AND PAGE_MASK"
proof
  assume eq: "v AND PAGE_MASK = w AND PAGE_MASK"
  have d: "drop_bit 12 u = drop_bit 12 (u AND PAGE_MASK)" for u :: u32
    unfolding page_mask_not
    by (rule bit_word_eqI) (auto simp: bit_simps dest: bit_imp_le_length)
  have d2: "drop_bit 22 u = drop_bit 10 (drop_bit 12 u)" for u :: u32
    by (simp add: drop_bit_drop_bit)
  show "PGD_INDEX v = PGD_INDEX w \<and> PTE_INDEX v = PTE_INDEX w"
    unfolding PGD_INDEX_def PTE_INDEX_def d2 using eq d by metis
next
  assume "PGD_INDEX v = PGD_INDEX w \<and> PTE_INDEX v = PTE_INDEX w"
  then have e: "take_bit 10 (drop_bit 22 v) = take_bit 10 (drop_bit 22 w)"
      "take_bit 10 (drop_bit 12 v) = take_bit 10 (drop_bit 12 w)"
    by (simp_all add: PGD_INDEX_def PTE_INDEX_def take_bit_eq_mask mask_eq_exp_minus_1)
  show "v AND PAGE_MASK = w AND PAGE_MASK"
    unfolding page_mask_not
  proof (rule bit_word_eqI)
    fix n :: nat assume n: "n < LENGTH(32)"
    show "bit (v AND NOT (mask 12)) n = bit (w AND NOT (mask 12)) n"
    proof (cases "n < 22")
      case True
      have "bit (take_bit 10 (drop_bit 12 v)) (n - 12) = bit (take_bit 10 (drop_bit 12 w)) (n - 12)"
        using e(2) by simp
      then show ?thesis using True n by (auto simp: bit_simps)
    next
      case False
      have "bit (take_bit 10 (drop_bit 22 v)) (n - 22) = bit (take_bit 10 (drop_bit 22 w)) (n - 22)"
        using e(1) by simp
      then show ?thesis using False n by (auto simp: bit_simps)
    qed
  qed
qed


section \<open>What the page tables say, and their invariant\<close>

text \<open>A page the kernel reaches through its linear window \<open>[PAGE_OFFSET, PAGE_OFFSET + 512 MB)\<close>.\<close>

definition kpage :: "u32 \<Rightarrow> bool" where
  "kpage a \<longleftrightarrow> page_aligned a \<and> PAGE_OFFSET \<le> a \<and> a < 0xE0000000"

definition present :: "memory \<Rightarrow> u32 \<Rightarrow> u32 \<Rightarrow> bool" where
  "present m pgd i \<longleftrightarrow> load32 m (pgd + 4 * i) AND PAGE_MASK \<noteq> 0"

definition table :: "memory \<Rightarrow> u32 \<Rightarrow> u32 \<Rightarrow> u32" where
  "table m pgd i = (load32 m (pgd + 4 * i) AND PAGE_MASK) + PAGE_OFFSET"

text \<open>The page-table entry that translates \<open>va\<close>, 0 when there is no page table for it.\<close>

definition pte_entry :: "memory \<Rightarrow> u32 \<Rightarrow> u32 \<Rightarrow> u32" where
  "pte_entry m pgd va =
     (if present m pgd (PGD_INDEX va) then load32 m (table m pgd (PGD_INDEX va) + 4 * PTE_INDEX va)
      else 0)"

text \<open>
  The directory, the page tables it refers to and the free frames (seen through the linear
  window) are different pages.
\<close>

definition paging_inv :: "u32 \<Rightarrow> 'a vm_state_scheme \<Rightarrow> bool" where
  "paging_inv pgd s \<longleftrightarrow>
     kpage pgd \<and> distinct (frames s) \<and>
     (\<forall>f \<in> set (frames s). f \<noteq> 0 \<and> kpage (f + PAGE_OFFSET) \<and> f + PAGE_OFFSET \<noteq> pgd) \<and>
     (\<forall>i < 1024. present (mem s) pgd i \<longrightarrow>
        kpage (table (mem s) pgd i) \<and> table (mem s) pgd i \<noteq> pgd \<and>
        table (mem s) pgd i - PAGE_OFFSET \<notin> set (frames s)) \<and>
     (\<forall>i < 1024. \<forall>j < 1024. present (mem s) pgd i \<longrightarrow> present (mem s) pgd j \<longrightarrow>
        table (mem s) pgd i = table (mem s) pgd j \<longrightarrow> i = j)"

lemma table_aligned [simp]: "page_aligned (table m pgd i)"
  unfolding table_def by (rule aligned_add_OFFSET) simp

lemma kpage_aligned [simp, dest]: "kpage a \<Longrightarrow> page_aligned a"
  by (simp add: kpage_def)

lemma get_mapping_entry:
  "get_mapping pgd va True m =
     (if pte_entry m pgd va \<noteq> 0 then (1, Some (pte_entry m pgd va AND PAGE_MASK)) else (0, None))"
  by (simp add: get_mapping_def pte_entry_def present_def table_def Let_def)

lemma pde_store_cell:
  assumes "page_aligned pgd" "page_aligned t" "t \<noteq> pgd" "i < 1024" "j < 1024"
  shows "present (store32 m (t + 4 * j) v) pgd i = present m pgd i"
    and "table (store32 m (t + 4 * j) v) pgd i = table m pgd i"
  using assms by (auto simp: present_def table_def load_cell_store)

text \<open>Writing one cell of the table that translates \<open>va\<close> changes the entry of its page alone.\<close>

lemma pte_entry_store:
  assumes inv: "kpage pgd"
    and tabs: "\<forall>i < 1024. present m pgd i \<longrightarrow> table m pgd i \<noteq> pgd"
    and inj: "\<forall>i < 1024. \<forall>j < 1024. present m pgd i \<longrightarrow> present m pgd j \<longrightarrow>
        table m pgd i = table m pgd j \<longrightarrow> i = j"
    and p: "present m pgd (PGD_INDEX va)"
  shows "pte_entry (store32 m (table m pgd (PGD_INDEX va) + 4 * PTE_INDEX va) e) pgd v =
      (if v AND PAGE_MASK = va AND PAGE_MASK then e else pte_entry m pgd v)"
proof -
  let ?t = "table m pgd (PGD_INDEX va)"
  have t: "?t \<noteq> pgd" using tabs p by simp
  note pde = pde_store_cell [OF kpage_aligned [OF inv] table_aligned t]
  have "table m pgd (PGD_INDEX v) = ?t \<and> PTE_INDEX v = PTE_INDEX va
      \<longleftrightarrow> v AND PAGE_MASK = va AND PAGE_MASK" if "present m pgd (PGD_INDEX v)"
    using that p inj same_page_iff [of v va] by auto
  then have cell: "load32 (store32 m (?t + 4 * PTE_INDEX va) e) (table m pgd (PGD_INDEX v) + 4 * PTE_INDEX v)
      = (if v AND PAGE_MASK = va AND PAGE_MASK then e
         else load32 m (table m pgd (PGD_INDEX v) + 4 * PTE_INDEX v))"
    if "present m pgd (PGD_INDEX v)" using that by (subst load_cell_store) auto
  show ?thesis
  proof (cases "present m pgd (PGD_INDEX v)")
    case True
    then show ?thesis using cell by (simp add: pte_entry_def pde)
  next
    case False
    then have "v AND PAGE_MASK \<noteq> va AND PAGE_MASK" using p same_page_iff [of v va] by metis
    then show ?thesis using False by (simp add: pte_entry_def pde)
  qed
qed

text \<open>Linking in a fresh zeroed page table.\<close>

definition new_table :: "memory \<Rightarrow> u32 \<Rightarrow> u32 \<Rightarrow> u32 \<Rightarrow> memory" where
  "new_table m pgd i f = fill (store32 m (pgd + 4 * i) (f OR 3)) (f + PAGE_OFFSET) 4096 0"

lemma new_table_pde:
  assumes "page_aligned pgd" "page_aligned (f + PAGE_OFFSET)" "f + PAGE_OFFSET \<noteq> pgd"
    "page_aligned f" "i < 1024" "j < 1024"
  shows "load32 (new_table m pgd i f) (pgd + 4 * j) = (if j = i then f OR 3 else load32 m (pgd + 4 * j))"
  using assms by (simp add: new_table_def load_cell_fill load_cell_store)

lemma frame_aligned: "kpage (f + PAGE_OFFSET) \<Longrightarrow> page_aligned f"
proof -
  assume "kpage (f + PAGE_OFFSET)"
  then have a: "page_aligned (f + PAGE_OFFSET)" by simp
  have "page_aligned ((f + PAGE_OFFSET) + 0x40000000)"
    using a by (rule page_aligned_add) simp
  moreover have "f = (f + PAGE_OFFSET) + 0x40000000" by simp
  ultimately show ?thesis by metis
qed

lemma new_table_view:
  assumes inv: "paging_inv pgd s" and f: "frames s = f # fs" and i: "i < 1024"
    and np: "\<not> present (mem s) pgd i"
  defines "m \<equiv> new_table (mem s) pgd i f"
  shows "j < 1024 \<Longrightarrow> present m pgd j \<longleftrightarrow> j = i \<or> present (mem s) pgd j"
    and "j < 1024 \<Longrightarrow> table m pgd j = (if j = i then f + PAGE_OFFSET else table (mem s) pgd j)"
    and "pte_entry m pgd v = pte_entry (mem s) pgd v"
proof -
  have kp: "kpage pgd" "f \<noteq> 0" "kpage (f + PAGE_OFFSET)" "f + PAGE_OFFSET \<noteq> pgd"
    using inv f by (auto simp: paging_inv_def)
  have fa: "page_aligned f" using kp(3) by (rule frame_aligned)
  note pde = new_table_pde [OF kpage_aligned [OF kp(1)] kpage_aligned [OF kp(3)] kp(4) fa i]
  show pr: "present m pgd j \<longleftrightarrow> j = i \<or> present (mem s) pgd j" if "j < 1024" for j
    using pde [OF that] fa kp(2) by (auto simp: present_def m_def)
  show tb: "table m pgd j = (if j = i then f + PAGE_OFFSET else table (mem s) pgd j)" if "j < 1024" for j
    using pde [OF that] fa by (simp add: table_def m_def)
  have other: "table (mem s) pgd j \<noteq> f + PAGE_OFFSET \<and> table (mem s) pgd j \<noteq> pgd"
    if "j < 1024" "present (mem s) pgd j" for j
    using inv that f by (auto simp: paging_inv_def)
  have cell: "load32 m (b + 4 * k) = (if b = f + PAGE_OFFSET then 0 else load32 (mem s) (b + 4 * k))"
    if "page_aligned b" "b \<noteq> pgd" "k < 1024" for b k
    using that kp i by (simp add: m_def new_table_def load_cell_fill load_cell_store)
  show "pte_entry m pgd v = pte_entry (mem s) pgd v"
  proof (cases "PGD_INDEX v = i")
    case True
    then show ?thesis using np kp cell [of "f + PAGE_OFFSET"] tb [OF i] by (simp add: pte_entry_def)
  next
    case False
    then show ?thesis using other cell by (simp add: pte_entry_def pr tb)
  qed
qed

lemma new_table_inv:
  assumes inv: "paging_inv pgd s" and f: "frames s = f # fs" and i: "i < 1024"
    and np: "\<not> present (mem s) pgd i"
    and s': "mem s' = new_table (mem s) pgd i f" "frames s' = fs"
  shows "paging_inv pgd s'"
proof -
  note v = new_table_view(1,2) [OF inv f i np]
  have kp: "kpage pgd" "distinct (f # fs)" "f \<noteq> 0" "kpage (f + PAGE_OFFSET)" "f + PAGE_OFFSET \<noteq> pgd"
    using inv f by (auto simp: paging_inv_def)
  have old: "kpage (table (mem s) pgd j) \<and> table (mem s) pgd j \<noteq> pgd \<and>
       table (mem s) pgd j - PAGE_OFFSET \<notin> set (f # fs)" if "j < 1024" "present (mem s) pgd j" for j
    using inv that f unfolding paging_inv_def by metis
  have ne: "table (mem s) pgd j \<noteq> f + PAGE_OFFSET" if "j < 1024" "present (mem s) pgd j" for j
    using old [OF that] by auto
  have inj: "j = k" if "j < 1024" "k < 1024" "present (mem s) pgd j" "present (mem s) pgd k"
      "table (mem s) pgd j = table (mem s) pgd k" for j k
    using inv that unfolding paging_inv_def by blast
  show ?thesis
    unfolding paging_inv_def s'
  proof (intro conjI ballI allI impI)
    fix g assume "g \<in> set fs"
    then show "g \<noteq> 0" "kpage (g + PAGE_OFFSET)" "g + PAGE_OFFSET \<noteq> pgd"
      using inv f by (auto simp: paging_inv_def)
  next
    fix j assume "j < 1024" "present (new_table (mem s) pgd i f) pgd j"
    then show "kpage (table (new_table (mem s) pgd i f) pgd j)"
      "table (new_table (mem s) pgd i f) pgd j \<noteq> pgd"
      "table (new_table (mem s) pgd i f) pgd j - PAGE_OFFSET \<notin> set fs"
      using v [of j] kp old [of j] by (auto split: if_splits)
  next
    fix j k assume "j < 1024" "k < 1024" "present (new_table (mem s) pgd i f) pgd j"
      "present (new_table (mem s) pgd i f) pgd k"
      "table (new_table (mem s) pgd i f) pgd j = table (new_table (mem s) pgd i f) pgd k"
    then show "j = k"
      using v [of j] v [of k] ne [of j] ne [of k] inj [of j k] by (auto split: if_splits)
  qed (use kp in auto)
qed

lemma store_entry_inv:
  assumes inv: "paging_inv pgd s" and p: "present (mem s) pgd i" and i: "i < 1024" "k < 1024"
    and s': "mem s' = store32 (mem s) (table (mem s) pgd i + 4 * k) e" "frames s' = frames s"
  shows "paging_inv pgd s'"
proof -
  have "kpage pgd" "table (mem s) pgd i \<noteq> pgd" using inv p i by (auto simp: paging_inv_def)
  note pde = pde_store_cell [OF kpage_aligned [OF this(1)] table_aligned this(2)]
  show ?thesis using inv i unfolding paging_inv_def s' by (simp add: pde)
qed


section \<open>The operations on the page tables\<close>

lemma kpage_window:
  assumes "kpage t" "in_range t 4096 x" shows "PAGE_OFFSET \<le> x \<and> x < 0xE0000000"
proof -
  obtain k where k: "k < 4096" "x = t + of_nat k" using in_rangeD [OF assms(2)] by blast
  obtain p where p: "unat t = 4096 * p" using assms(1) by (auto simp: kpage_def elim!: dvdE)
  have b: "3221225472 \<le> unat t" "unat t < 3758096384"
    using assms(1) by (auto simp: kpage_def word_le_nat_alt word_less_nat_alt)
  then have "p < 917504" using p by simp
  then have le: "unat t + k < 3758096384" using p k by simp
  then have "unat x = unat t + k" using k by (simp add: unat_plus_if' unat_of_nat)
  then show ?thesis using b le by (simp add: word_le_nat_alt word_less_nat_alt)
qed

lemma store_cell_heap:
  assumes "kpage t" "i < 1024" "0xE0000000 \<le> x"
  shows "store32 m (t + 4 * i) v x = m x"
proof (rule store32_other)
  show "\<not> in_range (t + 4 * i) 4 x"
    using kpage_window [OF assms(1)] cell_in_page [of t i x] assms by (auto dest: leD)
qed

lemma new_table_heap:
  assumes "kpage pgd" "kpage (f + PAGE_OFFSET)" "i < 1024" "0xE0000000 \<le> x"
  shows "new_table m pgd i f x = m x"
  using assms store_cell_heap kpage_window [OF assms(2), of x]
  by (auto simp: new_table_def fill_def dest: leD)

lemma map_page_present:
  "present (mem s) pgd (PGD_INDEX va) \<Longrightarrow>
     map_page pgd va pa flags s = Inr (s\<lparr>mem := store32 (mem s)
        (table (mem s) pgd (PGD_INDEX va) + 4 * PTE_INDEX va) ((pa AND PAGE_MASK) OR flags)\<rparr>)"
  by (simp add: map_page_def present_def table_def Let_def)

lemma map_page_absent:
  assumes "\<not> present (mem s) pgd (PGD_INDEX va)" and "alloc_page s = Inr (f, s1)"
  shows "map_page pgd va pa flags s =
     Inr (s1\<lparr>mem := store32 (new_table (mem s) pgd (PGD_INDEX va) f)
        (f + PAGE_OFFSET + 4 * PTE_INDEX va) ((pa AND PAGE_MASK) OR flags)\<rparr>)"
proof -
  have "mem s1 = mem s" using assms(2) by (rule alloc_page_Inr)
  then show ?thesis
    using assms by (simp add: map_page_def present_def new_table_def Let_def memset_fill or.assoc)
qed

lemma map_page_Inl:
  "map_page pgd va pa flags s = Inl e \<longleftrightarrow>
     \<not> present (mem s) pgd (PGD_INDEX va) \<and> frames s = [] \<and> e = Panic ''out of memory''"
proof (cases "present (mem s) pgd (PGD_INDEX va)")
  case True
  then show ?thesis by (simp add: map_page_present)
next
  case False
  show ?thesis
  proof (cases "alloc_page s")
    case (Inl e')
    then show ?thesis using False
      by (auto simp: map_page_def present_def Let_def dest: alloc_page_Inl [THEN iffD1])
  next
    case (Inr r)
    obtain f s1 where r: "r = (f, s1)" by fastforce
    with Inr alloc_page_Inr(1) have "frames s \<noteq> []" by fastforce
    then show ?thesis using False Inr r by (simp add: map_page_absent)
  qed
qed

lemma paging_invD:
  assumes "paging_inv pgd s"
  shows "kpage pgd" and "\<forall>i < 1024. present (mem s) pgd i \<longrightarrow> table (mem s) pgd i \<noteq> pgd"
    and "\<forall>i < 1024. \<forall>j < 1024. present (mem s) pgd i \<longrightarrow> present (mem s) pgd j \<longrightarrow>
        table (mem s) pgd i = table (mem s) pgd j \<longrightarrow> i = j"
    and "\<lbrakk>i < 1024; present (mem s) pgd i\<rbrakk> \<Longrightarrow> kpage (table (mem s) pgd i)"
    and "f \<in> set (frames s) \<Longrightarrow> kpage (f + PAGE_OFFSET)"
    and "distinct (frames s)"
  using assms unfolding paging_inv_def by blast+

text \<open>What a successful \<open>map\<close> leaves behind, as one relation between the two states.\<close>

definition mapped_from :: "u32 \<Rightarrow> u32 \<Rightarrow> u32 \<Rightarrow> 'a vm_state_scheme \<Rightarrow> 'a vm_state_scheme \<Rightarrow> bool" where
  "mapped_from pgd va e s s' \<longleftrightarrow>
     paging_inv pgd s' \<and> stack_ok s' \<and>
     (\<forall>v. pte_entry (mem s') pgd v =
        (if v AND PAGE_MASK = va AND PAGE_MASK then e else pte_entry (mem s) pgd v)) \<and>
     (\<forall>x \<ge> 0xE0000000. mem s' x = mem s x)"

lemma map_page_over_table:
  assumes inv: "paging_inv pgd s" and ok: "stack_ok s" and p: "present (mem s) pgd (PGD_INDEX va)"
    and r: "map_page pgd va pa flags s = Inr s'"
  shows "mapped_from pgd va ((pa AND PAGE_MASK) OR flags) s s'" and "frames s' = frames s"
proof -
  let ?e = "(pa AND PAGE_MASK) OR flags"
  have s': "s' = s\<lparr>mem := store32 (mem s) (table (mem s) pgd (PGD_INDEX va) + 4 * PTE_INDEX va) ?e\<rparr>"
    using r p by (simp add: map_page_present)
  show "frames s' = frames s" using s' by simp
  show "mapped_from pgd va ?e s s'"
    unfolding mapped_from_def
    using ok s' store_entry_inv [OF inv p index_lt(2) index_lt(1), of s' va ?e]
      pte_entry_store [OF paging_invD(1,2,3) [OF inv] p, of ?e]
      store_cell_heap [OF paging_invD(4) [OF inv index_lt(2) p] index_lt(1)]
    by simp
qed

text \<open>
  With no table for \<open>va\<close> yet, \<open>map\<close> first reaches a state \<open>t\<close> with a fresh empty table
  linked in, which says the same of every address, and then behaves as over that table.
\<close>

lemma map_page_link:
  assumes inv: "paging_inv pgd s" and ok: "stack_ok s" and np: "\<not> present (mem s) pgd (PGD_INDEX va)"
    and a: "alloc_page s = Inr (f, s1)"
  obtains t where "frames s = f # frames t" and "paging_inv pgd t" and "stack_ok t"
    and "present (mem t) pgd (PGD_INDEX va)" and "\<And>v. pte_entry (mem t) pgd v = pte_entry (mem s) pgd v"
    and "\<And>x. 0xE0000000 \<le> x \<Longrightarrow> mem t x = mem s x"
    and "map_page pgd va pa flags s = map_page pgd va pa flags t"
proof
  let ?i = "PGD_INDEX va" and ?t = "s1\<lparr>mem := new_table (mem s) pgd (PGD_INDEX va) f\<rparr>"
  show fr: "frames s = f # frames ?t" using alloc_page_Inr(1) [OF a] by simp
  show "paging_inv pgd ?t" by (rule new_table_inv [OF inv fr index_lt(2) np]) simp_all
  show "stack_ok ?t" using alloc_page_Inr(2) [OF a ok] by simp
  note view = new_table_view [OF inv fr index_lt(2) np]
  show p: "present (mem ?t) pgd ?i" using view(1) by simp
  show "pte_entry (mem ?t) pgd v = pte_entry (mem s) pgd v" for v using view(3) by simp
  show "mem ?t x = mem s x" if "0xE0000000 \<le> x" for x
    using new_table_heap [OF paging_invD(1) [OF inv] _ index_lt(2) that] paging_invD(5) [OF inv] fr
    by simp
  show "map_page pgd va pa flags s = map_page pgd va pa flags ?t"
    using view(2) [OF index_lt(2)] by (simp add: map_page_absent [OF np a] map_page_present [OF p])
qed

lemma map_page_Inr:
  assumes inv: "paging_inv pgd s" and ok: "stack_ok s"
    and r: "map_page pgd va pa flags s = Inr s'"
  shows "mapped_from pgd va ((pa AND PAGE_MASK) OR flags) s s'"
    and "frames s' = (if present (mem s) pgd (PGD_INDEX va) then frames s else tl (frames s))"
proof -
  let ?e = "(pa AND PAGE_MASK) OR flags"
  have "mapped_from pgd va ?e s s' \<and>
      frames s' = (if present (mem s) pgd (PGD_INDEX va) then frames s else tl (frames s))"
  proof (cases "present (mem s) pgd (PGD_INDEX va)")
    case True
    then show ?thesis using map_page_over_table [OF inv ok True r] by simp
  next
    case False
    then obtain f s1 where a: "alloc_page s = Inr (f, s1)"
      using r by (cases "alloc_page s") (auto simp: map_page_def present_def Let_def)
    obtain t where t: "frames s = f # frames t" "paging_inv pgd t" "stack_ok t"
        "present (mem t) pgd (PGD_INDEX va)" "\<And>v. pte_entry (mem t) pgd v = pte_entry (mem s) pgd v"
        "\<And>x. 0xE0000000 \<le> x \<Longrightarrow> mem t x = mem s x" "map_page pgd va pa flags t = Inr s'"
      using map_page_link [OF inv ok False a] r by metis
    from map_page_over_table [OF t(2,3,4,7)] t False show ?thesis by (simp add: mapped_from_def)
  qed
  then show "mapped_from pgd va ?e s s'"
    "frames s' = (if present (mem s) pgd (PGD_INDEX va) then frames s else tl (frames s))" by simp_all
qed

lemmas map_page_facts = map_page_Inr(1) [unfolded mapped_from_def]

subsection \<open>Taking a page out\<close>

lemma unmap_facts:
  assumes inv: "paging_inv pgd s"
  shows "paging_inv pgd (unmap pgd va s)" and "frames (unmap pgd va s) = frames s"
    and "pte_entry (mem (unmap pgd va s)) pgd v =
        (if v AND PAGE_MASK = va AND PAGE_MASK then 0 else pte_entry (mem s) pgd v)"
    and "0xE0000000 \<le> x \<Longrightarrow> mem (unmap pgd va s) x = mem s x"
proof -
  have u: "unmap pgd va s = (if present (mem s) pgd (PGD_INDEX va)
      then s\<lparr>mem := store32 (mem s) (table (mem s) pgd (PGD_INDEX va) + 4 * PTE_INDEX va) 0\<rparr> else s)"
    by (simp add: unmap_def present_def table_def Let_def)
  show "frames (unmap pgd va s) = frames s" by (simp add: u)
  show "paging_inv pgd (unmap pgd va s)"
  proof (cases "present (mem s) pgd (PGD_INDEX va)")
    case True
    show ?thesis
      by (rule store_entry_inv [OF inv True index_lt(2) index_lt(1), of _ va 0]) (simp_all add: u True)
  qed (simp add: u inv)
  show "pte_entry (mem (unmap pgd va s)) pgd v =
      (if v AND PAGE_MASK = va AND PAGE_MASK then 0 else pte_entry (mem s) pgd v)"
    using pte_entry_store [OF paging_invD(1,2,3) [OF inv], of va 0 v] same_page_iff [of v va]
    by (auto simp: u pte_entry_def)
  show "mem (unmap pgd va s) x = mem s x" if "0xE0000000 \<le> x"
    using that store_cell_heap [OF paging_invD(4) [OF inv index_lt(2)] index_lt(1)] by (simp add: u)
qed

subsection \<open>The page tables as an address map\<close>

text \<open>
  The contract the page tables offer: \<open>entry s va\<close> is the translation of the page of \<open>va\<close>
  (0 for none), \<open>ins\<close> overwrites it for one page and \<open>del\<close> clears it for one page.
\<close>

fun insert_many :: "(u32 \<Rightarrow> u32 \<Rightarrow> u32 \<Rightarrow> 's \<Rightarrow> 's result) \<Rightarrow> (u32 \<times> u32) list \<Rightarrow> u32 \<Rightarrow> 's \<Rightarrow> 's result" where
  "insert_many ins [] flags s = Inr s"
| "insert_many ins ((va, pa) # xs) flags s = bindE (ins va pa flags s) (insert_many ins xs flags)"

locale address_map =
  fixes entry :: "'s \<Rightarrow> u32 \<Rightarrow> u32"
    and ins :: "u32 \<Rightarrow> u32 \<Rightarrow> u32 \<Rightarrow> 's \<Rightarrow> 's result"
    and del :: "u32 \<Rightarrow> 's \<Rightarrow> 's"
    and ok :: "'s \<Rightarrow> bool"
  assumes ins_entry: "ok s \<Longrightarrow> ins va pa flags s = Inr s' \<Longrightarrow>
      entry s' v = (if v AND PAGE_MASK = va AND PAGE_MASK then (pa AND PAGE_MASK) OR flags else entry s v)"
    and ins_ok: "ok s \<Longrightarrow> ins va pa flags s = Inr s' \<Longrightarrow> ok s'"
    and del_entry: "ok s \<Longrightarrow>
      entry (del va s) v = (if v AND PAGE_MASK = va AND PAGE_MASK then 0 else entry s v)"
    and del_ok: "ok s \<Longrightarrow> ok (del va s)"
    and entry_page: "v AND PAGE_MASK = va AND PAGE_MASK \<Longrightarrow> entry s v = entry s va"
begin

lemma insert_many_other:
  "ok s \<Longrightarrow> insert_many ins xs flags s = Inr s' \<Longrightarrow>
     v AND PAGE_MASK \<notin> (\<lambda>x. fst x AND PAGE_MASK) ` set xs \<Longrightarrow> entry s' v = entry s v \<and> ok s'"
proof (induction xs arbitrary: s)
  case (Cons x xs)
  obtain va pa where x: "x = (va, pa)" by fastforce
  then obtain s1 where s1: "ins va pa flags s = Inr s1" "insert_many ins xs flags s1 = Inr s'"
    using Cons.prems(2) by (auto simp: bindE_eq_Inr)
  have "ok s1" using ins_ok Cons.prems(1) s1(1) by blast
  then show ?case
    using Cons.IH [OF _ s1(2)] Cons.prems(1,3) ins_entry [OF _ s1(1), of v] x by simp
qed simp

lemma insert_many_ok: "ok s \<Longrightarrow> insert_many ins xs flags s = Inr s' \<Longrightarrow> ok s'"
proof (induction xs arbitrary: s)
  case (Cons x xs)
  then show ?case by (cases x) (auto simp: bindE_eq_Inr dest: ins_ok)
qed simp

lemma insert_many_entry:
  "ok s \<Longrightarrow> insert_many ins xs flags s = Inr s' \<Longrightarrow>
     distinct (map (\<lambda>x. fst x AND PAGE_MASK) xs) \<Longrightarrow> (va, pa) \<in> set xs \<Longrightarrow>
     entry s' va = (pa AND PAGE_MASK) OR flags"
proof (induction xs arbitrary: s)
  case (Cons x xs)
  obtain va1 pa1 where x: "x = (va1, pa1)" by fastforce
  then obtain s1 where s1: "ins va1 pa1 flags s = Inr s1" "insert_many ins xs flags s1 = Inr s'"
    using Cons.prems(2) by (auto simp: bindE_eq_Inr)
  have ok1: "ok s1" using ins_ok Cons.prems(1) s1(1) by blast
  show ?case
  proof (cases "(va, pa) \<in> set xs")
    case True
    then show ?thesis using Cons.IH [OF ok1 s1(2)] Cons.prems(3) by simp
  next
    case False
    then have "(va, pa) = (va1, pa1)" using Cons.prems(4) x by simp
    moreover have "va1 AND PAGE_MASK \<notin> (\<lambda>x. fst x AND PAGE_MASK) ` set xs"
      using Cons.prems(3) x by simp
    ultimately show ?thesis
      using insert_many_other [OF ok1 s1(2)] ins_entry [OF Cons.prems(1) s1(1), of va1] by simp
  qed
qed simp

lemma del_after_ins:
  "ok s \<Longrightarrow> ins va pa flags s = Inr s' \<Longrightarrow> entry s va = 0 \<Longrightarrow> entry (del va s') v = entry s v"
  using ins_ok ins_entry [of s va pa flags s' v] del_entry [of s' va v] entry_page [of v va s]
  by auto

end

interpretation kernel_map: address_map "\<lambda>s. pte_entry (mem s) pgd" "map_page pgd" "unmap pgd"
    "\<lambda>s :: 'a vm_state_scheme. paging_inv pgd s \<and> stack_ok s" for pgd
proof (unfold_locales, goal_cases)
  case (1 s va pa flags s' v)
  then show ?case using map_page_facts [of pgd s] by blast
next
  case (2 s va pa flags s')
  then show ?case using map_page_facts [of pgd s] by blast
next
  case (3 s va v)
  then show ?case using unmap_facts by blast
next
  case (4 s va)
  then have "pg_top (unmap pgd va s) = pg_top s" by (simp add: unmap_def Let_def)
  with 4 show ?case using unmap_facts by (auto simp: stack_ok_def)
next
  case (5 v va s)
  then show ?case using same_page_iff [of v va] by (simp add: pte_entry_def)
qed

section \<open>The page tables at boot\<close>

subsection \<open>The linear window\<close>

lemma unat_and_3FF: "unat (x AND 0x3FF :: u32) = unat x mod 1024"
proof -
  have "x AND 0x3FF = take_bit 10 x" by (simp add: take_bit_eq_mask mask_eq_exp_minus_1)
  then show ?thesis by (simp add: take_bit_eq_mod unat_mod_distrib)
qed

lemma unat_PTE_INDEX: "unat (PTE_INDEX v) = unat v div 4096 mod 1024"
  by (simp add: PTE_INDEX_def unat_and_3FF drop_bit_eq_div unat_div_distrib)

lemma unat_PGD_INDEX: "unat (PGD_INDEX v) = unat v div 4194304"
proof -
  have "unat v div 4194304 < 1024" using unat_lt32 [of v] by simp
  then show ?thesis
    by (simp add: PGD_INDEX_def unat_and_3FF drop_bit_eq_div unat_div_distrib)
qed

lemma index_offset_neq: "k < 2 ^ 30 \<Longrightarrow> 0 < k \<Longrightarrow> b + 4 * (i + of_nat k) \<noteq> b + 4 * (i :: u32)"
proof
  assume k: "k < 2 ^ 30" "0 < k" and "b + 4 * (i + of_nat k) = b + 4 * i"
  then have "4 * of_nat k = (0 :: u32)" by (simp add: algebra_simps)
  then have "unat (4 * of_nat k :: u32) = 0" by simp
  then show False using k by (simp add: unat_word_ariths unat_of_nat)
qed

lemma word_cell_aligned: "4 dvd unat b \<Longrightarrow> 4 dvd unat (b + 4 * i :: u32)"
proof -
  assume b: "4 dvd unat b"
  have "4 dvd (unat b + 4 * unat i) mod 4294967296" using b by (intro dvd_mod) auto
  then show ?thesis by (simp add: unat_word_ariths mod_simps)
qed

lemma init_pte_loop_other:
  "4 dvd unat b \<Longrightarrow> 4 dvd unat c \<Longrightarrow> (\<And>k. k < n \<Longrightarrow> c \<noteq> b + 4 * (i + of_nat k)) \<Longrightarrow>
     load32 (init_pte_loop b m i n) c = load32 m c"
proof (induction n arbitrary: m i)
  case (Suc n)
  have "c \<noteq> b + 4 * (i + 1 + of_nat k)" if "k < n" for k
    using Suc.prems(3) [of "Suc k"] that by (simp add: algebra_simps)
  moreover have "c \<noteq> b + 4 * i" using Suc.prems(3) [of 0] by simp
  ultimately show ?case
    using Suc by (simp add: load32_store32_aligned word_cell_aligned)
qed simp

lemma init_pte_loop_at:
  "4 dvd unat b \<Longrightarrow> n \<le> 2 ^ 30 \<Longrightarrow> k < n \<Longrightarrow>
     load32 (init_pte_loop b m i n) (b + 4 * (i + of_nat k)) = push_bit 12 (i + of_nat k) OR 3"
proof (induction n arbitrary: m i k)
  case (Suc n)
  show ?case
  proof (cases k)
    case 0
    have ne: "b + 4 * i \<noteq> b + 4 * (i + 1 + of_nat j)" if "j < n" for j
      using index_offset_neq [of "Suc j" b i] that Suc.prems(2) by (simp add: algebra_simps)
    show ?thesis using 0 Suc.prems(1) ne
      by (simp add: init_pte_loop_other word_cell_aligned or.assoc)
  next
    case (Suc j)
    then show ?thesis
      using Suc.IH [of j _ "i + 1"] Suc.prems by (simp add: algebra_simps)
  qed
qed simp

lemma init_pgd_loop_other:
  "4 dvd unat b \<Longrightarrow> 4 dvd unat c \<Longrightarrow> (\<And>k. k < n \<Longrightarrow> c \<noteq> b + 4 * (i + of_nat k)) \<Longrightarrow>
     load32 (init_pgd_loop b t m i j n) c = load32 m c"
proof (induction n arbitrary: m i j)
  case (Suc n)
  have "c \<noteq> b + 4 * (i + 1 + of_nat k)" if "k < n" for k
    using Suc.prems(3) [of "Suc k"] that by (simp add: algebra_simps)
  moreover have "c \<noteq> b + 4 * i" using Suc.prems(3) [of 0] by simp
  ultimately show ?case
    using Suc by (simp add: load32_store32_aligned word_cell_aligned)
qed simp

lemma init_pgd_loop_at:
  "4 dvd unat b \<Longrightarrow> n \<le> 2 ^ 30 \<Longrightarrow> k < n \<Longrightarrow>
     load32 (init_pgd_loop b t m i j n) (b + 4 * (i + of_nat k)) =
       (t + PAGE_SIZE * (j + of_nat k) - PAGE_OFFSET) OR 3"
proof (induction n arbitrary: m i j k)
  case (Suc n)
  show ?case
  proof (cases k)
    case 0
    have ne: "b + 4 * i \<noteq> b + 4 * (i + 1 + of_nat l)" if "l < n" for l
      using index_offset_neq [of "Suc l" b i] that Suc.prems(2) by (simp add: algebra_simps)
    show ?thesis using 0 Suc.prems(1) ne
      by (simp add: init_pgd_loop_other word_cell_aligned or.assoc)
  next
    case (Suc l)
    then show ?thesis
      using Suc.IH [of l _ "i + 1" "j + 1"] Suc.prems by (simp add: algebra_simps)
  qed
qed simp

text \<open>The two arrays are page aligned, \<open>pte_kern\<close> fits below the heap, \<open>pgd_kern\<close> is outside it.\<close>

definition boot_layout :: "u32 \<Rightarrow> u32 \<Rightarrow> bool" where
  "boot_layout pgd pte \<longleftrightarrow> kpage pgd \<and> kpage pte \<and> PAGE_OFFSET < pte \<and> unat pte + 524288 \<le> 3758096384
     \<and> (unat pgd + 4096 \<le> unat pte \<or> unat pte + 524288 \<le> unat pgd)"

lemma pte_array_cell:
  assumes "boot_layout pgd pte" "k < 131072"
  shows "unat (pte + 4 * of_nat k) = unat pte + 4 * k"
proof -
  have "unat (4 * of_nat k :: u32) = 4 * k" using assms(2) by (simp add: unat_word_ariths unat_of_nat)
  then show ?thesis using assms by (simp add: boot_layout_def unat_plus_if')
qed

lemma pgd_not_pte:
  assumes "boot_layout pgd pte" "i < 1024" "k < 131072"
  shows "pgd + 4 * i \<noteq> pte + 4 * of_nat k"
proof -
  have "unat (pgd + 4 * i) = unat pgd + 4 * unat i"
    using assms(1,2) by (simp add: unat_cell boot_layout_def)
  then show ?thesis
    using assms pte_array_cell [OF assms(1,3)] index_lt_nat [OF assms(2)]
    by (auto simp: boot_layout_def word_unat_eq_iff)
qed

lemma init_vmm_pde:
  assumes lay: "boot_layout pgd pte" and i: "i < 1024"
  shows "load32 (mem (init_vmm pgd pte s)) (pgd + 4 * i) =
     (if 768 \<le> i \<and> i < 896 then (pte + PAGE_SIZE * (i - 768) - PAGE_OFFSET) OR 3
      else load32 (mem s) (pgd + 4 * i))"
proof -
  have al: "4 dvd unat pgd" "4 dvd unat pte"
    using lay by (auto simp: boot_layout_def kpage_def intro: dvd_trans [of 4 4096])
  have idx: "PGD_INDEX PAGE_OFFSET = 768" by (simp add: PGD_INDEX_def)
  let ?m = "init_pgd_loop pgd pte (mem s) 768 0 128"
  have "load32 (mem (init_vmm pgd pte s)) (pgd + 4 * i) = load32 ?m (pgd + 4 * i)"
    unfolding init_vmm_def Let_def idx
    using pgd_not_pte [OF lay i] al
    by (simp add: word_cell_aligned init_pte_loop_other flip: of_nat_Suc)
  also have "\<dots> = (if 768 \<le> i \<and> i < 896 then (pte + PAGE_SIZE * (i - 768) - PAGE_OFFSET) OR 3
      else load32 (mem s) (pgd + 4 * i))"
  proof (cases "768 \<le> i \<and> i < 896")
    case True
    then have "768 \<le> unat i" "unat i < 896" by (simp_all add: word_le_nat_alt word_less_nat_alt)
    then have u: "unat (i - 768) < 128" "i = 768 + of_nat (unat (i - 768))"
      by (simp_all add: unat_sub_if' less_diff_conv2)
    then show ?thesis
      using True init_pgd_loop_at [OF al(1), of 128 "unat (i - 768)" pte "mem s" 768 0] by simp
  next
    case False
    have "pgd + 4 * i \<noteq> pgd + 4 * (768 + of_nat k)" if "k < 128" for k
    proof
      assume "pgd + 4 * i = pgd + 4 * (768 + of_nat k)"
      moreover have "unat (768 + of_nat k :: u32) = 768 + k"
        using that by (simp add: unat_word_ariths unat_of_nat)
      moreover from this have "768 + of_nat k < (1024 :: u32)" "768 \<le> (768 + of_nat k :: u32)"
          "768 + of_nat k < (896 :: u32)"
        using that by (simp_all add: word_less_nat_alt word_le_nat_alt)
      ultimately show False
        using cell_inj [of pgd pgd i "768 + of_nat k"] i False lay by (auto simp: boot_layout_def)
    qed
    then have "load32 ?m (pgd + 4 * i) = load32 (mem s) (pgd + 4 * i)"
      using al by (intro init_pgd_loop_other word_cell_aligned)
    then show ?thesis using False by auto
  qed
  finally show ?thesis .
qed


lemma boot_table:
  assumes lay: "boot_layout pgd pte" and q: "unat q < 128"
  shows "unat (pte + PAGE_SIZE * q) = unat pte + 4096 * unat q" and "kpage (pte + PAGE_SIZE * q)"
    and "pte + PAGE_SIZE * q \<noteq> PAGE_OFFSET" and "page_aligned (pte + PAGE_SIZE * q - PAGE_OFFSET)"
proof -
  have b: "3221225472 < unat pte" "unat pte + 524288 \<le> 3758096384" "page_aligned pte"
    using lay by (auto simp: boot_layout_def kpage_def word_le_nat_alt word_less_nat_alt)
  have "unat (PAGE_SIZE * q) = 4096 * unat q" using q by (simp add: unat_word_ariths)
  then show u: "unat (pte + PAGE_SIZE * q) = unat pte + 4096 * unat q"
    using b q by (simp add: unat_plus_if')
  show k: "kpage (pte + PAGE_SIZE * q)"
    using u b q by (simp add: kpage_def word_le_nat_alt word_less_nat_alt)
  show "pte + PAGE_SIZE * q \<noteq> PAGE_OFFSET" using u b by auto
  show "page_aligned (pte + PAGE_SIZE * q - PAGE_OFFSET)"
    using k by (intro frame_aligned) simp
qed

lemma init_vmm_table:
  assumes lay: "boot_layout pgd pte" and i: "768 \<le> i" "i < 896"
  shows "present (mem (init_vmm pgd pte s)) pgd i"
    and "table (mem (init_vmm pgd pte s)) pgd i = pte + PAGE_SIZE * (i - 768)"
proof -
  have u: "unat (i - 768) < 128" using i
    by (simp add: word_le_nat_alt word_less_nat_alt unat_sub_if' less_diff_conv2)
  note bt = boot_table [OF lay u]
  have "i < 1024" using i(2) by (rule less_trans) simp
  note pde = init_vmm_pde [OF lay this, of s]
  have m: "load32 (mem (init_vmm pgd pte s)) (pgd + 4 * i) AND PAGE_MASK = pte + PAGE_SIZE * (i - 768) - PAGE_OFFSET"
    unfolding pde using i aligned_flags [OF bt(4)] by simp
  show "present (mem (init_vmm pgd pte s)) pgd i" unfolding present_def m using bt(3) by simp
  show "table (mem (init_vmm pgd pte s)) pgd i = pte + PAGE_SIZE * (i - 768)"
    unfolding table_def m by simp
qed

lemma init_vmm_entry:
  assumes lay: "boot_layout pgd pte" and v: "PAGE_OFFSET + 0x1000 \<le> v" "v < 0xE0000000"
  shows "pte_entry (mem (init_vmm pgd pte s)) pgd v = ((v - PAGE_OFFSET) AND PAGE_MASK) OR 3"
proof -
  define V where "V = unat v - 3221225472"
  have vb: "3221229568 \<le> unat v" "unat v < 3758096384"
    using v by (simp_all add: word_le_nat_alt word_less_nat_alt)
  then have V: "unat v = V + 3221225472" "4096 \<le> V" "V < 536870912" by (simp_all add: V_def)
  have ui: "unat (PGD_INDEX v) = 768 + V div 4194304" using V(1) by (simp add: unat_PGD_INDEX)
  have i: "768 \<le> PGD_INDEX v" "PGD_INDEX v < 896"
    using ui V(3) by (simp_all add: word_le_nat_alt word_less_nat_alt)
  have uq: "unat (PGD_INDEX v - 768) = V div 4194304"
    using i ui by (simp add: unat_sub_if' word_le_nat_alt)
  have "unat v div 4096 = V div 4096 + 768 * 1024" using V(1) by simp
  then have ur: "unat (PTE_INDEX v) = V div 4096 mod 1024"
    unfolding unat_PTE_INDEX by (simp only: mod_mult_self1)
  define k where "k = V div 4096"
  have k: "1 \<le> k" "k < 131072" using V by (simp_all add: k_def)
  have kq: "k = 1024 * (V div 4194304) + V div 4096 mod 1024"
    unfolding k_def using div_mult2_eq [of V 4096 1024] by simp
  have "PAGE_SIZE * (PGD_INDEX v - 768) + 4 * PTE_INDEX v = (4 * of_nat k :: u32)"
  proof -
    define q r where "q = V div 4194304" and "r = V div 4096 mod 1024"
    have qr: "q < 128" "r < 1024" using V(3) by (auto simp: q_def r_def)
    have "unat (PAGE_SIZE * (PGD_INDEX v - 768)) = 4096 * q"
      unfolding unat_word_ariths uq q_def [symmetric] using qr by simp
    moreover have "unat (4 * PTE_INDEX v) = 4 * r"
      unfolding unat_word_ariths ur r_def [symmetric] using qr by simp
    moreover have "unat (4 * of_nat k :: u32) = 4096 * q + 4 * r"
      using qr kq by (simp add: q_def r_def unat_word_ariths unat_of_nat)
    ultimately show ?thesis using qr by (simp add: word_unat_eq_iff unat_plus_if')
  qed
  then have cell: "pte + PAGE_SIZE * (PGD_INDEX v - 768) + 4 * PTE_INDEX v = pte + 4 * of_nat k"
    by (simp only: add.assoc)
  have al: "4 dvd unat pte" using lay by (auto simp: boot_layout_def kpage_def intro: dvd_trans [of 4 4096])
  have idx: "PGD_INDEX PAGE_OFFSET = 768" by (simp add: PGD_INDEX_def)
  have "1 + of_nat (k - 1) = (of_nat k :: u32)" using k(1) by (simp add: of_nat_diff)
  then have "load32 (mem (init_vmm pgd pte s)) (pte + 4 * of_nat k) = push_bit 12 (of_nat k) OR 3"
    using init_pte_loop_at [OF al, of "128 * 1024 - 1" "k - 1" _ 1] k
    unfolding init_vmm_def Let_def idx by simp
  moreover have "push_bit 12 (of_nat k) = (v - PAGE_OFFSET) AND PAGE_MASK"
  proof -
    have "unat (v - PAGE_OFFSET) = V" using V(1) vb by (simp add: unat_sub_if')
    then show ?thesis
      using k(2) by (simp add: word_unat_eq_iff unat_page_mask push_bit_eq_mult unat_word_ariths
          unat_of_nat k_def)
  qed
  ultimately show ?thesis
    unfolding pte_entry_def init_vmm_table(2) [OF lay i] cell
    using init_vmm_table(1) [OF lay i, of s] by simp
qed


subsection \<open>The state the boot sequence reaches\<close>

lemma frame_disjoint_tables:
  assumes "0x100000 + ksize \<le> f" "f < 0x20000000" "page_aligned f" "unat ksize < 0x1FF00000"
  shows "f \<noteq> 0" and "kpage (f + PAGE_OFFSET)" and "0xC0100000 + ksize \<le> f + PAGE_OFFSET"
proof -
  have uk: "unat (0x100000 + ksize) = 0x100000 + unat ksize"
    using assms(4) by (simp add: unat_plus_if')
  have uf: "1048576 + unat ksize \<le> unat f" "unat f < 536870912"
    using assms(1,2) uk by (simp_all add: word_le_nat_alt word_less_nat_alt)
  then have uo: "unat (f + PAGE_OFFSET) = unat f + 3221225472" by (simp add: unat_plus_if')
  show "f \<noteq> 0" using uf by auto
  have "unat (0xC0100000 + ksize) = 3222274048 + unat ksize"
    using assms(4) by (simp add: unat_plus_if')
  then show "0xC0100000 + ksize \<le> f + PAGE_OFFSET" using uo uf by (simp add: word_le_nat_alt)
  show "kpage (f + PAGE_OFFSET)"
    unfolding kpage_def
    using aligned_add_OFFSET [OF assms(3)] uo uf by (simp add: word_le_nat_alt word_less_nat_alt)
qed

text \<open>
  With both arrays inside the kernel image of \<open>ksize\<close> bytes at \<open>0xC0100000\<close>, a zeroed
  directory, and free frames above the image and below 512 MB, \<open>init_vmm\<close> establishes the
  invariant.
\<close>

lemma init_vmm_inv:
  assumes lay: "boot_layout pgd pte"
    and img: "unat pgd + 4096 \<le> 0xC0100000 + unat ksize" "unat pte + 524288 \<le> 0xC0100000 + unat ksize"
      "unat ksize < 0x1FF00000"
    and zero: "\<forall>i < 1024. load32 (mem s) (pgd + 4 * i) = 0"
    and fr: "distinct (frames s)"
      "\<forall>f \<in> set (frames s). 0x100000 + ksize \<le> f \<and> f < 0x20000000 \<and> page_aligned f"
  shows "paging_inv pgd (init_vmm pgd pte s)"
proof -
  let ?s = "init_vmm pgd pte s"
  have frs: "frames ?s = frames s"
    by (simp add: init_vmm_def Let_def set_cr3_def register_interrupt_handler_def)
  have uk: "unat (0xC0100000 + ksize) = 0xC0100000 + unat ksize"
    using img(3) by (simp add: unat_plus_if')
  have high: "0xC0100000 + unat ksize \<le> unat (f + PAGE_OFFSET)" if "f \<in> set (frames s)" for f
    using that fr(2) frame_disjoint_tables(3) [of ksize f] img(3) uk by (simp add: word_le_nat_alt)
  have pres: "768 \<le> i \<and> i < 896" if "i < 1024" "present (mem ?s) pgd i" for i
    using that init_vmm_pde [OF lay that(1), of s] zero by (auto simp: present_def split: if_splits)
  have small: "unat (i - 768) < 128" if "i < 1024" "present (mem ?s) pgd i" for i
    using pres [OF that] by (simp add: word_le_nat_alt word_less_nat_alt unat_sub_if' less_diff_conv2)
  have tab: "table (mem ?s) pgd i = pte + PAGE_SIZE * (i - 768)" if "i < 1024" "present (mem ?s) pgd i" for i
    using init_vmm_table(2) [OF lay] pres [OF that] by blast
  have low: "unat (table (mem ?s) pgd i) + 4096 \<le> 0xC0100000 + unat ksize"
    if "i < 1024" "present (mem ?s) pgd i" for i
    unfolding tab [OF that] boot_table(1) [OF lay small [OF that]] using small [OF that] img(2) by simp
  show ?thesis
    unfolding paging_inv_def frs
  proof (intro conjI ballI allI impI)
    fix f assume f: "f \<in> set (frames s)"
    then show "f \<noteq> 0" "kpage (f + PAGE_OFFSET)" using frame_disjoint_tables fr(2) img(3) by blast+
    show "f + PAGE_OFFSET \<noteq> pgd" using high [OF f] img(1) by auto
  next
    fix i assume i: "i < 1024" "present (mem ?s) pgd i"
    show "kpage (table (mem ?s) pgd i)" using tab [OF i] boot_table(2) [OF lay small [OF i]] by simp
    show "table (mem ?s) pgd i \<noteq> pgd"
      using tab [OF i] boot_table(1) [OF lay small [OF i]] small [OF i] lay
      by (auto simp: boot_layout_def)
    show "table (mem ?s) pgd i - PAGE_OFFSET \<notin> set (frames s)"
      using low [OF i] high [of "table (mem ?s) pgd i - PAGE_OFFSET"] by auto
  next
    fix i j assume ij: "i < 1024" "present (mem ?s) pgd i" "j < 1024" "present (mem ?s) pgd j"
      "table (mem ?s) pgd i = table (mem ?s) pgd j"
    then have "unat (i - 768) = unat (j - 768)"
      using tab [of i] tab [of j] boot_table(1) [OF lay small [of i]] boot_table(1) [OF lay small [of j]]
      by simp
    then have "i - 768 = j - 768" by (simp add: word_unat_eq_iff)
    then show "i = j" by simp
  qed (use lay fr(1) in \<open>auto simp: boot_layout_def\<close>)
qed

section \<open>What the page tables guarantee\<close>

text \<open>C8: page tables: a successful \<open>map\<close> gives its page its new translation and leaves every other
  page's as it was, whether or not it had to link in a new page table. It fails if and only if a new table
  is needed, because the directory entry of the page is empty, and no frame is free; its page is not
  mapped then.\<close>

theorem map_then_get_mapping:
  assumes "paging_inv pgd s" "stack_ok s"
  shows "if load32 (mem s) (pgd + 4 * PGD_INDEX va) AND PAGE_MASK = 0 \<and> frames s = []
    then map_page pgd va pa flags s = Inl (Panic ''out of memory'') \<and>
      (\<forall>has_pa. get_mapping pgd va has_pa (mem s) = (0, None))
    else \<exists>s'. map_page pgd va pa flags s = Inr s' \<and> paging_inv pgd s' \<and> stack_ok s' \<and>
      (\<forall>v. get_mapping pgd v True (mem s') =
          (if v AND PAGE_MASK = va AND PAGE_MASK
           then if (pa AND PAGE_MASK) OR flags = 0 then (0, None)
                else (1, Some (((pa AND PAGE_MASK) OR flags) AND PAGE_MASK))
           else get_mapping pgd v True (mem s)))"
proof (cases "map_page pgd va pa flags s")
  case (Inl e)
  then have "\<not> present (mem s) pgd (PGD_INDEX va)" "frames s = []" "e = Panic ''out of memory''"
    using map_page_Inl by metis+
  then show ?thesis using Inl by (simp add: get_mapping_def present_def Let_def)
next
  case (Inr s')
  then have n: "\<not> (load32 (mem s) (pgd + 4 * PGD_INDEX va) AND PAGE_MASK = 0 \<and> frames s = [])"
    using map_page_Inl [of pgd va pa flags s] by (auto simp: present_def)
  have "\<And>v. pte_entry (mem s') pgd v = (if v AND PAGE_MASK = va AND PAGE_MASK
      then (pa AND PAGE_MASK) OR flags else pte_entry (mem s) pgd v)"
    using kernel_map.ins_entry [of pgd s] assms Inr by blast
  then show ?thesis using Inr kernel_map.ins_ok [of pgd s] assms unfolding if_not_P [OF n] by (simp add: get_mapping_entry)
qed

text \<open>Mapping a list of different pages and unmapping one again: the pages of the list get the
  translations asked for, in whatever order, and \<open>unmap\<close> takes out its page alone.\<close>

theorem map_region_then_unmap:
  assumes "paging_inv pgd s" "stack_ok s" "insert_many (map_page pgd) xs flags s = Inr s'"
    and "distinct (map (\<lambda>x. fst x AND PAGE_MASK) xs)" "(va, pa) \<in> set xs" "(vb, pb) \<in> set xs" "va \<noteq> vb"
    and "(pa AND PAGE_MASK) OR flags \<noteq> 0"
  shows "get_mapping pgd va True (mem (unmap pgd vb s')) = (1, Some (((pa AND PAGE_MASK) OR flags) AND PAGE_MASK)) \<and>
     get_mapping pgd vb True (mem (unmap pgd vb s')) = (0, None)"
proof -
  have ok: "paging_inv pgd s' \<and> stack_ok s'"
    using kernel_map.insert_many_ok assms(1-3) by blast
  have "va AND PAGE_MASK \<noteq> vb AND PAGE_MASK"
    using assms(4-7) by (metis distinct_map fst_conv inj_onD prod.inject)
  moreover have "pte_entry (mem s') pgd va = (pa AND PAGE_MASK) OR flags"
    using kernel_map.insert_many_entry [OF _ assms(3,4,5)] assms(1,2) by blast
  ultimately show ?thesis
    using kernel_map.del_entry [of pgd s'] ok assms(8) by (simp add: get_mapping_entry)
qed

text \<open>C26: after \<open>init_vmm\<close> every address of the first 512 MB above \<open>PAGE_OFFSET\<close>, the first page
  excepted, is mapped to the physical address \<open>PAGE_OFFSET\<close> below it; its directory entry and its table
  entry both have the flags for present and writable. The directory register holds the directory's
  physical address, and \<open>page_fault\<close> serves vector 14.\<close>

theorem init_vmm_window:
  assumes "boot_layout pgd pte" "PAGE_OFFSET + 0x1000 \<le> v" "v < 0xE0000000"
  shows "let m = mem (init_vmm pgd pte s) in
     get_mapping pgd v True m = (1, Some ((v - PAGE_OFFSET) AND PAGE_MASK)) \<and>
     load32 m (pgd + 4 * PGD_INDEX v) AND 3 = PAGE_PRESENT OR PAGE_WRITE \<and>
     load32 m ((load32 m (pgd + 4 * PGD_INDEX v) AND PAGE_MASK) + PAGE_OFFSET + 4 * PTE_INDEX v) =
       ((v - PAGE_OFFSET) AND PAGE_MASK) OR PAGE_PRESENT OR PAGE_WRITE \<and>
     cr3 (init_vmm pgd pte s) = pgd - PAGE_OFFSET \<and> handlers (init_vmm pgd pte s) 14 = Some Page_fault"
proof -
  define m where "m = mem (init_vmm pgd pte s)"
  have nz: "x OR 3 \<noteq> 0" for x :: u32
  proof
    assume "x OR 3 = 0"
    then have "even (x OR 3)" by simp
    then have "even (3 :: u32)" by (simp only: even_or_iff)
    then show False by simp
  qed
  have e: "pte_entry m pgd v = ((v - PAGE_OFFSET) AND PAGE_MASK) OR 3" unfolding m_def by (rule init_vmm_entry [OF assms(1-3)])
  then have g: "get_mapping pgd v True m = (1, Some ((v - PAGE_OFFSET) AND PAGE_MASK))"
    using nz by (simp add: get_mapping_entry)
  have "present m pgd (PGD_INDEX v)" using e nz [of "(v - PAGE_OFFSET) AND PAGE_MASK"] by (auto simp: pte_entry_def split: if_splits)
  then have t: "load32 m ((load32 m (pgd + 4 * PGD_INDEX v) AND PAGE_MASK) + PAGE_OFFSET + 4 * PTE_INDEX v) =
      ((v - PAGE_OFFSET) AND PAGE_MASK) OR 3"
    using e by (simp add: pte_entry_def table_def)
  have "unat (PGD_INDEX v) = unat v div 4194304" by (rule unat_PGD_INDEX)
  moreover have "3221225472 \<le> unat v" "unat v < 3758096384" using assms(2,3) by (simp_all add: word_le_nat_alt word_less_nat_alt)
  ultimately have i: "768 \<le> PGD_INDEX v" "PGD_INDEX v < 896" by (simp_all add: word_le_nat_alt word_less_nat_alt)
  have "(y OR 3) AND 3 = (3 :: u32)" for y by (rule bit_word_eqI) (auto simp: bit_simps)
  then have "load32 m (pgd + 4 * PGD_INDEX v) AND 3 = 3"
    using init_vmm_pde [OF assms(1) index_lt(2), of s v] i by (simp add: m_def)
  moreover have "cr3 (init_vmm pgd pte s) = pgd - PAGE_OFFSET" "handlers (init_vmm pgd pte s) 14 = Some Page_fault"
    by (simp_all add: init_vmm_def Let_def set_cr3_def register_interrupt_handler_def)
  ultimately show ?thesis using g t by (simp add: m_def [symmetric] Let_def or.assoc)
qed

lemma three_frames_paging: "paging_inv 0xC0100000 three_frames"
proof -
  have "load32 (mem three_frames) a = 0" for a by (simp add: load32_def three_frames_def)
  then show ?thesis
    by (simp add: paging_inv_def three_frames_ok kpage_def present_def not_less [symmetric])
qed

theorem map_then_get_mapping_witness:
  "\<exists>s'. map_page 0xC0100000 0xE0000000 0x300000 3 three_frames = Inr s' \<and>
     get_mapping 0xC0100000 0xE0000ABC True (mem s') = (1, Some 0x300000)"
  using map_then_get_mapping [OF three_frames_paging three_frames_ok(1), of "0xE0000000" "0x300000" 3]
    three_frames_ok(2) by fastforce

lemma map_two_pages:
  "\<exists>s'. insert_many (map_page 0xC0100000) [(0xE0000000, 0x300000), (0xE0001000, 0x301000)] 3 three_frames = Inr s'"
proof -
  obtain s1 where s1: "map_page 0xC0100000 0xE0000000 0x300000 3 three_frames = Inr s1"
    using map_page_Inl [of "0xC0100000" "0xE0000000" "0x300000" 3 three_frames] three_frames_ok(2)
    by (cases "map_page 0xC0100000 0xE0000000 0x300000 3 three_frames") auto
  have "frames s1 \<noteq> []"
    using map_page_Inr(2) [OF three_frames_paging three_frames_ok(1) s1] three_frames_ok(2) by simp
  then obtain s2 where "map_page 0xC0100000 0xE0001000 0x301000 3 s1 = Inr s2"
    using map_page_Inl [of "0xC0100000" "0xE0001000" "0x301000" 3 s1]
    by (cases "map_page 0xC0100000 0xE0001000 0x301000 3 s1") auto
  with s1 show ?thesis by simp
qed

theorem map_region_then_unmap_witness:
  "\<exists>s' :: vm_state. get_mapping 0xC0100000 0xE0000000 True (mem (unmap 0xC0100000 0xE0001000 s')) = (1, Some 0x300000)"
proof -
  obtain s' where "insert_many (map_page 0xC0100000) [(0xE0000000, 0x300000), (0xE0001000, 0x301000)] 3 three_frames = Inr s'"
    using map_two_pages by blast
  from map_region_then_unmap [OF three_frames_paging three_frames_ok(1) this,
      where va = "0xE0000000" and pa = "0x300000" and vb = "0xE0001000" and pb = "0x301000"]
  show ?thesis by auto
qed

theorem init_vmm_window_witness:
  "get_mapping 0xC0110000 0xC0345678 True (mem (init_vmm 0xC0110000 0xC0120000 three_frames)) = (1, Some 0x345000)"
  using init_vmm_window [of "0xC0110000" "0xC0120000" "0xC0345678" three_frames]
  by (simp add: boot_layout_def kpage_def Let_def)

end
