(* ===== verification/Heap.thy ===== *)
theory Heap
  imports Paging
begin

text \<open>
  The kernel heap of \<open>src/memlib.c\<close>: a doubly linked list of blocks, each with the 12-byte
  header \<open>header_t\<close> in front, grown page by page from \<open>V_MM_START\<close>. Headers live in
  memory (\<open>prev\<close> at 0, \<open>next\<close> at 4, and at 8 one word with \<open>used\<close> in bit 0 and \<open>length\<close>
  in bits 1 to 31); the globals are \<open>first\<close> and \<open>mm_top\<close>.
\<close>

section \<open>Headers\<close>

abbreviation (input) V_MM_START :: u32 where "V_MM_START \<equiv> 0xE0000000"

record heap_state = vm_state +
  first :: u32
  mm_top :: u32

definition h_prev :: "memory \<Rightarrow> u32 \<Rightarrow> u32" where "h_prev m n = load32 m n"
definition h_next :: "memory \<Rightarrow> u32 \<Rightarrow> u32" where "h_next m n = load32 m (n + 4)"
definition h_used :: "memory \<Rightarrow> u32 \<Rightarrow> u32" where "h_used m n = load32 m (n + 8) AND 1"
definition h_length :: "memory \<Rightarrow> u32 \<Rightarrow> u32" where "h_length m n = drop_bit 1 (load32 m (n + 8))"

definition set_prev :: "u32 \<Rightarrow> u32 \<Rightarrow> memory \<Rightarrow> memory" where
  "set_prev n v m = store32 m n v"

definition set_next :: "u32 \<Rightarrow> u32 \<Rightarrow> memory \<Rightarrow> memory" where
  "set_next n v m = store32 m (n + 4) v"

text \<open>Storing into the bit-fields \<open>used : 1\<close> and \<open>length : 31\<close> of the word \<open>w\<close>.\<close>

definition put_used :: "u32 \<Rightarrow> u32 \<Rightarrow> u32" where
  "put_used w v = (w AND NOT 1) OR (v AND 1)"

definition put_length :: "u32 \<Rightarrow> u32 \<Rightarrow> u32" where
  "put_length w v = (w AND 1) OR push_bit 1 v"

definition set_used :: "u32 \<Rightarrow> u32 \<Rightarrow> memory \<Rightarrow> memory" where
  "set_used n v m = store32 m (n + 8) (put_used (load32 m (n + 8)) v)"

definition set_length :: "u32 \<Rightarrow> u32 \<Rightarrow> memory \<Rightarrow> memory" where
  "set_length n v m = store32 m (n + 8) (put_length (load32 m (n + 8)) v)"

section \<open>Allocation\<close>

text \<open>
  The search loop: \<open>Inl node\<close> is the block it stops at, \<open>Inr prev\<close> the last block when the
  list ends, \<open>None\<close> a list that never ends.
\<close>

partial_function (option) kmalloc_find ::
    "memory \<Rightarrow> u32 \<Rightarrow> u32 \<Rightarrow> u32 \<Rightarrow> (u32 + u32) option" where
  "kmalloc_find m sz node prev =
     (if node \<noteq> 0
      then if h_used m node = 0 \<and> h_length m node \<ge> sz then Some (Inl node)
           else kmalloc_find m sz (h_next m node) node
      else Some (Inr prev))"

definition kmalloc_take :: "u32 \<Rightarrow> u32 \<Rightarrow> memory \<Rightarrow> memory" where
  "kmalloc_take sz node m =
     (let m = (if h_length m node > 12 + sz
          then let new_node = node + h_length m node;
                   m = set_prev new_node node m;
                   m = set_next new_node (h_next m node) m;
                   m = set_used new_node 0 m;
                   m = set_length new_node (h_length m node - sz) m;
                   m = set_next node new_node m
               in set_length node sz m
          else m)
      in set_used node 1 m)"

lemma map_page_pg_top:
  "map_page pgd va pa flags s = Inr s' \<Longrightarrow> unat (pg_top s') \<le> unat (pg_top s)"
proof -
  assume r: "map_page pgd va pa flags s = Inr s'"
  have "unat (pg_top t) \<le> unat (pg_top s)" if "alloc_page s = Inr (f, t)" for f t
    using alloc_page_Inr(1) [OF that] length_frames [of s] length_frames [of t] by simp
  with r show ?thesis
    by (auto simp: map_page_def Let_def bindE_eq_Inr split: if_splits)
qed

text \<open>
  The loop that maps fresh pages up to \<open>maddr + size\<close>. It stops because every round takes a
  frame from the stack.
\<close>

function kmalloc_grow ::
    "u32 \<Rightarrow> u32 \<Rightarrow> 'a heap_state_scheme \<Rightarrow> 'a heap_state_scheme result" where
  "kmalloc_grow pgd_kern lim s =
     (if mm_top s < lim
      then bindE (alloc_page s) (\<lambda>(page, s).
             bindE (map_page pgd_kern (mm_top s) page (PAGE_PRESENT OR PAGE_WRITE) s) (\<lambda>s.
               kmalloc_grow pgd_kern lim (s\<lparr>mm_top := mm_top s + PAGE_SIZE\<rparr>)))
      else Inr s)"
  by pat_completeness auto
termination
proof (relation "measure (\<lambda>(p, l, s). unat (pg_top s))", goal_cases)
  case (2 pgd lim s x page s1 s2)
  then have "unat (pg_top s2) \<le> unat (pg_top s1)" using map_page_pg_top by blast
  moreover have "unat (pg_top s1) < unat (pg_top s)"
    using alloc_page_Inr(1) [of s page s1] 2 length_frames [of s] length_frames [of s1] by simp
  ultimately show ?case by simp
qed simp

declare kmalloc_grow.simps [simp del]

definition kmalloc_extend ::
    "u32 \<Rightarrow> u32 \<Rightarrow> u32 \<Rightarrow> 'a heap_state_scheme \<Rightarrow> (u32 \<times> 'a heap_state_scheme) result" where
  "kmalloc_extend pgd_kern sz prev s =
     (let maddr = (if prev \<noteq> 0 then prev + h_length (mem s) prev else V_MM_START);
          s = (if prev \<noteq> 0 then s else s\<lparr>first := maddr\<rparr>)
      in bindE (kmalloc_grow pgd_kern (maddr + sz) s) (\<lambda>s.
           let m = set_prev maddr prev (mem s);
               m = set_next maddr 0 m;
               m = set_used maddr 1 m;
               m = set_length maddr sz m;
               m = (if prev \<noteq> 0 then set_next prev maddr m else m)
           in Inr (maddr + 12, s\<lparr>mem := m\<rparr>)))"

definition kmalloc ::
    "u32 \<Rightarrow> u32 \<Rightarrow> 'a heap_state_scheme \<Rightarrow> (u32 \<times> 'a heap_state_scheme) result" where
  "kmalloc pgd_kern sz s =
     (let sz = sz + 12
      in case kmalloc_find (mem s) sz (first s) 0 of
           None \<Rightarrow> Inl Hang
         | Some (Inl node) \<Rightarrow> Inr (node + 12, s\<lparr>mem := kmalloc_take sz node (mem s)\<rparr>)
         | Some (Inr prev) \<Rightarrow> kmalloc_extend pgd_kern sz prev s)"

section \<open>Release\<close>

text \<open>
  \<open>_free_memory\<close>: \<open>page\<close> is a local without initialiser, so its first value is whatever the
  stack held (\<open>page\<close> of the first call); \<open>get_mapping\<close> assigns it only when it returns 1. The
  loop stops because every round pushes a frame, and a full frame stack panics.
\<close>

function free_memory_loop ::
    "u32 \<Rightarrow> u32 \<Rightarrow> u32 \<Rightarrow> 'a heap_state_scheme \<Rightarrow> 'a heap_state_scheme result" where
  "free_memory_loop pgd_kern node page s =
     (if mm_top s - PAGE_SIZE \<ge> node
      then let page = (case snd (get_mapping pgd_kern (mm_top s) True (mem s)) of
                         None \<Rightarrow> page | Some p \<Rightarrow> p);
               s = unmap pgd_kern (mm_top s) s
           in bindE (free_page page s) (\<lambda>s.
                free_memory_loop pgd_kern node page (s\<lparr>mm_top := mm_top s - PAGE_SIZE\<rparr>))
      else Inr s)"
  by pat_completeness auto
termination
proof (relation "measure (\<lambda>(p, n, g, s). unat (PAGE_MAX_SIZE - pg_top s))", goal_cases)
  case (2 pgd node page s page1 s1 s2)
  have "pg_top s1 = pg_top s" using 2(3) by (simp add: unmap_def Let_def)
  moreover have "pg_top s1 \<noteq> PAGE_MAX_SIZE" "pg_top s2 = pg_top s1 + 1"
    using 2(4) by (auto simp: free_page_def split: if_splits)
  moreover define d where "d = PAGE_MAX_SIZE - pg_top s"
  ultimately have d: "PAGE_MAX_SIZE - pg_top s2 = d - 1" "d \<noteq> 0" by simp_all
  then have "unat (d - 1) < unat d" using unat_minus_one [of d] by (simp add: unat_gt_0)
  then have "unat (PAGE_MAX_SIZE - pg_top s2) < unat (PAGE_MAX_SIZE - pg_top s)"
    using d(1) d_def by metis
  then show ?case by simp
qed simp

declare free_memory_loop.simps [simp del]

definition free_memory ::
    "u32 \<Rightarrow> u32 \<Rightarrow> u32 \<Rightarrow> 'a heap_state_scheme \<Rightarrow> 'a heap_state_scheme result" where
  "free_memory pgd_kern page0 node s =
     (let s = (if h_prev (mem s) node = 0 then s\<lparr>first := 0\<rparr>
               else s\<lparr>mem := set_next (h_prev (mem s) node) 0 (mem s)\<rparr>)
      in free_memory_loop pgd_kern node page0 s)"

text \<open>The two merges of \<open>kfree\<close>, as written.\<close>

definition merge_next :: "u32 \<Rightarrow> memory \<Rightarrow> memory" where
  "merge_next node m =
     (if h_next m node \<noteq> 0 \<and> h_used m (h_next m node) = 0
      then let m = set_length node (h_length m node + h_length m (h_next m node)) m;
               m = (if h_next m (h_next m node) \<noteq> 0
                    then set_prev (h_next m (h_next m node)) node m else m)
           in set_next node (h_next m (h_next m node)) m
      else m)"

definition merge_prev :: "u32 \<Rightarrow> memory \<Rightarrow> memory \<times> u32" where
  "merge_prev node m =
     (if h_prev m node \<noteq> 0 \<and> h_used m (h_prev m node) = 0
      then let m = set_length (h_prev m node) (h_length m node + h_length m (h_prev m node)) m;
               m = (if h_prev m (h_prev m node) \<noteq> 0
                    then set_next (h_prev m (h_prev m node)) (h_prev m node) m else m)
           in (m, h_prev m node)
      else (m, node))"

definition kfree_node ::
    "u32 \<Rightarrow> u32 \<Rightarrow> u32 \<Rightarrow> 'a heap_state_scheme \<Rightarrow> 'a heap_state_scheme result" where
  "kfree_node pgd_kern page0 node s =
     (let m = set_used node 0 (mem s);
          m = merge_next node m;
          (m, node) = merge_prev node m;
          s = s\<lparr>mem := m\<rparr>
      in if h_next m node = 0 then free_memory pgd_kern page0 node s else Inr s)"

text \<open>
  \<open>kfree\<close>: in \<open>(header_t* )(uint32_t)obj - sizeof(header_t)\<close> the subtraction is on a
  \<open>header_t *\<close>, so it goes back \<open>sizeof(header_t)\<close> headers, 12 * 12 bytes.
\<close>

definition kfree ::
    "u32 \<Rightarrow> u32 \<Rightarrow> u32 \<Rightarrow> 'a heap_state_scheme \<Rightarrow> 'a heap_state_scheme result" where
  "kfree pgd_kern page0 obj s = kfree_node pgd_kern page0 (obj - 12 * 12) s"

section \<open>Reading headers back\<close>

text \<open>Two headers that do not overlap.\<close>

definition apart :: "u32 \<Rightarrow> u32 \<Rightarrow> bool" where
  "apart a b \<longleftrightarrow> unat a + 12 \<le> 2 ^ 32 \<and> unat b + 12 \<le> 2 ^ 32 \<and>
     (unat a + 12 \<le> unat b \<or> unat b + 12 \<le> unat a)"

lemma apart_commute: "apart a b \<longleftrightarrow> apart b a"
  by (auto simp: apart_def)

lemma apart_sep:
  assumes "apart a b" "unat x \<le> 8" "unat y \<le> 8"
  shows "sep (a + x) 4 (b + y) 4"
proof -
  have "unat (a + x) = unat a + unat x" "unat (b + y) = unat b + unat y"
    using assms by (auto simp: apart_def unat_plus_if')
  then show ?thesis
    using assms by (auto simp: apart_def intro: sep_natI sep_natI')
qed

lemma apart_cells:
  assumes "apart a b"
  shows "load32 (store32 m a v) b = load32 m b"
    "load32 (store32 m a v) (b + 4) = load32 m (b + 4)" "load32 (store32 m a v) (b + 8) = load32 m (b + 8)"
    "load32 (store32 m (a + 4) v) b = load32 m b" "load32 (store32 m (a + 4) v) (b + 4) = load32 m (b + 4)"
    "load32 (store32 m (a + 4) v) (b + 8) = load32 m (b + 8)" "load32 (store32 m (a + 8) v) b = load32 m b"
    "load32 (store32 m (a + 8) v) (b + 4) = load32 m (b + 4)" "load32 (store32 m (a + 8) v) (b + 8) = load32 m (b + 8)"
  using apart_sep [OF assms, of 0 0] apart_sep [OF assms, of 0 4] apart_sep [OF assms, of 0 8]
    apart_sep [OF assms, of 4 0] apart_sep [OF assms, of 4 4] apart_sep [OF assms, of 4 8]
    apart_sep [OF assms, of 8 0] apart_sep [OF assms, of 8 4] apart_sep [OF assms, of 8 8]
  by (simp_all add: load32_store32_sep)

lemma field_words [simp]:
  "put_used w v AND 1 = v AND 1" "drop_bit 1 (put_used w v) = drop_bit 1 w"
  "put_length w v AND 1 = w AND 1"
proof -
  show "put_used w v AND 1 = v AND 1"
    by (rule bit_word_eqI) (auto simp: put_used_def bit_and_iff bit_or_iff bit_not_iff bit_1_iff)
  show "drop_bit 1 (put_used w v) = drop_bit 1 w"
    by (rule bit_word_eqI) (simp add: put_used_def bit_drop_bit_eq bit_and_iff bit_or_iff
        bit_not_iff bit_1_iff del: drop_bit_or, auto dest: bit_imp_le_length)
  show "put_length w v AND 1 = w AND 1"
    by (rule bit_word_eqI)
      (simp only: put_length_def bit_and_iff bit_or_iff bit_push_bit_iff bit_1_iff, auto)
qed

lemma length_word:
  assumes "v < 2 ^ 31" shows "drop_bit 1 (put_length w v) = v"
proof -
  have v: "v = take_bit 31 v" using assms by (metis less_mask_eq take_bit_eq_mask)
  have "drop_bit 1 (put_length w v) = take_bit 31 v"
    by (rule bit_word_eqI)
      (simp only: put_length_def bit_drop_bit_eq bit_and_iff bit_or_iff bit_push_bit_iff bit_1_iff
         bit_take_bit_iff comp_apply, auto)
  with v show ?thesis by simp
qed

lemmas length_words [simp] = field_words(2) [unfolded One_nat_def] length_word [unfolded One_nat_def]

lemmas header_defs = h_prev_def h_next_def h_used_def h_length_def
  set_prev_def set_next_def set_used_def set_length_def

text \<open>Fields of the header just written, and of any header apart from it.\<close>

lemma header_same [simp]:
  "h_prev (set_prev n v m) n = v" "h_next (set_prev n v m) n = h_next m n"
  "h_used (set_prev n v m) n = h_used m n" "h_length (set_prev n v m) n = h_length m n"
  "h_prev (set_next n v m) n = h_prev m n" "h_next (set_next n v m) n = v"
  "h_used (set_next n v m) n = h_used m n" "h_length (set_next n v m) n = h_length m n"
  "h_prev (set_used n v m) n = h_prev m n" "h_next (set_used n v m) n = h_next m n"
  "h_used (set_used n v m) n = v AND 1" "h_length (set_used n v m) n = h_length m n"
  "h_prev (set_length n v m) n = h_prev m n" "h_next (set_length n v m) n = h_next m n"
  "h_used (set_length n v m) n = h_used m n"
  "v < 2 ^ 31 \<Longrightarrow> h_length (set_length n v m) n = v"
  by (simp_all add: header_defs load32_store32_sep)

lemma header_other [simp]:
  assumes "apart n k"
  shows "h_prev (set_prev n v m) k = h_prev m k" "h_next (set_prev n v m) k = h_next m k"
    "h_used (set_prev n v m) k = h_used m k" "h_length (set_prev n v m) k = h_length m k"
    "h_prev (set_next n v m) k = h_prev m k" "h_next (set_next n v m) k = h_next m k"
    "h_used (set_next n v m) k = h_used m k" "h_length (set_next n v m) k = h_length m k"
    "h_prev (set_used n v m) k = h_prev m k" "h_next (set_used n v m) k = h_next m k"
    "h_used (set_used n v m) k = h_used m k" "h_length (set_used n v m) k = h_length m k"
    "h_prev (set_length n v m) k = h_prev m k" "h_next (set_length n v m) k = h_next m k"
    "h_used (set_length n v m) k = h_used m k" "h_length (set_length n v m) k = h_length m k"
  by (simp_all add: header_defs apart_cells [OF assms])

lemma cell_in_header:
  assumes "in_range (n + x) 4 b" "unat x \<le> 8" shows "in_range n 12 b"
proof -
  obtain k where k: "k < 4" "b = (n + x) + of_nat k" using in_rangeD [OF assms(1)] by blast
  have "b = n + of_nat (unat x + k)" using k(2) by simp
  moreover have "unat x + k < 12" using k(1) assms(2) by simp
  ultimately show ?thesis using in_range_offset [of "unat x + k" 12 n] by simp
qed

lemma header_bytes [simp]:
  assumes "\<not> in_range n 12 b"
  shows "set_prev n v m b = m b" "set_next n v m b = m b" "set_used n v m b = m b"
    "set_length n v m b = m b"
proof -
  have "store32 m (n + x) v b = m b" if "unat x \<le> 8" for x v
    by (rule store32_other) (use assms that cell_in_header in blast)
  from this [of 0] this [of 4] this [of 8]
  show "set_prev n v m b = m b" "set_next n v m b = m b" "set_used n v m b = m b"
    "set_length n v m b = m b" by (simp_all add: header_defs)
qed

text \<open>Headers read the same from memories that agree on their twelve bytes.\<close>

lemma header_cong:
  assumes "\<And>x. in_range n 12 x \<Longrightarrow> m' x = m x"
  shows "h_prev m' n = h_prev m n" "h_next m' n = h_next m n" "h_used m' n = h_used m n"
    "h_length m' n = h_length m n"
proof -
  have "load32 m' (n + x) = load32 m (n + x)" if "unat x \<le> 8" for x
    by (rule load32_cong) (use assms cell_in_header that in blast)
  from this [of 0] this [of 4] this [of 8]
  show "h_prev m' n = h_prev m n" "h_next m' n = h_next m n" "h_used m' n = h_used m n"
    "h_length m' n = h_length m n" by (simp_all add: header_defs)
qed

section \<open>The block list\<close>

datatype block = Block (addr: u32) (used: bool) (len: nat)

text \<open>
  \<open>seg m p n bs p' n'\<close>: walking \<open>next\<close> from \<open>n\<close>, reached from \<open>p\<close>, goes through the blocks
  \<open>bs\<close>, whose headers say so, and arrives at \<open>n'\<close> from \<open>p'\<close>.
\<close>

primrec seg :: "memory \<Rightarrow> u32 \<Rightarrow> u32 \<Rightarrow> block list \<Rightarrow> u32 \<Rightarrow> u32 \<Rightarrow> bool" where
  "seg m p n [] p' n' \<longleftrightarrow> p = p' \<and> n = n'"
| "seg m p n (b # bs) p' n' \<longleftrightarrow> n = addr b \<and> h_prev m n = p \<and>
     h_used m n = (if used b then 1 else 0) \<and> unat (h_length m n) = len b \<and>
     seg m n (h_next m n) bs p' n'"

text \<open>The blocks lie one behind the other from \<open>p\<close> to \<open>e\<close>, each at least a header long.\<close>

primrec contig :: "nat \<Rightarrow> block list \<Rightarrow> nat \<Rightarrow> bool" where
  "contig p [] e \<longleftrightarrow> p = e"
| "contig p (b # bs) e \<longleftrightarrow> unat (addr b) = p \<and> 12 \<le> len b \<and> contig (p + len b) bs e"

definition heap_end :: "block list \<Rightarrow> nat" where
  "heap_end bs = unat V_MM_START + sum_list (map len bs)"

lemma seg_append:
  "seg m p n (xs @ ys) p' n' \<longleftrightarrow> (\<exists>q k. seg m p n xs q k \<and> seg m q k ys p' n')"
  by (induction xs arbitrary: p n) auto

lemma contig_append:
  "contig p (xs @ ys) e \<longleftrightarrow> (\<exists>q. contig p xs q \<and> contig q ys e)"
  by (induction xs arbitrary: p) auto

lemma contig_end: "contig p bs e \<Longrightarrow> e = p + sum_list (map len bs)"
proof (induction bs arbitrary: p)
  case (Cons b bs)
  then have "e = p + len b + sum_list (map len bs)" by simp
  then show ?case by simp
qed simp

lemma contig_bounds:
  "contig p bs e \<Longrightarrow> b \<in> set bs \<Longrightarrow> p \<le> unat (addr b) \<and> unat (addr b) + len b \<le> e \<and> 12 \<le> len b"
proof (induction bs arbitrary: p)
  case (Cons a bs)
  have "p + len a \<le> e" using contig_end [of "p + len a" bs e] Cons.prems(1) by simp
  then show ?case using Cons by fastforce
qed simp

lemma contig_le: "contig p bs e \<Longrightarrow> p \<le> e"
  using contig_end by fastforce

lemma seg_cong:
  "(\<And>b x. b \<in> set bs \<Longrightarrow> in_range (addr b) 12 x \<Longrightarrow> m' x = m x) \<Longrightarrow>
     seg m' p n bs p' n' \<longleftrightarrow> seg m p n bs p' n'"
proof (induction bs arbitrary: p n)
  case (Cons b bs)
  have h: "h_prev m' (addr b) = h_prev m (addr b)" "h_next m' (addr b) = h_next m (addr b)"
    "h_used m' (addr b) = h_used m (addr b)" "h_length m' (addr b) = h_length m (addr b)"
    using Cons.prems [of b] by (auto intro!: header_cong)
  have "seg m' (addr b) k bs p' n' \<longleftrightarrow> seg m (addr b) k bs p' n'" for k
  proof (rule Cons.IH)
    fix c x assume "c \<in> set bs" "in_range (addr c) 12 x"
    then show "m' x = m x" using Cons.prems [of c x] by simp
  qed
  then show ?case using h by (cases "n = addr b") simp_all
qed simp

lemma seg_last:
  "seg m p n bs p' n' \<Longrightarrow> p' = (if bs = [] then p else addr (last bs))"
  by (induction bs arbitrary: p n) auto


section \<open>Searching the list\<close>

definition fits :: "u32 \<Rightarrow> block \<Rightarrow> bool" where
  "fits n b \<longleftrightarrow> \<not> used b \<and> unat n \<le> len b"

lemma kmalloc_find_skip:
  "seg m p n bs p' n' \<Longrightarrow> (\<And>b. b \<in> set bs \<Longrightarrow> addr b \<noteq> 0 \<and> \<not> fits sz b) \<Longrightarrow>
     kmalloc_find m sz n p = kmalloc_find m sz n' p'"
proof (induction bs arbitrary: p n)
  case (Cons b bs)
  have b: "addr b \<noteq> 0" "\<not> fits sz b" using Cons.prems(2) [of b] by auto
  then have "\<not> (h_used m n = 0 \<and> sz \<le> h_length m n)"
    using Cons.prems(1) by (auto simp: fits_def word_le_nat_alt)
  then have "kmalloc_find m sz n p = kmalloc_find m sz (h_next m n) n"
    using Cons.prems(1) b by (subst kmalloc_find.simps) auto
  also have "\<dots> = kmalloc_find m sz n' p'"
    using Cons.prems by (intro Cons.IH) auto
  finally show ?case .
qed simp

lemma kmalloc_find_end:
  assumes "seg m p n bs p' 0" "\<And>b. b \<in> set bs \<Longrightarrow> addr b \<noteq> 0 \<and> \<not> fits sz b"
  shows "kmalloc_find m sz n p = Some (Inr p')"
  using kmalloc_find_skip [OF assms] by (simp add: kmalloc_find.simps [of _ _ 0])

lemma kmalloc_find_hit:
  assumes "seg m p n (pre @ b # post) p' n'" "\<And>c. c \<in> set pre \<Longrightarrow> addr c \<noteq> 0 \<and> \<not> fits sz c"
    and "fits sz b" "addr b \<noteq> 0"
  shows "kmalloc_find m sz n p = Some (Inl (addr b))"
proof -
  obtain q where q: "seg m p n pre q (addr b)" "h_used m (addr b) = 0"
      "unat (h_length m (addr b)) = len b"
    using assms(1,3) by (auto simp: seg_append fits_def)
  have "kmalloc_find m sz n p = kmalloc_find m sz (addr b) q"
    by (rule kmalloc_find_skip [OF q(1) assms(2)])
  also have "\<dots> = Some (Inl (addr b))"
    using assms(3,4) q by (subst kmalloc_find.simps) (simp add: fits_def word_le_nat_alt)
  finally show ?thesis .
qed

section \<open>Growing the heap\<close>

lemma heap_fields_alloc:
  "alloc_page s = Inr (p, s') \<Longrightarrow> first s' = first s \<and> mm_top s' = mm_top s \<and> mem s' = mem s"
  by (auto simp: alloc_page_def split: if_splits)

lemma heap_fields_map:
  "map_page pgd va pa flags s = Inr s' \<Longrightarrow> first s' = first s \<and> mm_top s' = mm_top s"
  by (auto simp: map_page_def Let_def bindE_eq_Inr dest!: heap_fields_alloc split: if_splits)

lemma heap_fields_unmap [simp]:
  "first (unmap pgd va s) = first s" "mm_top (unmap pgd va s) = mm_top s"
  "pg_top (unmap pgd va s) = pg_top s" "pg_stack (unmap pgd va s) = pg_stack s"
  by (simp_all add: unmap_def Let_def)

lemma heap_upd_frames [simp]:
  "frames (s\<lparr>first := f\<rparr>) = frames s" "frames (s\<lparr>mm_top := t\<rparr>) = frames s"
  "stack_ok (s\<lparr>first := f\<rparr>) = stack_ok s" "stack_ok (s\<lparr>mm_top := t\<rparr>) = stack_ok s"
  by (simp_all add: frames_def stack_ok_def)

lemma paging_inv_cong:
  "mem s' = mem s \<Longrightarrow> frames s' = frames s \<Longrightarrow> paging_inv pgd s' = paging_inv pgd s"
  by (simp add: paging_inv_def)

lemma paging_inv_upd [simp]:
  "paging_inv pgd (s\<lparr>first := f\<rparr>) = paging_inv pgd s" "paging_inv pgd (s\<lparr>mm_top := t\<rparr>) = paging_inv pgd s"
  by (rule paging_inv_cong; simp)+

text \<open>
  The window of the heap: exactly the pages of \<open>[V_MM_START, mm_top)\<close> are mapped.
\<close>

definition window_ok :: "u32 \<Rightarrow> 'a heap_state_scheme \<Rightarrow> bool" where
  "window_ok pgd s \<longleftrightarrow> paging_inv pgd s \<and> stack_ok s \<and> page_aligned (mm_top s) \<and>
     V_MM_START \<le> mm_top s \<and>
     (\<forall>v \<ge> V_MM_START. pte_entry (mem s) pgd v \<noteq> 0 \<longleftrightarrow> v < mm_top s)"

text \<open>Paging sees the same of two memories that differ inside the heap window only.\<close>

lemma window_load:
  assumes "kpage a" "i < 1024" "\<And>x. x < V_MM_START \<Longrightarrow> m' x = m x"
  shows "load32 m' (a + 4 * i) = load32 m (a + 4 * i)"
proof (rule load32_cong)
  fix x assume "in_range (a + 4 * i) 4 x"
  then have "x < V_MM_START" using cell_in_page [of a i x] kpage_window assms by blast
  then show "m' x = m x" by (rule assms(3))
qed

lemma paging_heap_write:
  assumes inv: "paging_inv pgd s" and eq: "\<And>x. x < V_MM_START \<Longrightarrow> mem s' x = mem s x"
    and fr: "frames s' = frames s"
  shows "paging_inv pgd s'" and "pte_entry (mem s') pgd v = pte_entry (mem s) pgd v"
proof -
  have kp: "kpage pgd" using paging_invD(1) [OF inv] .
  have pde: "load32 (mem s') (pgd + 4 * i) = load32 (mem s) (pgd + 4 * i)" if "i < 1024" for i
    using window_load [OF kp that, of "mem s'" "mem s"] eq by blast
  then have pt: "present (mem s') pgd i = present (mem s) pgd i" "table (mem s') pgd i = table (mem s) pgd i"
    if "i < 1024" for i
    using that by (simp_all add: present_def table_def)
  show "paging_inv pgd s'" using inv unfolding paging_inv_def fr by (simp add: pt)
  show "pte_entry (mem s') pgd v = pte_entry (mem s) pgd v"
  proof (cases "present (mem s) pgd (PGD_INDEX v)")
    case True
    then show ?thesis
      using window_load [OF paging_invD(4) [OF inv index_lt(2) True] index_lt(1), of "mem s'" "mem s"] eq
      by (simp add: pte_entry_def pt)
  qed (simp add: pte_entry_def pt)
qed

lemma div_page_iff: "(x :: nat) div 4096 = k \<longleftrightarrow> 4096 * k \<le> x \<and> x < 4096 * k + 4096"
proof -
  define q r where "q = x div 4096" and "r = x mod 4096"
  have "x = 4096 * q + r" "r < 4096" by (simp_all add: q_def r_def)
  then show ?thesis unfolding q_def [symmetric] by linarith
qed

lemma page_of_top:
  assumes "page_aligned t" "unat t + 4096 < 2 ^ 32"
  shows "v AND PAGE_MASK = t AND PAGE_MASK \<longleftrightarrow> t \<le> v \<and> v < t + PAGE_SIZE"
proof -
  obtain k where k: "unat t = 4096 * k" using assms(1) by (auto elim!: dvdE)
  have "v AND PAGE_MASK = t AND PAGE_MASK \<longleftrightarrow> unat v div 4096 = k"
    using k by (simp add: word_unat_eq_iff unat_page_mask)
  also have "\<dots> \<longleftrightarrow> 4096 * k \<le> unat v \<and> unat v < 4096 * k + 4096"
    by (rule div_page_iff)
  also have "\<dots> \<longleftrightarrow> t \<le> v \<and> v < t + PAGE_SIZE"
  proof -
    have "unat (t + PAGE_SIZE) = 4096 * k + 4096"
      using k assms(2) by (simp add: unat_plus_if')
    then show ?thesis using k by (simp only: word_le_nat_alt word_less_nat_alt)
  qed
  finally show ?thesis .
qed


lemma paging_inv_alloc:
  assumes inv: "paging_inv pgd s" and a: "alloc_page s = Inr (f, s1)"
  shows "paging_inv pgd s1"
proof -
  have "frames s = f # frames s1" "mem s1 = mem s" using alloc_page_Inr(1,3) [OF a] by auto
  then show ?thesis using inv unfolding paging_inv_def by auto
qed

lemma grow_step:
  assumes w: "window_ok pgd s" and lt: "mm_top s < lim" and lim: "unat lim \<le> 0xFFFFF000"
    and a: "alloc_page s = Inr (page, s1)" and m: "map_page pgd (mm_top s1) page 3 s1 = Inr s2"
  defines "t \<equiv> s2\<lparr>mm_top := mm_top s2 + PAGE_SIZE\<rparr>"
  shows "window_ok pgd t" and "first t = first s" and "unat (mm_top t) = unat (mm_top s) + 4096"
    and "\<And>x. V_MM_START \<le> x \<Longrightarrow> mem t x = mem s x"
proof -
  have wd: "paging_inv pgd s" "stack_ok s" "page_aligned (mm_top s)" "V_MM_START \<le> mm_top s"
      "\<And>v. V_MM_START \<le> v \<Longrightarrow> pte_entry (mem s) pgd v \<noteq> 0 \<longleftrightarrow> v < mm_top s"
    using w by (auto simp: window_ok_def)
  have f1: "first s1 = first s" "mm_top s1 = mm_top s" "mem s1 = mem s"
    using heap_fields_alloc [OF a] by auto
  have f2: "first s2 = first s" "mm_top s2 = mm_top s" using heap_fields_map [OF m] f1 by auto
  note mp = map_page_facts [OF paging_inv_alloc [OF wd(1) a] alloc_page_Inr(2) [OF a wd(2)] m]
  obtain k where k: "unat (mm_top s) = 4096 * k" using wd(3) by (auto elim!: dvdE)
  have "4096 * k < 4096 * 1048575" using lt lim k by (simp add: word_less_nat_alt)
  then have room: "unat (mm_top s) + 4096 < 2 ^ 32" using k by simp
  then show top: "unat (mm_top t) = unat (mm_top s) + 4096"
    using f2 by (simp add: t_def unat_plus_if')
  show "first t = first s" using f2 by (simp add: t_def)
  show "mem t x = mem s x" if "V_MM_START \<le> x" for x using mp that f1 by (simp add: t_def)
  have nz: "(page AND PAGE_MASK) OR 3 \<noteq> 0"
  proof
    assume "(page AND PAGE_MASK) OR 3 = 0"
    then have "even ((page AND PAGE_MASK) OR 3)" by simp
    then show False unfolding even_or_iff by simp
  qed
  have ent: "pte_entry (mem t) pgd v \<noteq> 0 \<longleftrightarrow> v < mm_top t" if "V_MM_START \<le> v" for v
  proof -
    have "mm_top t = mm_top s + PAGE_SIZE" using f2 by (simp add: t_def)
    then show ?thesis
      using mp f1 wd(5) [OF that] page_of_top [OF wd(3) room, of v] top nz
      by (auto simp: t_def word_less_nat_alt word_le_nat_alt)
  qed
  have "page_aligned (mm_top t)" "V_MM_START \<le> mm_top t"
    using top wd(3,4) by (auto simp: word_le_nat_alt)
  then show "window_ok pgd t"
    using mp ent unfolding window_ok_def by (simp add: t_def)
qed

lemma kmalloc_grow_spec:
  "window_ok pgd s \<Longrightarrow> unat lim \<le> 0xFFFFF000 \<Longrightarrow> kmalloc_grow pgd lim s = Inr s' \<Longrightarrow>
     window_ok pgd s' \<and> lim \<le> mm_top s' \<and> mm_top s \<le> mm_top s' \<and> first s' = first s \<and>
     (\<forall>x \<ge> V_MM_START. mem s' x = mem s x)"
proof (induction pgd lim s rule: kmalloc_grow.induct)
  case (1 pgd lim s)
  show ?case
  proof (cases "mm_top s < lim")
    case False
    then show ?thesis using "1.prems" by (subst (asm) kmalloc_grow.simps) simp
  next
    case True
    then obtain page s1 s2 where st: "alloc_page s = Inr (page, s1)"
        "map_page pgd (mm_top s1) page (1 OR 2) s1 = Inr s2"
        "kmalloc_grow pgd lim (s2\<lparr>mm_top := mm_top s2 + PAGE_SIZE\<rparr>) = Inr s'"
      using "1.prems"(3) by (subst (asm) kmalloc_grow.simps) (auto simp: bindE_eq_Inr)
    define t where "t = s2\<lparr>mm_top := mm_top s2 + PAGE_SIZE\<rparr>"
    have t: "window_ok pgd t" "first t = first s" "mm_top s \<le> mm_top t"
        "\<And>x. V_MM_START \<le> x \<Longrightarrow> mem t x = mem s x"
      using grow_step [OF "1.prems"(1) True "1.prems"(2) st(1)] st(2)
      by (simp_all add: t_def word_le_nat_alt)
    have "window_ok pgd s' \<and> lim \<le> mm_top s' \<and> mm_top t \<le> mm_top s' \<and> first s' = first t \<and>
        (\<forall>x \<ge> V_MM_START. mem s' x = mem t x)"
      using "1.IH" [OF True st(1) refl st(2)] t(1) "1.prems"(2) st(3) unfolding t_def by blast
    then show ?thesis using t by (simp add: order_trans)
  qed
qed

lemma kmalloc_grow_Inl:
  "kmalloc_grow pgd lim s = Inl e \<Longrightarrow> e = Panic ''out of memory''"
proof (induction pgd lim s rule: kmalloc_grow.induct)
  case (1 pgd lim s)
  from "1.prems" have lt: "mm_top s < lim"
    by (subst (asm) kmalloc_grow.simps) (simp split: if_splits)
  show ?case
  proof (cases "alloc_page s")
    case (Inl e')
    then show ?thesis using "1.prems" lt alloc_page_Inl [of s e']
      by (subst (asm) kmalloc_grow.simps) simp
  next
    case (Inr r)
    obtain page s1 where r: "alloc_page s = Inr (page, s1)" using Inr by (cases r) auto
    show ?thesis
    proof (cases "map_page pgd (mm_top s1) page (1 OR 2) s1")
      case (Inl e')
      then show ?thesis using "1.prems" lt r map_page_Inl [THEN iffD1, OF Inl]
        by (subst (asm) kmalloc_grow.simps) simp
    next
      case (Inr s2)
      then show ?thesis using "1.IH" [OF lt r refl Inr] "1.prems" lt r
        by (subst (asm) (2) kmalloc_grow.simps) simp
    qed
  qed
qed

lemma kmalloc_grow_enough:
  "window_ok pgd s \<Longrightarrow> unat lim \<le> 0xFFFFF000 \<Longrightarrow>
   2 * ((unat lim - unat (mm_top s) + 4095) div 4096) \<le> length (frames s) \<Longrightarrow>
     \<exists>s'. kmalloc_grow pgd lim s = Inr s'"
proof (induction pgd lim s rule: kmalloc_grow.induct)
  case (1 pgd lim s)
  show ?case
  proof (cases "mm_top s < lim")
    case False
    then show ?thesis by (subst kmalloc_grow.simps) simp
  next
    case True
    define d where "d = unat lim - unat (mm_top s)"
    have d: "0 < d" using True by (simp add: d_def word_less_nat_alt)
    have "(d - 4096 + 4095) div 4096 + 1 = (d + 4095) div 4096" if lt: "4096 < d"
    proof -
      obtain e where "d = 4096 + e" using lt less_imp_add_positive [OF lt] by auto
      then show ?thesis by simp
    qed
    moreover have "(d + 4095) div 4096 = 1" if "d \<le> 4096" using d that by (simp add: div_nat_eqI)
    ultimately have step: "(d - 4096 + 4095) div 4096 + 1 \<le> (d + 4095) div 4096"
      by (cases "4096 < d") auto
    have need: "2 * ((d + 4095) div 4096) \<le> length (frames s)" using "1.prems"(3) by (simp only: d_def)
    then have two: "2 \<le> length (frames s)" using step by linarith
    then obtain f g fs where fr: "frames s = f # g # fs" by (cases "frames s"; cases "tl (frames s)") auto
    obtain page s1 where a: "alloc_page s = Inr (page, s1)"
      using alloc_page_Inl [of s] fr by (cases "alloc_page s") auto
    have fr1: "frames s1 = g # fs" using alloc_page_Inr(1) [OF a] fr by simp
    then obtain s2 where m: "map_page pgd (mm_top s1) page (1 OR 2) s1 = Inr s2"
      using map_page_Inl [of pgd "mm_top s1" page 3 s1] by (cases "map_page pgd (mm_top s1) page 3 s1") auto
    note gs = grow_step [OF "1.prems"(1) True "1.prems"(2) a] m
    have "length fs \<le> length (frames s2)"
      using map_page_Inr(2) [of pgd s1 "mm_top s1" page 3 s2] m fr1 "1.prems"(1)
        paging_inv_alloc [OF _ a] alloc_page_Inr(2) [OF a] by (auto simp: window_ok_def split: if_splits)
    then have "\<exists>s'. kmalloc_grow pgd lim (s2\<lparr>mm_top := mm_top s2 + PAGE_SIZE\<rparr>) = Inr s'"
    proof (intro "1.IH" [OF True a refl m])
      have "unat lim - unat (mm_top (s2\<lparr>mm_top := mm_top s2 + PAGE_SIZE\<rparr>)) = d - 4096"
        using gs by (simp add: d_def)
      then show "2 * ((unat lim - unat (mm_top (s2\<lparr>mm_top := mm_top s2 + PAGE_SIZE\<rparr>)) + 4095) div 4096)
          \<le> length (frames (s2\<lparr>mm_top := mm_top s2 + PAGE_SIZE\<rparr>))"
        using need step fr \<open>length fs \<le> length (frames s2)\<close> by simp
    qed (use gs "1.prems"(2) in auto)
    then show ?thesis using True a m by (subst kmalloc_grow.simps) simp
  qed
qed


section \<open>The heap invariant and allocation at the end\<close>

lemma in_range_nat:
  assumes "unat a + n \<le> 2 ^ 32"
  shows "in_range a n x \<longleftrightarrow> unat a \<le> unat x \<and> unat x < unat a + n"
proof (cases "unat a \<le> unat x")
  case True
  then have "unat (x - a) = unat x - unat a" by (simp add: unat_sub_if')
  then show ?thesis using True by (auto simp: in_range_def)
next
  case False
  then have "unat (x - a) = 2 ^ 32 + unat x - unat a" by (simp add: unat_sub_if')
  then show ?thesis using False assms by (simp add: in_range_def)
qed

definition last_addr :: "block list \<Rightarrow> u32" where
  "last_addr bs = (if bs = [] then 0 else addr (last bs))"

definition heap_inv :: "u32 \<Rightarrow> 'a heap_state_scheme \<Rightarrow> block list \<Rightarrow> bool" where
  "heap_inv pgd s bs \<longleftrightarrow> window_ok pgd s \<and> seg (mem s) 0 (first s) bs (last_addr bs) 0 \<and>
     contig (unat V_MM_START) bs (heap_end bs) \<and> heap_end bs \<le> unat (mm_top s)"

text \<open>The bytes of a block behind its header, which belong to the caller.\<close>

definition payload :: "block \<Rightarrow> u32 \<Rightarrow> bool" where
  "payload b x \<longleftrightarrow> unat (addr b) + 12 \<le> unat x \<and> unat x < unat (addr b) + len b"

lemma heap_block:
  assumes "heap_inv pgd s bs" "b \<in> set bs"
  shows "unat V_MM_START \<le> unat (addr b)" "unat (addr b) + len b \<le> heap_end bs" "12 \<le> len b"
    "heap_end bs < 2 ^ 32" "addr b \<noteq> 0"
proof -
  have c: "contig (unat V_MM_START) bs (heap_end bs)" "heap_end bs \<le> unat (mm_top s)"
    using assms(1) by (auto simp: heap_inv_def)
  show "unat V_MM_START \<le> unat (addr b)" "unat (addr b) + len b \<le> heap_end bs" "12 \<le> len b"
    using contig_bounds [OF c(1) assms(2)] by auto
  show "heap_end bs < 2 ^ 32" using c(2) unat_lt32 [of "mm_top s"] by simp
  show "addr b \<noteq> 0" using contig_bounds [OF c(1) assms(2)] by auto
qed

lemma seg_heap_bytes:
  assumes "heap_inv pgd s bs" "\<And>x. V_MM_START \<le> x \<Longrightarrow> m' x = mem s x"
  shows "seg m' p n bs p' n' \<longleftrightarrow> seg (mem s) p n bs p' n'"
proof (rule seg_cong)
  fix b x assume b: "b \<in> set bs" "in_range (addr b) 12 x"
  note hb = heap_block [OF assms(1) b(1)]
  have "unat V_MM_START \<le> unat x" using b(2) hb by (subst (asm) in_range_nat) auto
  then show "m' x = mem s x" by (intro assms(2)) (simp add: word_le_nat_alt)
qed

text \<open>The header written at the end, and the link to it from the last block.\<close>

definition put_header :: "u32 \<Rightarrow> u32 \<Rightarrow> u32 \<Rightarrow> memory \<Rightarrow> memory" where
  "put_header maddr prev sz m =
     set_length maddr sz (set_used maddr 1 (set_next maddr 0 (set_prev maddr prev m)))"

lemma put_header_fields:
  "h_prev (put_header n p l m) n = p" "h_next (put_header n p l m) n = 0"
  "h_used (put_header n p l m) n = 1" "l < 2 ^ 31 \<Longrightarrow> h_length (put_header n p l m) n = l"
  by (simp_all add: put_header_def)

lemma put_header_bytes: "\<not> in_range n 12 x \<Longrightarrow> put_header n p l m x = m x"
  by (simp add: put_header_def)

lemma seg_snoc_link:
  assumes seg: "seg m 0 n (pre @ [b]) (addr b) 0"
    and far: "\<And>c. c \<in> set pre \<Longrightarrow> apart (addr c) (addr b)"
    and new: "\<And>c. c \<in> set (pre @ [b]) \<Longrightarrow> apart a (addr c)"
    and l: "l < 2 ^ 31" "unat l = k"
  shows "seg (set_next (addr b) a (put_header a (addr b) l m)) 0 n (pre @ [b, Block a True k]) a 0"
proof -
  let ?m = "set_next (addr b) a (put_header a (addr b) l m)"
  have bytes: "?m x = m x" if "c \<in> set pre" "in_range (addr c) 12 x" for c x
  proof -
    have "\<not> in_range (addr b) 12 x" "\<not> in_range a 12 x"
      using far [OF that(1)] new [of c] that
      by (auto simp: apart_def in_range_nat)
    then show ?thesis by (simp add: put_header_bytes)
  qed
  obtain q where q: "seg m 0 n pre q (addr b)" "h_prev m (addr b) = q"
      "h_used m (addr b) = (if used b then 1 else 0)" "unat (h_length m (addr b)) = len b"
    using seg by (auto simp: seg_append)
  have "seg ?m 0 n pre q (addr b)"
    using q(1) seg_cong [of pre ?m m] bytes by blast
  moreover have "apart a (addr b)" using new by simp
  moreover from this have "apart (addr b) a" by (simp add: apart_commute)
  ultimately show ?thesis
    using q l by (auto simp: seg_append put_header_def)
qed


lemma heap_apart:
  assumes "heap_inv pgd s bs" "b \<in> set bs" "unat a = heap_end bs" "heap_end bs + 12 \<le> 2 ^ 32"
  shows "apart a (addr b)"
  using heap_block [OF assms(1,2)] assms(3,4) by (auto simp: apart_def)

lemma heap_apart_pre:
  assumes "heap_inv pgd s (pre @ [b])" "c \<in> set pre"
  shows "apart (addr c) (addr b)"
proof -
  obtain q where q: "contig (unat V_MM_START) pre q" "unat (addr b) = q"
    using assms(1) by (auto simp: heap_inv_def contig_append)
  have "unat (addr c) + len c \<le> unat (addr b)" using contig_bounds [OF q(1) assms(2)] q(2) by simp
  moreover have "unat (addr b) + 12 \<le> 2 ^ 32" "12 \<le> len c"
    using heap_block [OF assms(1), of b] heap_block [OF assms(1), of c] assms(2) by auto
  ultimately show ?thesis by (simp add: apart_def)
qed

lemma heap_end_addr:
  assumes "heap_inv pgd s bs"
  shows "unat (if last_addr bs \<noteq> 0 then last_addr bs + h_length (mem s) (last_addr bs) else V_MM_START)
    = heap_end bs"
proof (cases bs rule: rev_cases)
  case Nil
  then show ?thesis by (simp add: last_addr_def heap_end_def)
next
  case (snoc pre b)
  note hb = heap_block [OF assms, of b]
  have "contig (unat V_MM_START) (pre @ [b]) (heap_end bs)" using assms snoc by (simp add: heap_inv_def)
  then have "heap_end bs = unat (addr b) + len b" by (auto simp: contig_append)
  moreover have "unat (h_length (mem s) (addr b)) = len b"
    using assms snoc by (auto simp: heap_inv_def seg_append)
  ultimately show ?thesis
    using snoc hb by (simp add: last_addr_def unat_plus_if')
qed

lemma window_write:
  assumes "window_ok pgd s" "\<And>x. x < V_MM_START \<Longrightarrow> m x = mem s x"
  shows "window_ok pgd (s\<lparr>mem := m\<rparr>)"
  using assms paging_heap_write [of pgd s "s\<lparr>mem := m\<rparr>"] by (simp add: window_ok_def)

lemma header_above:
  assumes "unat V_MM_START \<le> unat a" "unat a + 12 \<le> 2 ^ 32" "x < V_MM_START"
  shows "\<not> in_range a 12 x"
  using assms by (simp add: in_range_nat word_less_nat_alt)

text \<open>What \<open>kmalloc\<close> writes once the pages are there: the new header and the link to it.\<close>

definition link_new :: "u32 \<Rightarrow> u32 \<Rightarrow> u32 \<Rightarrow> memory \<Rightarrow> memory" where
  "link_new a prev sz m =
     (if prev \<noteq> 0 then set_next prev a (put_header a prev sz m) else put_header a prev sz m)"

lemma link_new_bytes:
  "\<not> in_range a 12 x \<Longrightarrow> (bs \<noteq> [] \<Longrightarrow> \<not> in_range (addr (last bs)) 12 x) \<Longrightarrow>
     link_new a (last_addr bs) sz m x = m x"
  by (simp add: link_new_def put_header_bytes last_addr_def)

lemma link_new_low:
  assumes "heap_inv pgd s bs" "unat a = heap_end bs" "heap_end bs + 12 \<le> 2 ^ 32" "x < V_MM_START"
  shows "link_new a (last_addr bs) sz m x = m x"
proof (rule link_new_bytes)
  show "\<not> in_range a 12 x"
    using assms by (intro header_above) (simp_all add: heap_end_def)
  show "\<not> in_range (addr (last bs)) 12 x" if "bs \<noteq> []"
    using heap_block [OF assms(1), of "last bs"] that assms(4) by (intro header_above) simp_all
qed

lemma link_new_payload:
  assumes inv: "heap_inv pgd s bs" and a: "unat a = heap_end bs" "heap_end bs + 12 \<le> 2 ^ 32"
    and b: "b \<in> set bs" "payload b x"
  shows "link_new a (last_addr bs) sz m x = m x"
proof (rule link_new_bytes)
  note hb = heap_block [OF inv b(1)]
  show "\<not> in_range a 12 x" using b hb a by (auto simp: payload_def in_range_nat)
  assume "bs \<noteq> []"
  then obtain pre c where snoc: "bs = pre @ [c]" by (cases bs rule: rev_cases) auto
  obtain q where q: "contig (unat V_MM_START) pre q" "unat (addr c) = q"
    using inv snoc by (auto simp: heap_inv_def contig_append)
  have "b = c \<or> unat (addr b) + len b \<le> unat (addr c)"
    using b(1) snoc contig_bounds [OF q(1), of b] q(2) by auto
  then show "\<not> in_range (addr (last bs)) 12 x"
    using b(2) heap_block [OF inv, of c] snoc by (auto simp: payload_def in_range_nat)
qed

lemma link_new_seg:
  assumes inv: "heap_inv pgd s bs" and a: "unat a = heap_end bs" "heap_end bs + 12 \<le> 2 ^ 32"
    and m: "\<And>x. V_MM_START \<le> x \<Longrightarrow> m x = mem s x" and l: "l < 2 ^ 31" "unat l = k"
  shows "seg (link_new a (last_addr bs) l m) 0 (if bs = [] then a else first s)
      (bs @ [Block a True k]) a 0"
proof (cases bs rule: rev_cases)
  case Nil
  then show ?thesis using l by (simp add: last_addr_def link_new_def put_header_fields)
next
  case (snoc pre b)
  have nz: "last_addr bs = addr b" "addr b \<noteq> 0"
    using snoc heap_block(5) [OF inv, of b] by (auto simp: last_addr_def)
  have "seg m 0 (first s) (pre @ [b]) (addr b) 0"
    using inv seg_heap_bytes [OF inv m] snoc nz by (auto simp: heap_inv_def)
  from seg_snoc_link [OF this heap_apart_pre [OF inv [unfolded snoc]] _ l, of a]
  show ?thesis using heap_apart [OF inv _ a] snoc nz by (simp add: link_new_def)
qed

lemma kmalloc_extend_eq:
  "kmalloc_extend pgd sz prev s =
     (let a = (if prev \<noteq> 0 then prev + h_length (mem s) prev else V_MM_START)
      in bindE (kmalloc_grow pgd (a + sz) (if prev \<noteq> 0 then s else s\<lparr>first := a\<rparr>)) (\<lambda>s.
           Inr (a + 12, s\<lparr>mem := link_new a prev sz (mem s)\<rparr>)))"
  by (simp add: kmalloc_extend_def link_new_def put_header_def Let_def)

text \<open>
  When no block of the list fits, \<open>kmalloc\<close> appends one: the invariant holds with the new block at
  the end of the list, and what the callers of the older blocks stored is untouched.
\<close>

lemma kmalloc_extend_spec:
  assumes inv: "heap_inv pgd s bs" and room: "heap_end bs + unat sz + 12 \<le> 0xFFFFF000"
    and r: "kmalloc_extend pgd (sz + 12) (last_addr bs) s = Inr (p, s')"
  shows "unat p = heap_end bs + 12" and "heap_inv pgd s' (bs @ [Block (p - 12) True (unat sz + 12)])"
    and "\<And>b x. b \<in> set bs \<Longrightarrow> payload b x \<Longrightarrow> mem s' x = mem s x"
proof -
  define a where "a = (if last_addr bs \<noteq> 0 then last_addr bs + h_length (mem s) (last_addr bs) else V_MM_START)"
  have ua: "unat a = heap_end bs" unfolding a_def by (rule heap_end_addr [OF inv])
  have ge: "unat V_MM_START \<le> heap_end bs" by (simp add: heap_end_def)
  have usz: "unat (sz + 12) = unat sz + 12" using room ge by (simp add: unat_plus_if')
  have ulim: "unat (a + (sz + 12)) = heap_end bs + unat sz + 12"
    using room ua usz by (simp add: unat_plus_if')
  define s1 where "s1 = (if last_addr bs \<noteq> 0 then s else s\<lparr>first := a\<rparr>)"
  obtain s2 where g: "kmalloc_grow pgd (a + (sz + 12)) s1 = Inr s2" and p: "p = a + 12"
    and s': "s' = s2\<lparr>mem := link_new a (last_addr bs) (sz + 12) (mem s2)\<rparr>"
    using r unfolding kmalloc_extend_eq Let_def a_def [symmetric] s1_def [symmetric]
    by (auto simp: bindE_eq_Inr)
  have w1: "window_ok pgd s1" using inv by (auto simp: s1_def heap_inv_def window_ok_def)
  have lim: "unat (a + (sz + 12)) \<le> 0xFFFFF000" using ulim room by simp
  from kmalloc_grow_spec [OF w1 lim g]
  have g2: "window_ok pgd s2" "a + (sz + 12) \<le> mm_top s2" "first s2 = first s1"
      "\<And>x. V_MM_START \<le> x \<Longrightarrow> mem s2 x = mem s x" by (auto simp: s1_def)
  have l31: "sz + 12 < 2 ^ 31" using usz room ge by (simp add: word_less_nat_alt)
  have a12: "heap_end bs + 12 \<le> 2 ^ 32" using room by simp
  show "unat p = heap_end bs + 12" using p ua room by (simp add: unat_plus_if')
  have win: "window_ok pgd s'"
    using window_write [OF g2(1), of "mem s'"] link_new_low [OF inv ua a12] s' by simp
  have "first s2 = (if bs = [] then a else first s)"
    using g2(3) heap_block(5) [OF inv, of "last bs"] by (auto simp: s1_def last_addr_def)
  then have "seg (mem s') 0 (first s') (bs @ [Block a True (unat sz + 12)]) a 0"
    using link_new_seg [OF inv ua a12 g2(4) l31 usz] s' by simp
  moreover have "contig (unat V_MM_START) (bs @ [Block a True (unat sz + 12)]) (heap_end bs + unat sz + 12)"
    using inv ua by (simp add: contig_append heap_inv_def)
  ultimately show "heap_inv pgd s' (bs @ [Block (p - 12) True (unat sz + 12)])"
    using win g2(2) ulim s' p by (simp add: heap_inv_def heap_end_def last_addr_def word_le_nat_alt)
  show "mem s' x = mem s x" if "b \<in> set bs" "payload b x" for b x
    using link_new_payload [OF inv ua a12 that] g2(4) [of x] heap_block(1) [OF inv that(1)] that(2) s'
    by (simp add: payload_def word_le_nat_alt)
qed

lemma kmalloc_extend_enough:
  assumes inv: "heap_inv pgd s bs" and room: "heap_end bs + unat sz + 12 \<le> 0xFFFFF000"
    and fr: "2 * ((heap_end bs + unat sz + 12 - unat (mm_top s) + 4095) div 4096) \<le> length (frames s)"
  shows "\<exists>p s'. kmalloc_extend pgd (sz + 12) (last_addr bs) s = Inr (p, s')"
proof -
  define a where "a = (if last_addr bs \<noteq> 0 then last_addr bs + h_length (mem s) (last_addr bs) else V_MM_START)"
  have ua: "unat a = heap_end bs" unfolding a_def by (rule heap_end_addr [OF inv])
  have "unat (sz + 12) = unat sz + 12"
    using room by (simp add: unat_plus_if' heap_end_def)
  then have ulim: "unat (a + (sz + 12)) = heap_end bs + unat sz + 12"
    using room ua by (simp add: unat_plus_if')
  let ?s1 = "if last_addr bs \<noteq> 0 then s else s\<lparr>first := a\<rparr>"
  have "\<exists>s'. kmalloc_grow pgd (a + (sz + 12)) ?s1 = Inr s'"
    using inv ulim room fr
    by (intro kmalloc_grow_enough) (auto simp: heap_inv_def window_ok_def)
  then show ?thesis unfolding kmalloc_extend_eq Let_def a_def [symmetric] by auto
qed

end
