(* ===== verification/Process.thy ===== *)
theory Process
  imports Heap
begin

text \<open>
  Kernel threads: \<open>src/process.c\<close> and the context switch of \<open>src/proc_s.s\<close>. A \<open>process_t\<close> is
  44 bytes of memory at the start of the 8192 bytes that also hold the thread's stack; the run
  list is circular, linked through the \<open>next\<close> fields. The globals are \<open>cur_pid\<close>, \<open>run_head\<close>
  and \<open>cur_proc\<close>; the registers that \<open>switch_to\<close> saves and loads are part of the state.
\<close>

section \<open>State and fields\<close>

abbreviation (input) STACK_SIZE :: u32 where "STACK_SIZE \<equiv> 8192"
abbreviation (input) RUNNABLE :: u32 where "RUNNABLE \<equiv> 2"

record proc_state = heap_state +
  cur_pid :: u32
  run_head :: u32
  cur_proc :: u32
  r_esp :: u32
  r_ebp :: u32
  r_ebx :: u32
  r_esi :: u32
  r_edi :: u32
  r_eflags :: u32
  r_eip :: u32

text \<open>The fields of \<open>struct process_t\<close> and of its \<open>context\<close>, as addresses.\<close>

definition p_state :: "u32 \<Rightarrow> u32" where "p_state p = p"
definition p_pid :: "u32 \<Rightarrow> u32" where "p_pid p = p + 4"
definition p_stack :: "u32 \<Rightarrow> u32" where "p_stack p = p + 8"
definition p_memory :: "u32 \<Rightarrow> u32" where "p_memory p = p + 12"
definition p_context :: "u32 \<Rightarrow> u32" where "p_context p = p + 16"
definition p_next :: "u32 \<Rightarrow> u32" where "p_next p = p + 40"

definition ctx_esp :: "u32 \<Rightarrow> u32" where "ctx_esp c = c"
definition ctx_eflags :: "u32 \<Rightarrow> u32" where "ctx_eflags c = c + 20"

section \<open>Switching\<close>

text \<open>
  \<open>switch_to\<close>, instruction by instruction; \<open>prev\<close> and \<open>next\<close> are its two stack arguments. On
  entry \<open>r_esp\<close> points to the return address. \<open>pushf; pop ecx\<close> and \<open>push eax; popf\<close> leave
  their word behind below the stack pointer.
\<close>

definition save_context :: "u32 \<Rightarrow> 'a proc_state_scheme \<Rightarrow> 'a proc_state_scheme" where
  "save_context prev s =
     (let m = store32 (mem s) prev (r_esp s);
          m = store32 m (prev + 4) (r_ebp s);
          m = store32 m (prev + 8) (r_ebx s);
          m = store32 m (prev + 12) (r_esi s);
          m = store32 m (prev + 16) (r_edi s);
          m = store32 m (r_esp s - 4) (r_eflags s)
      in s\<lparr>mem := store32 m (prev + 20) (load32 m (r_esp s - 4))\<rparr>)"

definition load_context :: "u32 \<Rightarrow> 'a proc_state_scheme \<Rightarrow> 'a proc_state_scheme" where
  "load_context nxt s =
     (let s = s\<lparr>r_esp := load32 (mem s) nxt, r_ebp := load32 (mem s) (nxt + 4),
                r_ebx := load32 (mem s) (nxt + 8), r_esi := load32 (mem s) (nxt + 12),
                r_edi := load32 (mem s) (nxt + 16)\<rparr>;
          m = store32 (mem s) (r_esp s - 4) (load32 (mem s) (nxt + 20));
          s = s\<lparr>mem := m, r_eflags := load32 m (r_esp s - 4)\<rparr>
      in s\<lparr>r_eip := load32 m (r_esp s), r_esp := r_esp s + 4\<rparr>)"

definition switch_to :: "u32 \<Rightarrow> u32 \<Rightarrow> 'a proc_state_scheme \<Rightarrow> 'a proc_state_scheme" where
  "switch_to prev nxt s = load_context nxt (save_context prev s)"

definition change_proc :: "u32 \<Rightarrow> 'a proc_state_scheme \<Rightarrow> 'a proc_state_scheme" where
  "change_proc proc s =
     (if cur_proc s \<noteq> proc
      then let prev = cur_proc s; s = s\<lparr>cur_proc := proc\<rparr>
           in switch_to (p_context prev) (p_context (cur_proc s)) s
      else s)"

definition schedule :: "'a proc_state_scheme \<Rightarrow> 'a proc_state_scheme" where
  "schedule s =
     (if cur_proc s \<noteq> 0 then change_proc (load32 (mem s) (p_next (cur_proc s))) s else s)"

section \<open>Creating threads\<close>

definition init_proc_schedule :: "u32 \<Rightarrow> 'a proc_state_scheme \<Rightarrow> 'a proc_state_scheme" where
  "init_proc_schedule kern_stack_top s =
     (let cur = kern_stack_top - STACK_SIZE;
          m = store32 (mem s) (p_state cur) RUNNABLE;
          m = store32 m (p_pid cur) (cur_pid s);
          m = store32 m (p_stack cur) cur;
          m = store32 m (p_memory cur) 0;
          m = store32 m (p_next cur) cur
      in s\<lparr>mem := m, cur_pid := cur_pid s + 1, cur_proc := cur, run_head := cur\<rparr>)"

text \<open>The loop that looks for the process in front of \<open>head\<close>; \<open>None\<close> when there is none.\<close>

partial_function (option) ring_last :: "memory \<Rightarrow> u32 \<Rightarrow> u32 \<Rightarrow> u32 option" where
  "ring_last m head proc =
     (if load32 m (p_next proc) \<noteq> head then ring_last m head (load32 m (p_next proc)) else Some proc)"

text \<open>\<open>init_thread\<close>; \<open>thread_exit_addr\<close>, \<open>fn\<close> and \<open>arg\<close> are the words it pushes.\<close>

definition init_proc_block :: "u32 \<Rightarrow> u32 \<Rightarrow> u32 \<Rightarrow> u32 \<Rightarrow> 'a proc_state_scheme \<Rightarrow> memory" where
  "init_proc_block thread_exit_addr fn arg new s =
     (let m = fst (memset (mem s) new 0 44);
          m = store32 m (p_state new) RUNNABLE;
          m = store32 m (p_stack new) (cur_proc s);
          m = store32 m (p_pid new) (cur_pid s);
          m = store32 m (p_memory new) 0;
          stack_top = new + STACK_SIZE;
          m = store32 m (stack_top - 4) arg;
          m = store32 m (stack_top - 8) thread_exit_addr;
          m = store32 m (stack_top - 12) fn;
          m = store32 m (ctx_esp (p_context new)) (new + STACK_SIZE - 4 * 3);
          m = store32 m (ctx_eflags (p_context new)) 0x200
      in store32 m (p_next new) (run_head s))"

definition init_thread ::
    "u32 \<Rightarrow> u32 \<Rightarrow> u32 \<Rightarrow> u32 \<Rightarrow> 'a proc_state_scheme \<Rightarrow> (u32 \<times> 'a proc_state_scheme) result" where
  "init_thread pgd_kern thread_exit_addr fn arg s =
     bindE (kmalloc pgd_kern STACK_SIZE s) (\<lambda>(new, s).
       let s = s\<lparr>mem := init_proc_block thread_exit_addr fn arg new s, cur_pid := cur_pid s + 1\<rparr>
       in case ring_last (mem s) (run_head s) (run_head s) of
            None \<Rightarrow> Inl Hang
          | Some proc \<Rightarrow>
              let m = store32 (mem s) (p_next proc) new
              in Inr (load32 m (p_pid new), s\<lparr>mem := m\<rparr>))"

definition thread_exit :: "'a proc_state_scheme \<Rightarrow> 'a proc_state_scheme result" where
  "thread_exit s = Inl Hang"

section \<open>Separate structures\<close>

abbreviation (input) area :: nat where "area \<equiv> 44"

definition areas_apart :: "u32 list \<Rightarrow> bool" where
  "areas_apart ps \<longleftrightarrow> distinct ps \<and> (\<forall>p \<in> set ps. \<forall>q \<in> set ps. p \<noteq> q \<longrightarrow> sep p area q area)"

lemma load_store_commuted: "load32 (store32 m (x + a) v) (a + x) = v"
  by (simp add: add.commute)

lemmas p_fields = p_state_def p_pid_def p_stack_def p_memory_def p_context_def p_next_def
  ctx_esp_def ctx_eflags_def

lemma next_in_area: "in_range (p_next q) 4 x \<Longrightarrow> in_range q 44 x"
  using in_range_sub [of q 40 4 x 44] by (simp add: p_next_def)

section \<open>The circular run list\<close>

definition ring :: "memory \<Rightarrow> u32 \<Rightarrow> u32 list \<Rightarrow> bool" where
  "ring m head ps \<longleftrightarrow> ps \<noteq> [] \<and> ps ! 0 = head \<and> distinct ps \<and>
     (\<forall>i < length ps. load32 m (p_next (ps ! i)) = ps ! (Suc i mod length ps))"

lemma ring_cong:
  "(\<And>p. p \<in> set ps \<Longrightarrow> load32 m' (p_next p) = load32 m (p_next p)) \<Longrightarrow> ring m' head ps = ring m head ps"
  by (simp add: ring_def)

lemma ring_last_ring:
  assumes "ring m head ps" shows "ring_last m head head = Some (last ps)"
proof -
  have ne: "ps \<noteq> []" "ps ! 0 = head" "distinct ps" using assms by (auto simp: ring_def)
  have nx: "load32 m (p_next (ps ! i)) = ps ! (Suc i mod length ps)" if "i < length ps" for i
    using assms that by (simp add: ring_def)
  have "ring_last m head (ps ! i) = Some (last ps)" if "i \<le> length ps - 1" for i
    using that
  proof (induction i rule: inc_induct)
    case base
    have "ring_last m head (ps ! (length ps - 1)) = Some (ps ! (length ps - 1))"
      using nx [of "length ps - 1"] ne by (subst ring_last.simps) simp
    then show ?case using ne by (simp add: last_conv_nth)
  next
    case (step i)
    have "load32 m (p_next (ps ! i)) = ps ! Suc i" using nx [of i] step by simp
    moreover have "ps ! Suc i \<noteq> head" using ne step by (metis Suc_lessD less_diff_conv nth_eq_iff_index_eq
          Suc_eq_plus1 nat.distinct(1) length_greater_0_conv)
    ultimately show ?case using step by (subst ring_last.simps) simp
  qed
  from this [of 0] show ?thesis using ne by simp
qed

lemma ring_snoc:
  assumes "ring m head ps" "q \<notin> set ps"
    and "\<And>p. p \<in> set ps \<Longrightarrow> p \<noteq> last ps \<Longrightarrow> load32 m' (p_next p) = load32 m (p_next p)"
    and "load32 m' (p_next (last ps)) = q" "load32 m' (p_next q) = head"
  shows "ring m' head (ps @ [q])"
proof -
  have ne: "ps \<noteq> []" "ps ! 0 = head" "distinct ps" using assms by (auto simp: ring_def)
  have "load32 m' (p_next ((ps @ [q]) ! i)) = (ps @ [q]) ! (Suc i mod Suc (length ps))"
    if "i < Suc (length ps)" for i
  proof -
    consider "Suc i < length ps" | "Suc i = length ps" | "i = length ps" using \<open>i < Suc (length ps)\<close> by linarith
    then show ?thesis
    proof cases
      case 1
      then have "ps ! i \<noteq> last ps" using ne by (simp add: last_conv_nth nth_eq_iff_index_eq)
      then show ?thesis using assms(1,3) 1 by (simp add: ring_def nth_append)
    next
      case 2
      then have "i = length ps - 1" by simp
      then show ?thesis using assms(4) ne by (simp add: last_conv_nth nth_append)
    next
      case 3
      then show ?thesis using assms(5) ne by (simp add: nth_append)
    qed
  qed
  then show ?thesis using ne assms(2) by (simp add: ring_def nth_append)
qed

text \<open>After \<open>init_proc_schedule\<close> the boot thread is the only process: it runs, and the run
  list is the ring of it alone.\<close>

theorem init_proc_schedule_ring:
  "let s' = init_proc_schedule kst s; p = kst - STACK_SIZE in
     ring (mem s') (run_head s') [p] \<and> cur_proc s' = p \<and> load32 (mem s') (p_pid p) = cur_pid s \<and>
     load32 (mem s') (p_state p) = RUNNABLE"
proof -
  define p where "p = kst - STACK_SIZE"
  show ?thesis
    unfolding init_proc_schedule_def Let_def p_def [symmetric]
    by (simp add: ring_def p_fields load32_store32_sep)
qed

section \<open>What a new thread looks like\<close>

text \<open>\<open>kmalloc\<close> does not touch the scheduler's globals.\<close>

definition same_sched :: "'a proc_state_scheme \<Rightarrow> 'a proc_state_scheme \<Rightarrow> bool" where
  "same_sched s t \<longleftrightarrow> cur_pid t = cur_pid s \<and> run_head t = run_head s \<and> cur_proc t = cur_proc s"

lemma same_sched_alloc: "alloc_page s = Inr (p, t) \<Longrightarrow> same_sched s t"
  by (auto simp: alloc_page_def same_sched_def split: if_splits)

lemma same_sched_map: "map_page pgd va pa flags s = Inr t \<Longrightarrow> same_sched s t"
  by (auto simp: map_page_def Let_def bindE_eq_Inr same_sched_def
      dest!: same_sched_alloc [unfolded same_sched_def] split: if_splits)

lemma same_sched_grow:
  fixes s :: "'a proc_state_scheme"
  shows "kmalloc_grow pgd lim s = Inr t \<Longrightarrow> same_sched s t"
proof (induction pgd lim s rule: kmalloc_grow.induct)
  case (1 pgd lim s)
  show ?case
  proof (cases "mm_top s < lim")
    case False
    then show ?thesis using "1.prems" by (subst (asm) kmalloc_grow.simps) (simp add: same_sched_def)
  next
    case True
    then obtain page s1 s2 where st: "alloc_page s = Inr (page, s1)"
        "map_page pgd (mm_top s1) page (1 OR 2) s1 = Inr s2"
        "kmalloc_grow pgd lim (s2\<lparr>mm_top := mm_top s2 + PAGE_SIZE\<rparr>) = Inr t"
      using "1.prems" by (subst (asm) kmalloc_grow.simps) (auto simp: bindE_eq_Inr)
    have "same_sched (s2\<lparr>mm_top := mm_top s2 + PAGE_SIZE\<rparr>) t"
      using "1.IH" [OF True st(1) refl st(2)] st(3) .
    then show ?thesis using same_sched_alloc [OF st(1)] same_sched_map [OF st(2)]
      by (simp add: same_sched_def)
  qed
qed

lemma same_sched_kmalloc:
  fixes s :: "'a proc_state_scheme"
  assumes "kmalloc pgd sz s = Inr (p, t)" shows "same_sched s t"
  using assms same_sched_grow
  by (fastforce simp: kmalloc_def kmalloc_extend_def Let_def same_sched_def bindE_eq_Inr
      split: option.splits sum.splits if_splits)

definition thread_ready :: "memory \<Rightarrow> u32 \<Rightarrow> u32 \<Rightarrow> u32 \<Rightarrow> u32 \<Rightarrow> bool" where
  "thread_ready m new texit fn arg \<longleftrightarrow>
     load32 m (ctx_esp (p_context new)) = new + 8180 \<and> load32 m (ctx_eflags (p_context new)) = 0x200 \<and>
     load32 m (new + 8180) = fn \<and> load32 m (new + 8184) = texit \<and> load32 m (new + 8188) = arg \<and>
     load32 m (p_state new) = RUNNABLE"

lemma init_proc_block_fields:
  "thread_ready (init_proc_block texit fn arg new s) new texit fn arg"
  "load32 (init_proc_block texit fn arg new s) (p_pid new) = cur_pid s"
  "load32 (init_proc_block texit fn arg new s) (p_next new) = run_head s"
  by (simp_all add: thread_ready_def init_proc_block_def p_fields Let_def load32_store32_sep
      sep_offsets' load_store_commuted)

lemma init_proc_block_sep:
  assumes "sep new 8192 a 4"
  shows "load32 (init_proc_block texit fn arg new s) a = load32 (mem s) a"
proof -
  have "sep (new + x) 4 a 4" if "unat x + 4 \<le> 8192" for x
    using sep_sub [of new 8192 a 4 x 4 0 4] assms that by simp
  from this [of 0] this [of 4] this [of 8] this [of 12] this [of 16] this [of 36] this [of 40]
    this [of 8180] this [of 8184] this [of 8188]
  have "sep new 4 a 4" "sep (new + 4) 4 a 4" "sep (new + 8) 4 a 4" "sep (new + 12) 4 a 4"
    "sep (new + 16) 4 a 4" "sep (new + 36) 4 a 4" "sep (new + 40) 4 a 4"
    "sep (new + 8180) 4 a 4" "sep (new + 8184) 4 a 4" "sep (new + 8188) 4 a 4" by simp_all
  moreover have "fst (memset m new 0 44) = fill m new 44 0" for m by (simp add: memset_fill)
  moreover have "sep new 44 a 4" using sep_sub [of new 8192 a 4 0 44 0 4] assms by simp
  ultimately show ?thesis
    by (simp add: init_proc_block_def p_fields Let_def load32_store32_sep load32_fill_sep add.commute)
qed

text \<open>What a new thread leaves of the other blocks' bytes.\<close>

lemma init_proc_block_bytes:
  assumes "\<not> in_range new 8192 x" shows "init_proc_block texit fn arg new s x = mem s x"
proof -
  have "\<not> in_range (new + y) k x" if "unat y + k \<le> 8192" for y k
    using that in_range_sub [of new y k x 8192] assms by auto
  from this [of 0 44] this [of 0 4] this [of 4 4] this [of 8 4] this [of 12 4] this [of 16 4] this [of 36 4] this [of 40 4]
    this [of 8180 4] this [of 8184 4] this [of 8188 4]
  have "\<not> in_range new 44 x" "\<not> in_range new 4 x" "\<not> in_range (new + 4) 4 x" "\<not> in_range (new + 8) 4 x" "\<not> in_range (new + 12) 4 x"
    "\<not> in_range (new + 16) 4 x" "\<not> in_range (new + 36) 4 x" "\<not> in_range (new + 40) 4 x" "\<not> in_range (new + 8180) 4 x"
    "\<not> in_range (new + 8184) 4 x" "\<not> in_range (new + 8188) 4 x" by simp_all
  moreover have "fst (memset m new 0 44) x = (if in_range new 44 x then 0 else m x)" for m by (simp add: memset_fill fill_def)
  ultimately show ?thesis by (simp add: init_proc_block_def p_fields Let_def store32_other add.commute)
qed

lemma init_thread_spec:
  assumes "kmalloc pgd STACK_SIZE s = Inr (new, s1)" "ring (mem s1) (run_head s) ps" "areas_apart ps"
    and "\<And>p. p \<in> set ps \<Longrightarrow> sep new 8192 p area"
  shows "\<exists>s'. init_thread pgd texit fn arg s = Inr (cur_pid s, s') \<and>
    ring (mem s') (run_head s) (ps @ [new]) \<and> run_head s' = run_head s \<and> cur_proc s' = cur_proc s \<and>
    cur_pid s' = cur_pid s + 1 \<and> thread_ready (mem s') new texit fn arg \<and>
    s' = s1\<lparr>mem := store32 (init_proc_block texit fn arg new s1) (p_next (last ps)) new, cur_pid := cur_pid s1 + 1\<rparr>"
proof -
  have g: "cur_pid s1 = cur_pid s" "run_head s1 = run_head s" "cur_proc s1 = cur_proc s"
    using same_sched_kmalloc [OF assms(1)] by (simp_all add: same_sched_def)
  define m where "m = init_proc_block texit fn arg new s1"
  have far: "sep new 8192 (p_next p) 4" if "p \<in> set ps" for p
    using sep_sub [OF assms(4) [OF that], of 0 8192 40 4] by (simp add: p_next_def)
  have r: "ring m (run_head s) ps"
  proof -
    have "ring m (run_head s1) ps = ring (mem s1) (run_head s1) ps"
      by (rule ring_cong) (simp add: m_def init_proc_block_sep far)
    then show ?thesis using assms(2) g by simp
  qed
  define m' where "m' = store32 m (p_next (last ps)) new"
  have l: "last ps \<in> set ps" using assms(2) by (auto simp: ring_def)
  have nn: "sep (p_next (last ps)) 4 (new + x) 4" if "unat x + 4 \<le> 8192" for x
    using sep_sub [OF far [OF l], of x 4 0 4] that by (simp add: sep_commute)
  from nn [of 0] nn [of 4] nn [of 16] nn [of 36] nn [of 40] nn [of 8180] nn [of 8184] nn [of 8188]
  have seps: "sep (p_next (last ps)) 4 new 4" "sep (p_next (last ps)) 4 (new + 4) 4"
    "sep (p_next (last ps)) 4 (new + 16) 4" "sep (p_next (last ps)) 4 (new + 36) 4"
    "sep (p_next (last ps)) 4 (new + 40) 4" "sep (p_next (last ps)) 4 (new + 8180) 4"
    "sep (p_next (last ps)) 4 (new + 8184) 4" "sep (p_next (last ps)) 4 (new + 8188) 4" by simp_all
  have rdy: "thread_ready m' new texit fn arg" "load32 m' (p_next new) = run_head s"
      "load32 m' (p_pid new) = cur_pid s"
    using init_proc_block_fields [of texit fn arg new s1] seps g
    by (simp_all add: m'_def m_def thread_ready_def p_fields load32_store32_sep add.commute)
  have "new \<notin> set ps" using assms(4) by (force simp: sep_def)
  moreover have "load32 m' (p_next p) = load32 m (p_next p)" if "p \<in> set ps" "p \<noteq> last ps" for p
  proof -
    have "sep (last ps) area p area" using assms(3) l that by (auto simp: areas_apart_def)
    from sep_sub [OF this, of 40 4 40 4] show ?thesis
      by (simp add: m'_def p_next_def load32_store32_sep)
  qed
  ultimately have "ring m' (run_head s) (ps @ [new])"
    using rdy by (intro ring_snoc [OF r]) (simp_all add: m'_def)
  then show ?thesis
    using assms(1) ring_last_ring [OF r] rdy g
    by (simp add: init_thread_def Let_def m_def [symmetric] m'_def [symmetric])
qed

text \<open>C16: \<open>init_thread\<close> returns the next pid, and appends the new process at the end of the run
  list, ready to run: its saved stack pointer is three words below the top of its block, where
  the entry function, \<open>thread_exit\<close> as its return address, and the argument lie.\<close>

theorem init_thread_appends:
  assumes "kmalloc pgd STACK_SIZE s = Inr (new, s1)" "ring (mem s1) (run_head s) ps" "areas_apart ps"
    and "\<And>p. p \<in> set ps \<Longrightarrow> sep new 8192 p area"
  shows "\<exists>s'. init_thread pgd texit fn arg s = Inr (cur_pid s, s') \<and>
    ring (mem s') (run_head s) (ps @ [new]) \<and> run_head s' = run_head s \<and> cur_proc s' = cur_proc s \<and>
    cur_pid s' = cur_pid s + 1 \<and> thread_ready (mem s') new texit fn arg"
  using init_thread_spec [OF assms] by blast

section \<open>Switching and the order of execution\<close>

text \<open>What the context at \<open>c\<close> holds, and what the registers hold.\<close>

definition context_at :: "memory \<Rightarrow> u32 \<Rightarrow> u32 list" where
  "context_at m c = map (\<lambda>i. load32 m (c + 4 * i)) [0, 1, 2, 3, 4, 5]"

definition cpu_context :: "'a proc_state_scheme \<Rightarrow> u32 list" where
  "cpu_context s = [r_esp s, r_ebp s, r_ebx s, r_esi s, r_edi s, r_eflags s]"

lemma save_context_at:
  assumes "sep (r_esp s - 4) 4 prev 24"
  shows "context_at (mem (save_context prev s)) prev = cpu_context s"
    and "\<And>a k. sep prev 24 a 4 \<Longrightarrow> sep (r_esp s - 4) 4 a 4 \<Longrightarrow>
           load32 (mem (save_context prev s)) a = load32 (mem s) a"
proof -
  have p: "sep (r_esp s - 4) 4 (prev + x) 4" if "unat x + 4 \<le> 24" for x
    using sep_sub [OF assms, of 0 4 x 4] that by simp
  from p [of 0] p [of 4] p [of 8] p [of 12] p [of 16] p [of 20]
  show "context_at (mem (save_context prev s)) prev = cpu_context s"
    by (simp add: context_at_def cpu_context_def save_context_def Let_def load32_store32_sep sep_commute)
  fix a assume a: "sep prev 24 a 4" "sep (r_esp s - 4) 4 a 4"
  have "sep (prev + x) 4 a 4" if "unat x + 4 \<le> 24" for x
    using sep_sub [OF a(1), of x 4 0 4] that by simp
  from this [of 0] this [of 4] this [of 8] this [of 12] this [of 16] this [of 20] a(2)
  show "load32 (mem (save_context prev s)) a = load32 (mem s) a"
    by (simp add: save_context_def Let_def load32_store32_sep)
qed


lemma load_context_regs:
  assumes "context_at (mem s) c = [e, bp, bx, si, di, fl]"
  shows "r_ebp (load_context c s) = bp" "r_ebx (load_context c s) = bx" "r_esi (load_context c s) = si"
    "r_edi (load_context c s) = di" "r_eflags (load_context c s) = fl" "r_esp (load_context c s) = e + 4"
    "r_eip (load_context c s) = load32 (mem s) e"
    "\<And>a. sep (e - 4) 4 a 4 \<Longrightarrow> load32 (mem (load_context c s)) a = load32 (mem s) a"
proof -
  have "sep (e - 4) 4 e 4" by (simp add: sep_def)
  then show "r_ebp (load_context c s) = bp" "r_ebx (load_context c s) = bx" "r_esi (load_context c s) = si"
    "r_edi (load_context c s) = di" "r_eflags (load_context c s) = fl" "r_esp (load_context c s) = e + 4"
    "r_eip (load_context c s) = load32 (mem s) e"
    "\<And>a. sep (e - 4) 4 a 4 \<Longrightarrow> load32 (mem (load_context c s)) a = load32 (mem s) a"
    using assms by (simp_all add: context_at_def load_context_def Let_def load32_store32_sep)
qed

lemma switch_sched [simp]:
  "run_head (switch_to a b s) = run_head s" "cur_proc (switch_to a b s) = cur_proc s"
  "cur_pid (switch_to a b s) = cur_pid s"
  by (simp_all add: switch_to_def load_context_def save_context_def Let_def)

lemma fresh_thread:
  assumes "thread_ready (mem s) new texit fn arg" "sep (p_context prev) 24 new 8192"
    and "sep (r_esp s - 4) 4 new 8192" "sep (r_esp s - 4) 4 (p_context prev) 24"
  defines "t \<equiv> switch_to (p_context prev) (p_context new) s"
  shows "r_eip t = fn \<and> r_eflags t = 0x200 \<and> load32 (mem t) (r_esp t) = texit \<and>
    load32 (mem t) (r_esp t + 4) = arg"
proof -
  let ?c = "p_context new"
  define s1 where "s1 = save_context (p_context prev) s"
  have ld: "load32 (mem s1) (new + x) = load32 (mem s) (new + x)" if "unat x + 4 \<le> 8192" for x
    using save_context_at(2) [OF assms(4)] sep_sub [OF assms(2), of 0 24 x 4]
      sep_sub [OF assms(3), of 0 4 x 4] that by (simp add: s1_def)
  from ld [of 16] ld [of 36] ld [of 8180] ld [of 8184] ld [of 8188]
  have r: "load32 (mem s1) ?c = new + 8180" "load32 (mem s1) (?c + 20) = 0x200"
    "load32 (mem s1) (new + 8180) = fn" "load32 (mem s1) (new + 8184) = texit"
    "load32 (mem s1) (new + 8188) = arg"
    using assms(1) by (simp_all add: thread_ready_def p_fields add.commute [of new])
  then obtain bp bx si di where c: "context_at (mem s1) ?c = [new + 8180, bp, bx, si, di, 0x200]"
    by (simp add: context_at_def)
  have t: "t = load_context ?c s1" by (simp add: t_def switch_to_def s1_def)
  have "sep (new + 8180 - 4) 4 (new + 8184) 4" "sep (new + 8180 - 4) 4 (new + 8188) 4"
    by (simp_all add: sep_def)
  then show ?thesis
    using load_context_regs [OF c] r unfolding t by (simp add: add.assoc)
qed

text \<open>C17: a new thread starts where it should: switching to it for the first time jumps to its
  entry function with interrupts enabled, its return address is \<open>thread_exit\<close>, and its
  argument is the first one on the stack.\<close>

theorem fresh_thread_starts:
  assumes "thread_ready (mem s) new texit fn arg" "sep (p_context prev) 24 new 8192"
    and "sep (r_esp s - 4) 4 new 8192" "sep (r_esp s - 4) 4 (p_context prev) 24"
  defines "t \<equiv> switch_to (p_context prev) (p_context new) s"
  shows "r_eip t = fn \<and> r_eflags t = 0x200 \<and> load32 (mem t) (r_esp t) = texit \<and>
    load32 (mem t) (r_esp t + 4) = arg"
  unfolding t_def using assms(1-4) by (rule fresh_thread)

text \<open>C18: a thread that is switched away from and later switched back to goes on as if nothing had
  happened: all the registers that \<open>switch_to\<close> saves are restored and it returns to its caller,
  as long as its context and the return address on its stack are left alone meanwhile.\<close>

theorem switch_back:
  assumes "sep (r_esp s - 4) 4 a 24" "context_at (mem s) b = [e, bp, bx, si, di, fl]"
    and "sep a 24 b 24" "sep (r_esp s - 4) 4 b 24" "sep (e - 4) 4 a 24" "sep (e - 4) 4 (r_esp s) 4" "sep a 24 (r_esp s) 4"
    and t: "context_at (mem t) a = context_at (mem (switch_to a b s)) a"
      "load32 (mem t) (r_esp s) = load32 (mem (switch_to a b s)) (r_esp s)"
    and "sep (r_esp t - 4) 4 c 24" "sep c 24 a 24" "sep (r_esp t - 4) 4 a 24"
      "sep c 24 (r_esp s) 4" "sep (r_esp t - 4) 4 (r_esp s) 4"
  defines "u \<equiv> switch_to c a t"
  shows "cpu_context u = (r_esp s + 4) # tl (cpu_context s) \<and> r_eip u = load32 (mem s) (r_esp s)"
proof -
  have same: "context_at m' c = context_at m c"
    if "\<And>x. unat x + 4 \<le> 24 \<Longrightarrow> load32 m' (c + x) = load32 m (c + x)" for m m' c
    using that [of 0] that [of 4] that [of 8] that [of 12] that [of 16] that [of 20]
    by (simp add: context_at_def)
  define s1 where "s1 = save_context a s"
  note sv = save_context_at [OF assms(1), folded s1_def]
  have "context_at (mem s1) b = [e, bp, bx, si, di, fl]"
    unfolding assms(2) [symmetric]
    by (rule same) (intro sv(2), use sep_sub [OF assms(3), of 0 24 _ 4] sep_sub [OF assms(4), of 0 4 _ 4] in simp_all)
  note ld = load_context_regs [OF this]
  have sw: "mem (switch_to a b s) = mem (load_context b s1)" by (simp add: switch_to_def s1_def)
  have "context_at (mem (switch_to a b s)) a = context_at (mem s1) a"
    unfolding sw by (rule same) (intro ld(8), use sep_sub [OF assms(5), of 0 4 _ 4] in simp)
  then have ca: "context_at (mem t) a = cpu_context s" using sv(1) t(1) by simp
  have "sep (r_esp s - 4) 4 (r_esp s) 4" by (simp add: sep_def)
  then have ra: "load32 (mem t) (r_esp s) = load32 (mem s) (r_esp s)"
    using t(2) sv(2) [OF assms(7)] ld(8) [OF assms(6)] unfolding sw by simp
  define t1 where "t1 = save_context c t"
  note sv' = save_context_at(2) [OF assms(10), folded t1_def]
  have "context_at (mem t1) a = cpu_context s"
    unfolding ca [symmetric]
    by (rule same) (intro sv', use sep_sub [OF assms(11), of 0 24 _ 4] sep_sub [OF assms(12), of 0 4 _ 4] in simp_all)
  then have "context_at (mem t1) a = [r_esp s, r_ebp s, r_ebx s, r_esi s, r_edi s, r_eflags s]"
    by (simp add: cpu_context_def)
  from load_context_regs [OF this]
  show ?thesis
    using ra sv' [OF assms(13,14)] by (simp add: u_def switch_to_def t1_def cpu_context_def)
qed

text \<open>
  One time slice: the running thread does anything that leaves the process structures and the
  scheduler's globals alone and ends in a call of \<open>schedule\<close>, with its stack outside all of
  the structures.
\<close>

definition stack_clear :: "u32 list \<Rightarrow> u32 \<Rightarrow> bool" where
  "stack_clear ps e \<longleftrightarrow> (\<forall>p \<in> set ps. sep (e - 4) 4 p area)"

inductive slice :: "u32 list \<Rightarrow> 'a proc_state_scheme \<Rightarrow> 'a proc_state_scheme \<Rightarrow> bool" for ps where
  run: "\<lbrakk>same_sched s t; \<And>p x. p \<in> set ps \<Longrightarrow> unat x + 4 \<le> area \<Longrightarrow>
          load32 (mem t) (p + x) = load32 (mem s) (p + x); stack_clear ps (r_esp t)\<rbrakk>
        \<Longrightarrow> slice ps s (schedule t)"

definition sched_inv :: "u32 list \<Rightarrow> 'a proc_state_scheme \<Rightarrow> bool" where
  "sched_inv ps s \<longleftrightarrow> ring (mem s) (run_head s) ps \<and> areas_apart ps \<and> cur_proc s \<in> set ps \<and> 0 \<notin> set ps \<and>
     (\<forall>p \<in> set ps. p \<noteq> cur_proc s \<longrightarrow> stack_clear ps (load32 (mem s) (p + 16)))"

lemma field_apart:
  assumes "areas_apart ps" "p \<in> set ps" "q \<in> set ps" "p \<noteq> q" "unat y + 4 \<le> area"
  shows "sep (p + 16) 24 (q + y) 4"
  using assms sep_sub [of p area q area 16 24 y 4] by (auto simp: areas_apart_def)

lemma schedule_words:
  assumes inv: "sched_inv ps s" and clear: "stack_clear ps (r_esp s)"
    and q: "load32 (mem s) (p_next (cur_proc s)) = q" "q \<in> set ps" "q \<noteq> cur_proc s" and p: "p \<in> set ps"
  shows "load32 (mem (schedule s)) (p_next p) = load32 (mem s) (p_next p)"
    "load32 (mem (schedule s)) (p + 16) = (if p = cur_proc s then r_esp s else load32 (mem s) (p + 16))"
proof -
  let ?p = "cur_proc s" and ?s = "s\<lparr>cur_proc := q\<rparr>"
  have iv: "areas_apart ps" "?p \<in> set ps" "0 \<notin> set ps" "stack_clear ps (load32 (mem s) (q + 16))"
    using inv q(2,3) by (auto simp: sched_inv_def)
  define s1 where "s1 = save_context (?p + 16) ?s"
  have "sep (r_esp s - 4) 4 (?p + 16) 24"
    using clear iv(2) sep_sub [of "r_esp s - 4" 4 ?p area 0 4 16 24] by (simp add: stack_clear_def)
  then have A: "sep (r_esp ?s - 4) 4 (?p + 16) 24" by simp
  note sv = save_context_at [OF A, folded s1_def]
  have word: "load32 (mem s1) (p + y) = load32 (mem s) (p + y)"
    if "p \<in> set ps" "unat y + 4 \<le> area" "sep (?p + 16) 24 (p + y) 4" for p y
    using sv(2) [OF that(3)] clear that(1,2) sep_sub [of "r_esp s - 4" 4 p area 0 4 y 4]
    by (simp add: stack_clear_def)
  define e1 where "e1 = load32 (mem s) (q + 16)"
  have "load32 (mem s1) (q + 16) = e1"
    using word [of q 16] field_apart [OF iv(1,2) q(2), of 16] q(2,3) by (simp add: e1_def)
  then obtain bp bx si di fl where "context_at (mem s1) (q + 16) = [e1, bp, bx, si, di, fl]"
    by (simp add: context_at_def)
  note ld = load_context_regs(8) [OF this]
  have s': "schedule s = load_context (q + 16) s1"
    using q iv(2,3) by (auto simp: schedule_def change_proc_def p_context_def switch_to_def s1_def Let_def)
  have keep: "load32 (mem (schedule s)) (p + y) = load32 (mem s1) (p + y)" if "unat y + 4 \<le> area" for y
    unfolding s' using ld iv(4) p that sep_sub [of "e1 - 4" 4 p area 0 4 y 4] by (simp add: stack_clear_def e1_def)
  have "sep (?p + 16) 24 (p + 40) 4"
    using field_apart [OF iv(1,2) p, of 40] by (cases "?p = p") simp_all
  then show "load32 (mem (schedule s)) (p_next p) = load32 (mem s) (p_next p)"
    using keep [of 40] word [OF p, of 40] by (simp add: p_next_def)
  show "load32 (mem (schedule s)) (p + 16) = (if p = ?p then r_esp s else load32 (mem s) (p + 16))"
  proof (cases "p = ?p")
    case True
    have "load32 (mem s1) (?p + 16) = r_esp s" using sv(1) by (simp add: context_at_def cpu_context_def)
    then show ?thesis using keep [of 16] True by simp
  next
    case False
    then show ?thesis using keep [of 16] word [OF p, of 16] field_apart [OF iv(1,2) p, of 16] by simp
  qed
qed

lemma schedule_step:
  assumes inv: "sched_inv ps s" and clear: "stack_clear ps (r_esp s)" and i: "i < length ps" "cur_proc s = ps ! i"
  shows "cur_proc (schedule s) = ps ! (Suc i mod length ps)" "sched_inv ps (schedule s)"
proof -
  define q where "q = ps ! (Suc i mod length ps)"
  have iv: "ring (mem s) (run_head s) ps" "areas_apart ps" "cur_proc s \<in> set ps" "0 \<notin> set ps"
      "\<And>p. p \<in> set ps \<Longrightarrow> p \<noteq> cur_proc s \<Longrightarrow> stack_clear ps (load32 (mem s) (p + 16))"
    using inv by (auto simp: sched_inv_def)
  have q: "load32 (mem s) (p_next (cur_proc s)) = q" "q \<in> set ps" "cur_proc s \<noteq> 0"
    using iv(1) i by (auto simp: ring_def q_def) (use iv(3,4) in auto)
  have e: "schedule s = (if cur_proc s = q then s
      else switch_to (cur_proc s + 16) (q + 16) (s\<lparr>cur_proc := q\<rparr>))"
    using q by (simp add: schedule_def change_proc_def p_context_def Let_def)
  show "cur_proc (schedule s) = ps ! (Suc i mod length ps)" using i by (simp add: e q_def)
  show "sched_inv ps (schedule s)"
  proof (cases "cur_proc s = q")
    case False
    note w = schedule_words [OF inv clear q(1,2) not_sym [OF False]]
    have "stack_clear ps (load32 (mem (schedule s)) (p + 16))" if "p \<in> set ps" "p \<noteq> q" for p
      using w(2) [OF that(1)] clear iv(5) [OF that(1)] by simp
    moreover have "run_head (schedule s) = run_head s" "cur_proc (schedule s) = q"
      using False e by simp_all
    ultimately show ?thesis
      using iv q ring_cong [of ps, OF w(1)] by (simp add: sched_inv_def)
  qed (use e inv in simp)
qed

lemma slice_step:
  assumes inv: "sched_inv ps s" and sl: "slice ps s s'" and i: "i < length ps" "cur_proc s = ps ! i"
  shows "cur_proc s' = ps ! (Suc i mod length ps) \<and> sched_inv ps s'"
  using sl
proof (cases rule: slice.cases)
  case (run t)
  then have t: "s' = schedule t" "same_sched s t" "stack_clear ps (r_esp t)"
    and eq: "\<And>p x. p \<in> set ps \<Longrightarrow> unat x + 4 \<le> area \<Longrightarrow> load32 (mem t) (p + x) = load32 (mem s) (p + x)"
    by simp_all
  have "ring (mem t) (run_head s) ps = ring (mem s) (run_head s) ps"
    by (rule ring_cong) (simp add: p_next_def eq)
  moreover have "load32 (mem t) (p + 16) = load32 (mem s) (p + 16)" if "p \<in> set ps" for p
    using eq [OF that, of 16] by simp
  ultimately have "sched_inv ps t"
    using inv t(2) by (auto simp: sched_inv_def same_sched_def)
  moreover have "cur_proc t = ps ! i" using t(2) i by (simp add: same_sched_def)
  ultimately show ?thesis using schedule_step [OF _ t(3) i(1)] t(1) by simp
qed

lemma slices_run:
  assumes "sched_inv ps s" "i < length ps" "cur_proc s = ps ! i" "(slice ps ^^ k) s s'"
  shows "cur_proc s' = ps ! ((i + k) mod length ps) \<and> sched_inv ps s'"
  using assms(4)
proof (induction k arbitrary: s')
  case (Suc k)
  then obtain t where t: "(slice ps ^^ k) s t" "slice ps t s'" by auto
  have "(i + k) mod length ps < length ps" by (rule mod_less_divisor) (use assms(2) in linarith)
  from slice_step [OF _ t(2) this] Suc.IH [OF t(1)]
  show ?case by (simp add: mod_Suc_eq)
qed (use assms in simp)

text \<open>C1: the scheduler is round robin: after \<open>k\<close> time slices the process \<open>k\<close> places further round
  the run list is running, so each process has its turn once in every round, and the run
  list itself stays intact.\<close>

theorem schedule_round_robin:
  assumes "sched_inv ps s" "cur_proc s = ps ! i" "i < length ps" "(slice ps ^^ k) s s'"
  shows "cur_proc s' = ps ! ((i + k) mod length ps) \<and> ring (mem s') (run_head s') ps"
  using slices_run [OF assms(1,3,2,4)] by (simp add: sched_inv_def)


section \<open>Two threads\<close>

text \<open>A concrete run list of two processes at 0xC0200000 and 0xC0300000, the first one running.\<close>

definition two_mem :: memory where
  "two_mem = store32 (store32 (store32 (store32 (store32 (store32 (store32 (\<lambda>_. 0)
     0xC0200028 0xC0300000) 0xC0300028 0xC0200000)
     0xC0300010 0xC0301FF4) 0xC0300024 0x200) 0xC0301FF4 0xC0100000) 0xC0301FF8 0xC0100040) 0xC0301FFC 7"

definition two_threads :: proc_state where
  "two_threads = \<lparr>mem = store32 two_mem 0xC0300000 2, cr3 = 0, ports = [], handlers = (\<lambda>_. None),
     pg_stack = (\<lambda>i. 0x200000 + 4096 * i), pg_top = 8, first = 0, mm_top = 0xE0000000, cur_pid = 2,
     run_head = 0xC0200000, cur_proc = 0xC0200000, r_esp = 0xC0201F00, r_ebp = 1, r_ebx = 2, r_esi = 3,
     r_edi = 4, r_eflags = 0x202, r_eip = 0\<rparr>"

lemma load_zero: "load32 (\<lambda>_. 0) a = 0"
  by (simp add: load32_def)

lemmas two_eval = two_threads_def two_mem_def load32_store32_sep sep_def p_fields load_zero

lemma two_threads_inv: "sched_inv [0xC0200000, 0xC0300000] two_threads"
  by (simp add: sched_inv_def ring_def areas_apart_def stack_clear_def two_eval less_Suc_eq)

theorem fresh_thread_starts_witness:
  "r_eip (switch_to 0xC0200010 0xC0300010 two_threads) = 0xC0100000"
proof -
  have "thread_ready (mem two_threads) 0xC0300000 0xC0100040 0xC0100000 7"
    by (simp add: thread_ready_def two_eval)
  from fresh_thread_starts [OF this, where prev = "0xC0200000"] show ?thesis
    by (simp add: p_context_def sep_def two_threads_def)
qed

theorem schedule_round_robin_witness:
  "\<exists>s'. (slice [0xC0200000, 0xC0300000] ^^ 1) two_threads s' \<and> cur_proc s' = 0xC0300000"
proof -
  have "slice [0xC0200000, 0xC0300000] two_threads (schedule two_threads)"
    by (rule slice.run) (simp_all add: same_sched_def stack_clear_def two_threads_def sep_def)
  then have "(slice [0xC0200000, 0xC0300000] ^^ 1) two_threads (schedule two_threads)" by auto
  with schedule_round_robin [OF two_threads_inv _ _ this, of 0] show ?thesis
    by (auto simp: two_threads_def)
qed

theorem switch_back_witness:
  "cpu_context (switch_to 0xC0300010 0xC0200010 (switch_to 0xC0200010 0xC0300010 two_threads))
     = [0xC0201F04, 1, 2, 3, 4, 0x202]"
proof -
  let ?a = "0xC0200010" and ?b = "0xC0300010"
  let ?t = "switch_to ?a ?b two_threads"
  have c: "context_at (mem two_threads) ?b = [0xC0301FF4, 0, 0, 0, 0, 0x200]"
    by (simp add: context_at_def two_eval)
  have e: "r_esp ?t = 0xC0301FF8"
    by (simp add: switch_to_def load_context_def save_context_def Let_def two_eval)
  have r: "r_esp two_threads = 0xC0201F00" by (simp add: two_threads_def)
  from switch_back [OF _ c _ _ _ _ _ refl refl, of ?a ?b]
  have "cpu_context (switch_to ?b ?a ?t) = (r_esp two_threads + 4) # tl (cpu_context two_threads)"
    by (simp add: sep_def e r)
  then show ?thesis by (simp add: r) (simp add: cpu_context_def two_threads_def)
qed

text \<open>The boot thread alone, and a free heap block of the right size for the next thread.\<close>

definition one_thread :: proc_state where
  "one_thread = two_threads\<lparr>mem := store32 (store32 (\<lambda>_. 0) 0xC0200028 0xC0200000) 0xE0000008 (2 * 8204),
     first := 0xE0000000\<rparr>"

theorem init_thread_appends_witness:
  "\<exists>s'. init_thread 0xC0100000 0xC0100040 0xC0100080 7 one_thread = Inr (2, s') \<and>
     ring (mem s') 0xC0200000 [0xC0200000, 0xE000000C] \<and>
     thread_ready (mem s') 0xE000000C 0xC0100040 0xC0100080 7"
proof -
  have h: "h_used (mem one_thread) 0xE0000000 = 0" "h_length (mem one_thread) 0xE0000000 = 8204"
    by (simp_all add: one_thread_def header_defs)
  have "kmalloc 0xC0100000 STACK_SIZE one_thread
      = Inr (0xE000000C, one_thread\<lparr>mem := set_used 0xE0000000 1 (mem one_thread)\<rparr>)"
    using h by (simp add: kmalloc_def kmalloc_find.simps [of _ _ "0xE0000000"] kmalloc_take_def
        one_thread_def)
  from init_thread_appends [OF this, where ps = "[0xC0200000]" and texit = "0xC0100040" and fn = "0xC0100080" and arg = 7]
  have "\<exists>s'. init_thread 0xC0100000 0xC0100040 0xC0100080 7 one_thread = Inr (cur_pid one_thread, s') \<and>
      ring (mem s') (run_head one_thread) ([0xC0200000] @ [0xE000000C]) \<and>
      thread_ready (mem s') 0xE000000C 0xC0100040 0xC0100080 7"
    by (force simp: one_thread_def two_threads_def ring_def areas_apart_def set_used_def p_next_def
        load32_store32_sep sep_def)
  then show ?thesis by (simp add: one_thread_def two_threads_def)
qed

end
