(* ===== verification/Boot.thy ===== *)
theory Boot
  imports Paging Process
begin

text \<open>
  From the boot loader to \<open>_init\<close>: the entry code of \<open>src/boot.s\<close> and \<open>init_kernel\<close> of \<open>src/init.c\<close>,
  which runs at physical addresses until it switches paging on. Here \<open>mem\<close> is the physical
  memory, and \<open>page_walk\<close> what the processor makes of the tables from then on.
\<close>

section \<open>The code\<close>

abbreviation (input) STACK_TOP :: u32 where "STACK_TOP \<equiv> 1023"
abbreviation (input) pgd_tmp :: u32 where "pgd_tmp \<equiv> 0x1000"
abbreviation (input) pte_low :: u32 where "pte_low \<equiv> 0x2000"
abbreviation (input) pte_high :: u32 where "pte_high \<equiv> 0x3000"

record boot_state = machine +
  cr0 :: u32
  b_esp :: u32
  b_ebp :: u32
  mboot_ptr_tmp :: u32
  glb_mboot_ptr :: u32
  kern_stack_top :: u32

text \<open>\<open>STACK_TOP\<close> is the difference \<open>$-stack-1\<close> of two addresses, not an address.\<close>

definition boot_start :: "u32 \<Rightarrow> 'a boot_state_scheme \<Rightarrow> 'a boot_state_scheme" where
  "boot_start ebx s =
     (let s = s\<lparr>mboot_ptr_tmp := ebx\<rparr>;
          s = s\<lparr>b_esp := STACK_TOP\<rparr>;
          s = s\<lparr>b_esp := b_esp s AND 0xFFFFFFF0\<rparr>
      in s\<lparr>b_ebp := 0\<rparr>)"

text \<open>The two loops over a table.\<close>

primrec fill_table :: "u32 \<Rightarrow> memory \<Rightarrow> u32 \<Rightarrow> nat \<Rightarrow> memory" where
  "fill_table pte m i 0 = m"
| "fill_table pte m i (Suc n) =
     fill_table pte (store32 m (pte + 4 * i) (push_bit 12 i OR PAGE_PRESENT OR PAGE_WRITE)) (i + 1) n"

text \<open>\<open>mboot_ptr_tmp + PAGE_OFFSET\<close> is an addition on \<open>multiboot_t *\<close>: it counts structures of 96 bytes.\<close>

definition init_kernel :: "u32 \<Rightarrow> 'a boot_state_scheme \<Rightarrow> 'a boot_state_scheme" where
  "init_kernel kern_stack s =
     (let m = store32 (mem s) pgd_tmp (pte_low OR PAGE_PRESENT OR PAGE_WRITE);
          m = store32 m (pgd_tmp + 4 * PGD_INDEX PAGE_OFFSET) (pte_high OR PAGE_PRESENT OR PAGE_WRITE);
          m = fill_table pte_low m 0 1024;
          m = fill_table pte_high m 0 1024;
          s = set_cr3 pgd_tmp (s\<lparr>mem := m\<rparr>);
          s = s\<lparr>cr0 := cr0 s OR 0x80000000\<rparr>;
          s = s\<lparr>kern_stack_top := (kern_stack + STACK_SIZE) AND 0xFFFFFFF0\<rparr>;
          s = s\<lparr>b_esp := kern_stack_top s, b_ebp := 0\<rparr>
      in s\<lparr>glb_mboot_ptr := mboot_ptr_tmp s + 96 * PAGE_OFFSET\<rparr>)"

section \<open>What the processor translates\<close>

text \<open>The two-level walk; bit 0 of an entry says that it is present.\<close>

definition page_walk :: "memory \<Rightarrow> u32 \<Rightarrow> u32 \<Rightarrow> u32 option" where
  "page_walk m dir va =
     (let pde = load32 m ((dir AND PAGE_MASK) + 4 * PGD_INDEX va)
      in if \<not> bit pde 0 then None
         else let pte = load32 m ((pde AND PAGE_MASK) + 4 * PTE_INDEX va)
              in if \<not> bit pte 0 then None else Some ((pte AND PAGE_MASK) OR (va AND 0xFFF)))"

lemma fill_table_eq: "fill_table pte m i n = init_pte_loop pte m i n"
  by (induction n arbitrary: m i) simp_all

lemma page_join: "((push_bit 12 (PTE_INDEX va) OR 3) AND PAGE_MASK) OR (va AND 0xFFF) = take_bit 22 va"
proof -
  have m: "PAGE_MASK = NOT (mask 12)" "(0xFFF :: u32) = mask 12" "(0x3FF :: u32) = mask 10" "(3 :: u32) = mask 2"
    by (simp_all add: mask_eq_exp_minus_1)
  show ?thesis
    unfolding PTE_INDEX_def m by (rule bit_word_eqI) (auto simp: bit_simps)
qed

lemma page_walk_table:
  assumes "load32 m ((dir AND PAGE_MASK) + 4 * PGD_INDEX va) = pte OR 3" "pte AND PAGE_MASK = pte"
    and "load32 m (pte + 4 * PTE_INDEX va) = push_bit 12 (PTE_INDEX va) OR 3"
  shows "page_walk m dir va = Some (take_bit 22 va)"
proof -
  have b: "bit (x OR 3) 0" for x :: u32 by (simp add: bit_or_iff)
  have "(pte OR 3) AND PAGE_MASK = pte"
  proof -
    have "(pte OR 3) AND PAGE_MASK = (pte AND PAGE_MASK) OR (3 AND PAGE_MASK)" by (simp only: bit.conj_disj_distrib2)
    then show ?thesis using assms(2) by simp
  qed
  then show ?thesis using assms by (simp add: page_walk_def Let_def b page_join)
qed

lemma init_kernel_tables:
  defines "m \<equiv> \<lambda>s k. mem (init_kernel k s)"
  shows "load32 (m s k) pgd_tmp = pte_low OR 3" "load32 (m s k) (pgd_tmp + 4 * 768) = pte_high OR 3"
    and "i < 1024 \<Longrightarrow> load32 (m s k) (pte_low + 4 * i) = push_bit 12 i OR 3"
    and "i < 1024 \<Longrightarrow> load32 (m s k) (pte_high + 4 * i) = push_bit 12 i OR 3"
proof -
  define m0 where "m0 = store32 (store32 (mem s) 0x1000 0x2003) 0x1C00 0x3003"
  have pi: "PGD_INDEX PAGE_OFFSET = 768" by (simp add: PGD_INDEX_def)
  have m: "m s k = init_pte_loop 0x3000 (init_pte_loop 0x2000 m0 0 1024) 0 1024"
    by (simp add: m_def init_kernel_def Let_def fill_table_eq pi m0_def set_cr3_def)
  have u: "unat (b + 4 * (0 + of_nat j) :: u32) = unat b + 4 * j" if "j < 1024" "unat b \<le> 2 ^ 16" for j b
    using that by (simp add: unat_word_ariths unat_of_nat)
  have other: "load32 (init_pte_loop b x 0 1024) c = load32 x c"
    if "4 dvd unat b" "4 dvd unat c" "unat b \<le> 2 ^ 16" "unat c < unat b \<or> unat b + 4096 \<le> unat c" for b c x
  proof (rule init_pte_loop_other [OF that(1,2)])
    fix j :: nat assume "j < 1024"
    with that(4) u [OF this that(3)] show "c \<noteq> b + 4 * (0 + of_nat j)" by fastforce
  qed
  have at: "load32 (init_pte_loop b x 0 1024) (b + 4 * i) = push_bit 12 i OR 3" if "4 dvd unat b" "i < 1024" for b x i
  proof -
    have "unat i < 1024" using that(2) by (simp add: word_less_nat_alt)
    from init_pte_loop_at [OF that(1) _ this, of x 0] show ?thesis by simp
  qed
  show "load32 (m s k) pgd_tmp = pte_low OR 3" "load32 (m s k) (pgd_tmp + 4 * 768) = pte_high OR 3"
    by (simp_all add: m other m0_def load32_store32_aligned)
  show "i < 1024 \<Longrightarrow> load32 (m s k) (pte_high + 4 * i) = push_bit 12 i OR 3" by (simp add: m at)
  assume i: "i < 1024"
  then have "unat i < 1024" by (simp add: word_less_nat_alt)
  then have ui: "unat (0x2000 + 4 * i) = 0x2000 + 4 * unat i" using u [of "unat i" "0x2000"] by simp
  have "load32 (m s k) (0x2000 + 4 * i) = load32 (init_pte_loop 0x2000 m0 0 1024) (0x2000 + 4 * i)"
    unfolding m by (rule other) (use ui \<open>unat i < 1024\<close> in simp_all)
  then show "load32 (m s k) (pte_low + 4 * i) = push_bit 12 i OR 3" using at i by simp
qed

lemma unat_stack_mask: "unat ((a :: u32) AND 0xFFFFFFF0) = 16 * (unat a div 16)"
proof -
  have m: "0xFFFFFFF0 = NOT (mask 4 :: u32)" by (simp add: mask_eq_exp_minus_1)
  have "a AND 0xFFFFFFF0 = push_bit 4 (drop_bit 4 a)"
    unfolding m by (rule bit_word_eqI) (auto simp: bit_simps)
  moreover have "16 * (unat a div 16) < 4294967296"
    using unat_lt32 [of a] by (metis le_less_trans times_div_less_eq_dividend)
  moreover have "unat (push_bit 4 (drop_bit 4 a)) = take_bit 32 (push_bit 4 (unat (drop_bit 4 a)))"
    by (simp only: unsigned_push_bit_eq) simp
  ultimately show ?thesis
    by (simp only: unat_drop_bit_eq)
      (simp add: push_bit_eq_mult drop_bit_eq_div take_bit_eq_mod mult.commute)
qed

text \<open>C21: when \<open>init_kernel\<close> jumps to \<open>_init\<close>, paging is on and the first 4 MB of memory are visible twice,
  at their own addresses and at \<open>PAGE_OFFSET\<close>; the stack pointer is 16-byte aligned at the top of
  \<open>kern_stack\<close>. The pointer to the multiboot structure is not moved to the window as it is meant
  to be: \<open>PAGE_OFFSET\<close> structures are a multiple of 4 GB, so it stays the low address.\<close>

theorem init_kernel_windows:
  assumes "s' = init_kernel kern_stack s"
  shows "bit (cr0 s') 31 \<and>
    (va < 0x400000 \<longrightarrow> page_walk (mem s') (cr3 s') va = Some va) \<and>
    (PAGE_OFFSET \<le> va \<and> va < PAGE_OFFSET + 0x400000 \<longrightarrow> page_walk (mem s') (cr3 s') va = Some (va - PAGE_OFFSET)) \<and>
    16 dvd unat (b_esp s') \<and> b_esp s' = kern_stack_top s' \<and> kern_stack + STACK_SIZE - b_esp s' < 16 \<and>
    glb_mboot_ptr s' = mboot_ptr_tmp s"
proof -
  note tab = init_kernel_tables [where s = s and k = kern_stack, folded assms]
  have c: "cr3 s' = 0x1000" by (simp add: assms init_kernel_def Let_def set_cr3_def)
  have low: "page_walk (mem s') (cr3 s') va = Some va" if v: "va < 0x400000"
  proof -
    have "unat va < 4194304" using v by (simp add: word_less_nat_alt)
    then have "PGD_INDEX va = 0" "take_bit 22 va = va"
      by (simp_all add: word_unat_eq_iff unat_PGD_INDEX unsigned_take_bit_eq take_bit_nat_def)
    with page_walk_table [of "mem s'" "cr3 s'" va "0x2000"] tab(1) tab(3) [of "PTE_INDEX va"] show ?thesis by (simp add: c)
  qed
  have high: "page_walk (mem s') (cr3 s') va = Some (va - PAGE_OFFSET)" if v: "PAGE_OFFSET \<le> va" "va < PAGE_OFFSET + 0x400000"
  proof -
    have n: "3221225472 \<le> unat va" "unat va < 3225419776" using v by (simp_all add: word_le_nat_alt word_less_nat_alt)
    have "unat (va - PAGE_OFFSET) = unat va - 3221225472" using n by (simp add: unat_sub_if')
    moreover have "unat va mod 4194304 = unat va - 3221225472"
    proof -
      have "unat va = (unat va - 3221225472) + 768 * 4194304" "unat va - 3221225472 < 4194304" using n by simp_all
      then show ?thesis by (metis mod_less mod_mult_self1)
    qed
    ultimately have t: "take_bit 22 va = va - PAGE_OFFSET"
      by (simp add: word_unat_eq_iff unsigned_take_bit_eq take_bit_nat_def)
    have "unat va div 4194304 = 768" using n by linarith
    then have "PGD_INDEX va = 768" by (simp add: word_unat_eq_iff unat_PGD_INDEX)
    with page_walk_table [of "mem s'" "cr3 s'" va "0x3000"] tab(2) tab(4) [of "PTE_INDEX va"] t show ?thesis by (simp add: c)
  qed
  define a where "a = kern_stack + STACK_SIZE"
  have e: "b_esp s' = a AND 0xFFFFFFF0" "kern_stack_top s' = a AND 0xFFFFFFF0"
    by (simp_all add: assms init_kernel_def Let_def set_cr3_def a_def)
  have u: "unat (a AND 0xFFFFFFF0) = 16 * (unat a div 16)"
    by (rule unat_stack_mask)
  then have "a AND 0xFFFFFFF0 \<le> a" by (simp add: word_le_nat_alt)
  then have "unat (a - (a AND 0xFFFFFFF0)) = unat a - 16 * (unat a div 16)" using u by (simp add: unat_sub)
  then have "a - (a AND 0xFFFFFFF0) < 16" by (simp add: word_less_nat_alt minus_mult_div_eq_mod)
  moreover have "16 dvd unat (a AND 0xFFFFFFF0)" by (simp add: u)
  moreover have "bit (cr0 s') 31" "glb_mboot_ptr s' = mboot_ptr_tmp s"
  proof -
    have "bit (0x80000000 :: u32) 31" by simp
    then show "bit (cr0 s') 31" by (simp add: assms init_kernel_def Let_def set_cr3_def bit_or_iff)
    show "glb_mboot_ptr s' = mboot_ptr_tmp s" by (simp add: assms init_kernel_def Let_def set_cr3_def)
  qed
  ultimately show ?thesis using low high by (simp only: e a_def) simp
qed

definition loaded :: boot_state where
  "loaded = \<lparr>mem = (\<lambda>_. 0), cr3 = 0, ports = [], handlers = (\<lambda>_. None), cr0 = 0x11, b_esp = 0, b_ebp = 0,
     mboot_ptr_tmp = 0, glb_mboot_ptr = 0, kern_stack_top = 0\<rparr>"

theorem init_kernel_windows_witness:
  "let s = init_kernel 0xC0120008 (boot_start 0x9500 loaded)
   in page_walk (mem s) (cr3 s) 0xC00B8000 = Some 0xB8000 \<and> page_walk (mem s) (cr3 s) 0x9500 = Some 0x9500 \<and>
     glb_mboot_ptr s = 0x9500"
  using init_kernel_windows [OF refl, where va = "0xC00B8000" and kern_stack = "0xC0120008" and s = "boot_start 0x9500 loaded"]
    init_kernel_windows [OF refl, where va = "0x9500" and kern_stack = "0xC0120008" and s = "boot_start 0x9500 loaded"]
  by (simp add: Let_def boot_start_def)

end
