(* ===== verification/Gdt.thy ===== *)
theory Gdt
  imports Machine
begin

text \<open>
  The segment descriptors of \<open>src/gdt.c\<close> and the load of the descriptor table register in
  \<open>src/gdt_s.s\<close>. The table has the fields of \<open>gdt_struct\<close>; what the processor reads out of
  them is \<open>descriptor_base\<close> and \<open>descriptor_limit\<close>.
\<close>

section \<open>State\<close>

record gdt_entry =
  limit_low :: u16
  base_low :: u16
  base_middle :: u8
  access :: u8
  granularity :: u8
  base_high :: u8

record gdtr =
  limit :: u16
  base :: u32

abbreviation (input) GDT_LENGTH :: nat where "GDT_LENGTH \<equiv> 5"

text \<open>
  \<open>gdt\<close> and \<open>gdtr\<close> are the variables of the file, \<open>cpu_gdtr\<close> and the selectors the registers
  of the processor.
\<close>

record gdt_state = machine +
  gdt :: "gdt_entry list"
  gdtr_var :: gdtr
  cpu_gdtr :: gdtr
  cs :: u16
  ds :: u16
  es :: u16
  fs :: u16
  gs :: u16
  ss :: u16

section \<open>Operations\<close>

definition set_entry :: "u32 \<Rightarrow> u32 \<Rightarrow> u8 \<Rightarrow> u8 \<Rightarrow> gdt_entry \<Rightarrow> gdt_entry" where
  "set_entry b l acc gran e =
     (let e = e\<lparr>base_low := ucast (b AND 0xFFFF)\<rparr>;
          e = e\<lparr>base_middle := ucast (drop_bit 16 b AND 0xFF)\<rparr>;
          e = e\<lparr>base_high := ucast (drop_bit 24 b AND 0xFF)\<rparr>;
          e = e\<lparr>limit_low := ucast (l AND 0xFFFF)\<rparr>;
          e = e\<lparr>granularity := ucast (drop_bit 16 l AND 0x0F)\<rparr>;
          e = e\<lparr>granularity := granularity e OR (gran AND 0xF0)\<rparr>
      in e\<lparr>access := acc\<rparr>)"

definition setGdt :: "nat \<Rightarrow> u32 \<Rightarrow> u32 \<Rightarrow> u8 \<Rightarrow> u8 \<Rightarrow> 'a gdt_state_scheme \<Rightarrow> 'a gdt_state_scheme" where
  "setGdt num b l acc gran s = s\<lparr>gdt := (gdt s)[num := set_entry b l acc gran (gdt s ! num)]\<rparr>"

text \<open>\<open>gdt_to_gdtr\<close>: \<open>lgdt\<close>, the data segment registers, and the far jump that loads \<open>cs\<close>.\<close>

definition gdt_to_gdtr :: "gdtr \<Rightarrow> 'a gdt_state_scheme \<Rightarrow> 'a gdt_state_scheme" where
  "gdt_to_gdtr r s = s\<lparr>cpu_gdtr := r, ds := 0x10, es := 0x10, fs := 0x10, gs := 0x10, ss := 0x10, cs := 0x08\<rparr>"

text \<open>\<open>sizeof(gdtr)\<close> is 6: the structure is packed. \<open>gdt_addr\<close> is the link-time address of \<open>gdt\<close>.\<close>

definition init_gdt :: "u32 \<Rightarrow> 'a gdt_state_scheme \<Rightarrow> 'a gdt_state_scheme" where
  "init_gdt gdt_addr s =
     (let s = s\<lparr>gdtr_var := (gdtr_var s)\<lparr>limit := 6 * of_nat GDT_LENGTH - 1\<rparr>\<rparr>;
          s = s\<lparr>gdtr_var := (gdtr_var s)\<lparr>base := gdt_addr\<rparr>\<rparr>;
          s = setGdt 0 0 0 0 0 s;
          s = setGdt 1 0 0xFFFFFFFF 0x9A 0xCF s;
          s = setGdt 2 0 0xFFFFFFFF 0x92 0xCF s;
          s = setGdt 3 0 0xFFFFFFFF 0xFA 0xCF s;
          s = setGdt 4 0 0xFFFFFFFF 0xF2 0xCF s
      in gdt_to_gdtr (gdtr_var s) s)"

section \<open>What the processor makes of a descriptor\<close>

definition descriptor_base :: "gdt_entry \<Rightarrow> u32" where
  "descriptor_base e =
     ucast (base_low e) OR push_bit 16 (ucast (base_middle e)) OR push_bit 24 (ucast (base_high e))"

definition descriptor_limit :: "gdt_entry \<Rightarrow> u32" where
  "descriptor_limit e =
     (let l = ucast (limit_low e) OR push_bit 16 (ucast (granularity e AND 0x0F))
      in if granularity e AND 0x80 \<noteq> 0 then push_bit 12 l OR 0xFFF else l)"

text \<open>A selector can be loaded when its descriptor lies within the table limit.\<close>

definition selector_ok :: "gdtr \<Rightarrow> u16 \<Rightarrow> bool" where
  "selector_ok r sel \<longleftrightarrow> unat sel div 8 * 8 + 7 \<le> unat (limit r)"


lemma low_masks:
  "x AND 0xFFFF = take_bit 16 (x :: u32)" "x AND 0xFF = take_bit 8 (x :: u32)" "x AND 0x0F = take_bit 4 (x :: u32)"
  "y AND 0x0F = take_bit 4 (y :: u8)"
  by (simp_all add: take_bit_eq_mask mask_eq_exp_minus_1)

lemma descriptor_base_set: "descriptor_base (set_entry b l acc gran e) = b"
proof (rule bit_word_eqI)
  fix n assume "n < LENGTH(32)"
  then consider "n < 16" | "16 \<le> n" "n < 24" | "24 \<le> n" "n < 32" by fastforce
  then show "bit (descriptor_base (set_entry b l acc gran e)) n = bit b n"
    by cases (auto simp: descriptor_base_def set_entry_def low_masks bit_simps)
qed

lemma hi_nibble: "(gran AND 0xF0) AND 0x80 = gran AND (0x80 :: u8)" "take_bit 4 (gran AND 0xF0 :: u8) = 0"
proof -
  have "(0xF0 :: u8) AND 0x80 = 0x80" by simp
  then show "(gran AND 0xF0) AND 0x80 = gran AND (0x80 :: u8)" by (simp only: and.assoc)
  have "(0xF0 :: u8) AND 0x0F = 0" by simp
  then show "take_bit 4 (gran AND 0xF0 :: u8) = 0"
    by (simp only: low_masks(4) [symmetric] and.assoc) simp
qed

lemma low_nibble: "take_bit 4 x AND (0x80 :: u8) = 0"
proof -
  have "(0x0F :: u8) AND 0x80 = 0" by simp
  then show ?thesis by (simp only: low_masks(4) [symmetric] and.assoc) simp
qed

lemma granularity_set:
  "granularity (set_entry b l acc gran e) AND 0x80 = gran AND 0x80"
  "take_bit 4 (granularity (set_entry b l acc gran e)) = ucast (take_bit 4 (drop_bit 16 l))"
  "access (set_entry b l acc gran e) = acc"
proof -
  have u: "(ucast (take_bit 4 (x :: u32)) :: u8) = take_bit 4 (ucast x)" for x
    by (rule bit_word_eqI) (auto simp: bit_simps)
  have g: "granularity (set_entry b l acc gran e) = take_bit 4 (ucast (drop_bit 16 l)) OR (gran AND 0xF0)"
    by (simp add: set_entry_def low_masks u)
  show "granularity (set_entry b l acc gran e) AND 0x80 = gran AND 0x80"
    unfolding g by (simp only: bit.conj_disj_distrib2 low_nibble hi_nibble) simp
  show "take_bit 4 (granularity (set_entry b l acc gran e)) = ucast (take_bit 4 (drop_bit 16 l))"
    unfolding g u by (simp add: hi_nibble)
  show "access (set_entry b l acc gran e) = acc" by (simp add: set_entry_def)
qed

lemma descriptor_limit_set:
  "descriptor_limit (set_entry b l acc gran e) =
     (if gran AND 0x80 \<noteq> 0 then push_bit 12 (take_bit 20 l) OR 0xFFF else take_bit 20 l)"
proof -
  have ll: "limit_low (set_entry b l acc gran e) = ucast (take_bit 16 l)"
    by (simp add: set_entry_def low_masks)
  have "ucast (ucast (take_bit 16 l) :: u16) OR push_bit 16 (ucast (ucast (take_bit 4 (drop_bit 16 l)) :: u8)) = (take_bit 20 l :: u32)"
  proof (rule bit_word_eqI)
    fix n assume "n < LENGTH(32)"
    then consider "n < 16" | "16 \<le> n" "n < 20" | "20 \<le> n" "n < 32" by fastforce
    then show "bit (ucast (ucast (take_bit 16 l) :: u16) OR push_bit 16 (ucast (ucast (take_bit 4 (drop_bit 16 l)) :: u8)) :: u32) n
        = bit (take_bit 20 l) n"
      by cases (auto simp: bit_simps)
  qed
  then show ?thesis
    unfolding descriptor_limit_def Let_def low_masks(4) ll granularity_set by simp
qed

text \<open>A descriptor keeps its base address whole and its limit to 20 bits, counted in pages when
  the granularity bit is set, whatever the entry held before.\<close>

theorem descriptor_fields:
  "descriptor_base (set_entry b l acc gran e) = b \<and> access (set_entry b l acc gran e) = acc \<and>
   descriptor_limit (set_entry b l acc gran e) =
     (if gran AND 0x80 = 0 then take_bit 20 l else push_bit 12 (take_bit 20 l) OR 0xFFF)"
  by (simp add: descriptor_base_set descriptor_limit_set granularity_set)

text \<open>C33: after \<open>init_gdt\<close> the processor runs on flat 4 GB code and data segments at ring 0. The
  table limit counts \<open>sizeof(gdtr)\<close> for each entry instead of \<open>sizeof(gdt_t)\<close>, so the two user
  descriptors, although filled in, lie behind it and cannot be loaded.\<close>

theorem init_gdt_segments:
  assumes "length (gdt s) = GDT_LENGTH"
  shows "cs (init_gdt a s) = 0x08 \<and> {ds (init_gdt a s), es (init_gdt a s), fs (init_gdt a s), gs (init_gdt a s), ss (init_gdt a s)} = {0x10} \<and>
    base (cpu_gdtr (init_gdt a s)) = a \<and>
    selector_ok (cpu_gdtr (init_gdt a s)) 0x08 \<and> selector_ok (cpu_gdtr (init_gdt a s)) 0x10 \<and>
    (\<forall>i \<in> {1, 2, 3, 4}. descriptor_base (gdt (init_gdt a s) ! i) = 0 \<and> descriptor_limit (gdt (init_gdt a s) ! i) = 0xFFFFFFFF) \<and>
    map access (gdt (init_gdt a s)) = [0, 0x9A, 0x92, 0xFA, 0xF2] \<and>
    \<not> selector_ok (cpu_gdtr (init_gdt a s)) 0x18 \<and> \<not> selector_ok (cpu_gdtr (init_gdt a s)) 0x20"
proof -
  let ?s = "init_gdt a s"
  obtain e0 e1 e2 e3 e4 where g: "gdt s = [e0, e1, e2, e3, e4]"
    using assms by (auto simp: length_Suc_conv eval_nat_numeral)
  have gdt: "gdt ?s = [set_entry 0 0 0 0 e0, set_entry 0 0xFFFFFFFF 0x9A 0xCF e1,
      set_entry 0 0xFFFFFFFF 0x92 0xCF e2, set_entry 0 0xFFFFFFFF 0xFA 0xCF e3, set_entry 0 0xFFFFFFFF 0xF2 0xCF e4]"
    by (simp add: init_gdt_def setGdt_def gdt_to_gdtr_def g Let_def)
  have gdtr: "cpu_gdtr ?s = \<lparr>limit = 29, base = a\<rparr>"
    by (cases "gdtr_var s") (simp add: init_gdt_def setGdt_def gdt_to_gdtr_def Let_def)
  have regs: "cs ?s = 0x08" "{ds ?s, es ?s, fs ?s, gs ?s, ss ?s} = {0x10}"
    by (simp_all add: init_gdt_def gdt_to_gdtr_def Let_def)
  have "push_bit 12 (take_bit 20 0xFFFFFFFF) OR 0xFFF = (0xFFFFFFFF :: u32)"
    by (simp add: take_bit_eq_mask mask_eq_exp_minus_1 push_bit_eq_mult)
  then have "descriptor_base (gdt ?s ! i) = 0 \<and> descriptor_limit (gdt ?s ! i) = 0xFFFFFFFF" if "i \<in> {1, 2, 3, 4}" for i
    using that unfolding gdt by (auto simp: descriptor_base_set descriptor_limit_set)
  moreover have "map access (gdt ?s) = [0, 0x9A, 0x92, 0xFA, 0xF2]" unfolding gdt by (simp add: granularity_set)
  moreover have "selector_ok (cpu_gdtr ?s) 0x08" "selector_ok (cpu_gdtr ?s) 0x10"
      "\<not> selector_ok (cpu_gdtr ?s) 0x18" "\<not> selector_ok (cpu_gdtr ?s) 0x20"
    unfolding gdtr by (simp_all add: selector_ok_def)
  ultimately show ?thesis using regs gdtr by simp
qed

definition blank_gdt :: gdt_state where
  "blank_gdt = \<lparr>mem = (\<lambda>_. 0), cr3 = 0, ports = [], handlers = (\<lambda>_. None),
     gdt = replicate 5 \<lparr>limit_low = 0, base_low = 0, base_middle = 0, access = 0, granularity = 0, base_high = 0\<rparr>,
     gdtr_var = \<lparr>limit = 0, base = 0\<rparr>, cpu_gdtr = \<lparr>limit = 0, base = 0\<rparr>,
     cs = 0, ds = 0, es = 0, fs = 0, gs = 0, ss = 0\<rparr>"

theorem init_gdt_segments_witness: "\<not> selector_ok (cpu_gdtr (init_gdt 0x1000 blank_gdt)) 0x18"
  using init_gdt_segments [of blank_gdt "0x1000"] by (simp add: blank_gdt_def)

end
