(* ===== verification/Monitor.thy ===== *)
theory Monitor
  imports Machine CString
begin

text \<open>
  The text console of \<open>src/monitor.c\<close>: the 80 by 25 cells of the VGA text buffer, 16 bits each,
  at physical 0xB8000 seen through the kernel window, and the cursor, two bytes of state. First
  the code as written, then an abstract screen (\<open>screen\<close>) that it refines.
\<close>

section \<open>The code\<close>

abbreviation (input) video_memory :: u32 where "video_memory \<equiv> 0xB8000 + 0xC0000000"

record console = machine +
  cursor_x :: u8
  cursor_y :: u8

definition load16 :: "memory \<Rightarrow> u32 \<Rightarrow> u16" where
  "load16 m a = ucast (m a) OR push_bit 8 (ucast (m (a + 1)))"

text \<open>\<open>video_memory[i]\<close>, read and written.\<close>

definition cell :: "memory \<Rightarrow> nat \<Rightarrow> u16" where
  "cell m i = load16 m (video_memory + 2 * of_nat i)"

definition set_cell :: "nat \<Rightarrow> u16 \<Rightarrow> memory \<Rightarrow> memory" where
  "set_cell i v m = store16 m (video_memory + 2 * of_nat i) v"

definition move_cursor :: "'a console_scheme \<Rightarrow> 'a console_scheme" where
  "move_cursor s =
     (let cursorLocation = ucast (cursor_y s) * 80 + ucast (cursor_x s) :: u16
      in outb 0x3D5 (ucast cursorLocation) (outb 0x3D4 15
           (outb 0x3D5 (ucast (drop_bit 8 cursorLocation)) (outb 0x3D4 14 s))))"

definition blank :: u16 where
  "blank = (let attribute_byte = push_bit 4 0 OR (15 AND 0x0F) :: u16 in 0x20 OR push_bit 8 attribute_byte)"

primrec scroll_copy :: "nat \<Rightarrow> nat \<Rightarrow> memory \<Rightarrow> memory" where
  "scroll_copy i 0 m = m"
| "scroll_copy i (Suc n) m = scroll_copy (i + 1) n (set_cell i (cell m (i + 80)) m)"

primrec fill_cells :: "nat \<Rightarrow> nat \<Rightarrow> memory \<Rightarrow> memory" where
  "fill_cells i 0 m = m"
| "fill_cells i (Suc n) m = fill_cells (i + 1) n (set_cell i blank m)"

definition screen_scroll :: "'a console_scheme \<Rightarrow> 'a console_scheme" where
  "screen_scroll s =
     (if cursor_y s \<ge> 25
      then s\<lparr>mem := fill_cells (24 * 80) (25 * 80 - 24 * 80) (scroll_copy (0 * 80) (24 * 80) (mem s)),
             cursor_y := 24\<rparr>
      else s)"

definition monitor_clear :: "'a console_scheme \<Rightarrow> 'a console_scheme" where
  "monitor_clear s = move_cursor (s\<lparr>mem := fill_cells 0 (80 * 25) (mem s), cursor_x := 0, cursor_y := 0\<rparr>)"

text \<open>\<open>char\<close> is signed: \<open>c >= ' '\<close> holds of the codes 0x20 to 0x7F only.\<close>

definition monitor_putc_color :: "u8 \<Rightarrow> u32 \<Rightarrow> u32 \<Rightarrow> 'a console_scheme \<Rightarrow> 'a console_scheme" where
  "monitor_putc_color c back fore s =
     (let back_color = ucast back :: u8; fore_color = ucast fore :: u8;
          attribute_byte = push_bit 4 back_color OR (fore_color AND 0x0F);
          attribute = push_bit 8 (ucast attribute_byte) :: u16;
          s = (if c = 0x08 \<and> cursor_x s \<noteq> 0 then s\<lparr>cursor_x := cursor_x s - 1\<rparr>
               else if c = 0x09 then s\<lparr>cursor_x := (cursor_x s + 8) AND NOT 7\<rparr>
               else if c = 13 then s\<lparr>cursor_x := 0\<rparr>
               else if c = 10 then s\<lparr>cursor_x := 0, cursor_y := cursor_y s + 1\<rparr>
               else if sint c \<ge> 32 then
                 s\<lparr>mem := set_cell (unat (cursor_y s) * 80 + unat (cursor_x s)) (ucast c OR attribute) (mem s),
                   cursor_x := cursor_x s + 1\<rparr>
               else s);
          s = (if cursor_x s \<ge> 80 then s\<lparr>cursor_x := 0, cursor_y := cursor_y s + 1\<rparr> else s)
      in move_cursor (screen_scroll s))"

text \<open>
  The printing loops end at a NUL byte; without one they do not end, hence \<open>option\<close>. The string
  is read from memory while the console is written to.
\<close>

partial_function (option) monitor_write_color ::
    "u32 \<Rightarrow> u32 \<Rightarrow> u32 \<Rightarrow> 'a console_scheme \<Rightarrow> 'a console_scheme option" where
  "monitor_write_color str back fore s =
     (if mem s str \<noteq> 0
      then monitor_write_color (str + 1) back fore (monitor_putc_color (mem s str) back fore s)
      else Some s)"

definition monitor_write :: "u32 \<Rightarrow> 'a console_scheme \<Rightarrow> 'a console_scheme option" where
  "monitor_write str s = monitor_write_color str 0 15 s"

text \<open>The same loop over a local array, which is not part of the memory modelled here.\<close>

partial_function (option) write_local ::
    "(nat \<Rightarrow> u8) \<Rightarrow> nat \<Rightarrow> u32 \<Rightarrow> u32 \<Rightarrow> 'a console_scheme \<Rightarrow> 'a console_scheme option" where
  "write_local str i back fore s =
     (if str i \<noteq> 0 then write_local str (i + 1) back fore (monitor_putc_color (str i) back fore s)
      else Some s)"

text \<open>\<open>i\<close> runs through 28, 24, ..., 0; \<open>k\<close> is \<open>i div 4 + 1\<close>.\<close>

primrec write_hex_loop :: "u32 \<Rightarrow> bool \<Rightarrow> u32 \<Rightarrow> u32 \<Rightarrow> nat \<Rightarrow> 'a console_scheme \<Rightarrow> 'a console_scheme" where
  "write_hex_loop n noZeroes back fore 0 s = s"
| "write_hex_loop n noZeroes back fore (Suc k) s =
     (let i = 4 * k; tmp = drop_bit i n AND 0xF
      in if tmp = 0 \<and> noZeroes then write_hex_loop n noZeroes back fore k s
         else write_hex_loop n False back fore k
           (if tmp \<ge> 0xA then monitor_putc_color (ucast (tmp - 0xA + 97)) back fore s
            else monitor_putc_color (ucast (tmp + 48)) back fore s))"

definition monitor_write_hex :: "u32 \<Rightarrow> u32 \<Rightarrow> u32 \<Rightarrow> 'a console_scheme \<Rightarrow> 'a console_scheme" where
  "monitor_write_hex n back fore s =
     (let s = foldl (\<lambda>s c. monitor_putc_color c back fore s) s [48, 120]
      in write_hex_loop n True back fore 8 s)"

text \<open>
  \<open>monitor_write_dec\<close> fills the local \<open>c\<close> with the digits from the lowest, and \<open>c2\<close> from \<open>c\<close> in
  reverse. \<open>c\<close> and \<open>c2\<close> start with whatever the stack held.
\<close>

function dec_digits :: "u32 \<Rightarrow> nat \<Rightarrow> (nat \<Rightarrow> u8) \<Rightarrow> nat \<times> (nat \<Rightarrow> u8)" where
  "dec_digits acc i c =
     (if acc > 0 then dec_digits (acc div 10) (i + 1) (c(i := ucast (48 + acc mod 10))) else (i, c))"
  by pat_completeness auto
termination
  by (relation "measure (\<lambda>(acc, i, c). unat acc)") (auto simp: unat_div word_gt_0 unat_gt_0)

declare dec_digits.simps [simp del]

primrec reverse_digits :: "nat \<Rightarrow> nat \<Rightarrow> (nat \<Rightarrow> u8) \<Rightarrow> (nat \<Rightarrow> u8) \<Rightarrow> (nat \<Rightarrow> u8)" where
  "reverse_digits 0 j c c2 = c2"
| "reverse_digits (Suc i) j c c2 = reverse_digits i (j + 1) c (c2(i := c j))"

definition monitor_write_dec ::
    "(nat \<Rightarrow> u8) \<Rightarrow> (nat \<Rightarrow> u8) \<Rightarrow> u32 \<Rightarrow> u32 \<Rightarrow> u32 \<Rightarrow> 'a console_scheme \<Rightarrow> 'a console_scheme option" where
  "monitor_write_dec c0 c20 n back fore s =
     (if n = 0 then Some (monitor_putc_color 48 back fore s)
      else let (i, c) = dec_digits n 0 c0;
               c = c(i := 0);
               c2 = c20(i := 0);
               c2 = reverse_digits i 0 c c2
           in write_local c2 0 back fore s)"

section \<open>Cells\<close>

lemma load16_store16 [simp]: "load16 (store16 m a v) a = v"
  unfolding load16_def store16_def
  by (rule bit_word_eqI) (auto simp: bit_simps)

lemma load16_store16_other:
  "a \<noteq> b \<Longrightarrow> a + 1 \<noteq> b \<Longrightarrow> a \<noteq> b + 1 \<Longrightarrow> load16 (store16 m a v) b = load16 m b"
  by (simp add: load16_def store16_def)

lemma cell_addr:
  assumes "i < 2000" shows "unat (video_memory + 2 * of_nat i) = unat video_memory + 2 * i"
proof -
  have "unat (2 * of_nat i :: u32) = 2 * i" using assms by (simp add: unat_word_ariths unat_of_nat)
  then show ?thesis using assms by (simp add: unat_plus_if')
qed

lemma unat_succ: "unat (a :: u32) + 1 < 2 ^ 32 \<Longrightarrow> unat (a + 1) = unat a + 1"
  by (simp add: unat_plus_if')

lemma cell_set_cell:
  assumes "i < 2000" "j < 2000"
  shows "cell (set_cell i v m) j = (if i = j then v else cell m j)"
proof (cases "i = j")
  case False
  define a b where "a = video_memory + 2 * of_nat i" and "b = video_memory + 2 * of_nat j"
  have u: "unat a = 3221979136 + 2 * i" "unat b = 3221979136 + 2 * j"
    using cell_addr [OF assms(1)] cell_addr [OF assms(2)] by (simp_all add: a_def b_def)
  have s: "unat (a + 1) = unat a + 1" "unat (b + 1) = unat b + 1"
    using u assms by (simp_all add: unat_succ)
  have "unat a \<noteq> unat b" "unat (a + 1) \<noteq> unat b" "unat a \<noteq> unat (b + 1)"
    unfolding s u using False by presburger+
  then have "a \<noteq> b" "a + 1 \<noteq> b" "a \<noteq> b + 1" by metis+
  from load16_store16_other [OF this] show ?thesis
    using False by (simp add: cell_def set_cell_def a_def b_def)
qed (simp add: cell_def set_cell_def)

text \<open>Nothing outside the text buffer is written.\<close>

definition in_video :: "u32 \<Rightarrow> bool" where
  "in_video x \<longleftrightarrow> video_memory \<le> x \<and> x < video_memory + 4000"

lemma set_cell_outside:
  assumes "i < 2000" "\<not> in_video x" shows "set_cell i v m x = m x"
proof -
  define a where "a = video_memory + 2 * of_nat i"
  have u: "unat a = 3221979136 + 2 * i" using cell_addr [OF assms(1)] by (simp add: a_def)
  then have "unat (a + 1) = unat a + 1" using assms(1) by (simp add: unat_succ)
  then have "in_video a" "in_video (a + 1)"
    using u assms(1) by (simp_all add: in_video_def word_le_nat_alt word_less_nat_alt)
  then have "x \<noteq> a" "x \<noteq> a + 1" using assms(2) by metis+
  then show ?thesis by (simp add: set_cell_def store16_def a_def)
qed

lemma scroll_copy_spec:
  "i + n \<le> 1920 \<Longrightarrow> j < 2000 \<Longrightarrow>
     cell (scroll_copy i n m) j = (if i \<le> j \<and> j < i + n then cell m (j + 80) else cell m j)"
proof (induction n arbitrary: i m)
  case (Suc n)
  then show ?case by (auto simp: cell_set_cell)
qed auto

lemma fill_cells_spec:
  "i + n \<le> 2000 \<Longrightarrow> j < 2000 \<Longrightarrow>
     cell (fill_cells i n m) j = (if i \<le> j \<and> j < i + n then blank else cell m j)"
proof (induction n arbitrary: i m)
  case (Suc n)
  then show ?case by (auto simp: cell_set_cell)
qed auto

lemma scroll_copy_outside: "i + n \<le> 2000 \<Longrightarrow> \<not> in_video x \<Longrightarrow> scroll_copy i n m x = m x"
  by (induction n arbitrary: i m) (auto simp: set_cell_outside)

lemma fill_cells_outside: "i + n \<le> 2000 \<Longrightarrow> \<not> in_video x \<Longrightarrow> fill_cells i n m x = m x"
  by (induction n arbitrary: i m) (auto simp: set_cell_outside)

section \<open>The abstract screen\<close>

record screen =
  grid :: "u16 list"
  col :: nat
  row :: nat

definition screen_of :: "'a console_scheme \<Rightarrow> screen" where
  "screen_of s = \<lparr>grid = map (cell (mem s)) [0..<2000], col = unat (cursor_x s), row = unat (cursor_y s)\<rparr>"

definition cursor_ok :: "'a console_scheme \<Rightarrow> bool" where
  "cursor_ok s \<longleftrightarrow> cursor_x s < 80 \<and> cursor_y s < 25"

text \<open>Going down a line; on the last line everything moves up instead.\<close>

definition next_line :: "screen \<Rightarrow> screen" where
  "next_line z = (if row z < 24 then z\<lparr>row := row z + 1\<rparr>
     else z\<lparr>grid := drop 80 (grid z) @ replicate 80 blank\<rparr>)"

definition advance :: "nat \<Rightarrow> screen \<Rightarrow> screen" where
  "advance k z = (if k < 80 then z\<lparr>col := k\<rparr> else next_line (z\<lparr>col := 0\<rparr>))"

definition attr :: "u32 \<Rightarrow> u32 \<Rightarrow> u16" where
  "attr back fore = push_bit 8 (ucast (push_bit 4 (ucast back :: u8) OR (ucast fore AND 0x0F)))"

definition screen_put :: "u16 \<Rightarrow> u8 \<Rightarrow> screen \<Rightarrow> screen" where
  "screen_put a c z =
     (if c = 8 then (if col z = 0 then z else z\<lparr>col := col z - 1\<rparr>)
      else if c = 9 then advance ((col z div 8 + 1) * 8) z
      else if c = 13 then z\<lparr>col := 0\<rparr>
      else if c = 10 then next_line (z\<lparr>col := 0\<rparr>)
      else if 32 \<le> unat c \<and> unat c < 128
        then advance (col z + 1) (z\<lparr>grid := (grid z)[row z * 80 + col z := ucast c OR a]\<rparr>)
      else z)"

lemma screen_of_simps [simp]:
  "col (screen_of s) = unat (cursor_x s)" "row (screen_of s) = unat (cursor_y s)"
  "length (grid (screen_of s)) = 2000" "j < 2000 \<Longrightarrow> grid (screen_of s) ! j = cell (mem s) j"
  by (simp_all add: screen_of_def)

lemma move_cursor_frames [simp]:
  "mem (move_cursor s) = mem s" "cursor_x (move_cursor s) = cursor_x s" "cursor_y (move_cursor s) = cursor_y s"
  "screen_of (move_cursor s) = screen_of s" "cursor_ok (move_cursor s) = cursor_ok s"
  by (simp_all add: move_cursor_def outb_def Let_def screen_of_def cursor_ok_def)

lemma scroll_spec:
  assumes "cursor_x s < 80" "cursor_y s < 25"
  shows "screen_of (screen_scroll (s\<lparr>cursor_y := cursor_y s + 1\<rparr>)) = next_line (screen_of s)"
    and "cursor_ok (screen_scroll (s\<lparr>cursor_y := cursor_y s + 1\<rparr>))"
    and "\<not> in_video x \<Longrightarrow> mem (screen_scroll (s\<lparr>cursor_y := cursor_y s + 1\<rparr>)) x = mem s x"
proof -
  have u: "unat (cursor_y s + 1) = unat (cursor_y s) + 1"
    using assms(2) by (simp add: word_less_nat_alt unat_plus_if')
  have g: "map (cell (fill_cells 1920 80 (scroll_copy 0 1920 m))) [0..<2000]
      = drop 80 (map (cell m) [0..<2000]) @ replicate 80 blank" for m
    by (rule nth_equalityI) (auto simp: fill_cells_spec scroll_copy_spec nth_append add.commute)
  show "screen_of (screen_scroll (s\<lparr>cursor_y := cursor_y s + 1\<rparr>)) = next_line (screen_of s)"
    using u g assms by (auto simp: screen_scroll_def screen_of_def next_line_def word_le_nat_alt word_less_nat_alt)
  show "cursor_ok (screen_scroll (s\<lparr>cursor_y := cursor_y s + 1\<rparr>))"
    using u assms by (auto simp: screen_scroll_def cursor_ok_def word_le_nat_alt word_less_nat_alt)
  show "\<not> in_video x \<Longrightarrow> mem (screen_scroll (s\<lparr>cursor_y := cursor_y s + 1\<rparr>)) x = mem s x"
    by (simp add: screen_scroll_def fill_cells_outside scroll_copy_outside)
qed

lemma no_scroll: "cursor_y s < 25 \<Longrightarrow> screen_scroll s = s"
  by (simp add: screen_scroll_def not_le)


section \<open>One character\<close>

text \<open>The end of \<open>monitor_putc_color\<close>, after the cursor has moved to column \<open>k\<close>.\<close>

definition finish :: "'a console_scheme \<Rightarrow> 'a console_scheme" where
  "finish s = move_cursor (screen_scroll
     (if cursor_x s \<ge> 80 then s\<lparr>cursor_x := 0, cursor_y := cursor_y s + 1\<rparr> else s))"

lemma finish_spec:
  assumes "cursor_y s < 25"
  shows "screen_of (finish s) = advance (unat (cursor_x s)) (screen_of s)" and "cursor_ok (finish s)"
    and "\<not> in_video x \<Longrightarrow> mem (finish s) x = mem s x"
proof -
  have eq: "s\<lparr>cursor_x := 0, cursor_y := cursor_y s + 1\<rparr>
      = (s\<lparr>cursor_x := 0\<rparr>)\<lparr>cursor_y := cursor_y (s\<lparr>cursor_x := 0\<rparr>) + 1\<rparr>" by simp
  have z: "screen_of (s\<lparr>cursor_x := 0\<rparr>) = screen_of s\<lparr>col := 0\<rparr>" by (simp add: screen_of_def)
  note sc = scroll_spec [of "s\<lparr>cursor_x := 0\<rparr>", folded eq]
  show "screen_of (finish s) = advance (unat (cursor_x s)) (screen_of s)"
    using sc(1) assms
    by (simp add: finish_def advance_def z word_le_nat_alt no_scroll screen_of_def)
  show "cursor_ok (finish s)"
    using sc(2) assms by (simp add: finish_def no_scroll cursor_ok_def not_le)
  show "\<not> in_video x \<Longrightarrow> mem (finish s) x = mem s x"
    using sc(3) assms by (simp add: finish_def no_scroll)
qed

lemma tab_stop:
  assumes "unat (x :: u8) < 80" shows "unat ((x + 8) AND NOT 7) = (unat x div 8 + 1) * 8"
proof -
  have "(x + 8) AND NOT 7 = push_bit 3 (drop_bit 3 (x + 8))"
  proof -
    have m: "(7 :: u8) = mask 3" by (simp add: mask_eq_exp_minus_1)
    show ?thesis unfolding m by (rule bit_word_eqI) (auto simp: bit_simps)
  qed
  moreover have "unat (push_bit 3 (drop_bit 3 (x + 8))) = take_bit 8 (push_bit 3 (unat (drop_bit 3 (x + 8))))"
    by (simp only: unsigned_push_bit_eq) simp
  moreover have "unat (x + 8) = unat x + 8" using assms by (simp add: unat_plus_if')
  moreover have "(unat x + 8) div 8 = unat x div 8 + 1" "unat x div 8 < 10" using assms by simp_all
  ultimately show ?thesis
    by (simp only: unat_drop_bit_eq)
      (simp add: push_bit_eq_mult drop_bit_eq_div take_bit_eq_mod)
qed

lemma printable_iff: "sint (c :: u8) \<ge> 32 \<longleftrightarrow> 32 \<le> unat c \<and> unat c < 128"
proof -
  define v where "v = uint c"
  have c: "0 \<le> v" "v < 256" using uint_lt2p [of c] by (simp_all add: v_def)
  have "signed_take_bit 7 v = v - 256 * of_bool (odd (v div 128))"
    using c by (simp add: signed_take_bit_eq_take_bit_minus bit_iff_odd take_bit_eq_mod)
  moreover have "odd (v div 128) \<longleftrightarrow> 128 \<le> v"
  proof (cases "v < 128")
    case False
    then have "v div 128 = 1" using c by (simp add: int_div_pos_eq [of _ 128 1 "v - 128"])
    then show ?thesis using False by simp
  qed (use c in simp)
  moreover have "sint c = signed_take_bit 7 v" "unat c = nat v" by (simp_all add: sint_uint v_def)
  ultimately show ?thesis using c by (cases "128 \<le> v") auto
qed

lemma putc_spec:
  fixes s :: "'a console_scheme"
  assumes "cursor_ok s"
  shows "screen_of (monitor_putc_color c back fore s) = screen_put (attr back fore) c (screen_of s)"
    and "cursor_ok (monitor_putc_color c back fore s)"
    and "\<not> in_video x \<Longrightarrow> mem (monitor_putc_color c back fore s) x = mem s x"
proof -
  let ?x = "unat (cursor_x s)" and ?y = "unat (cursor_y s)"
  have b: "?x < 80" "?y < 25" "cursor_y s < 25" "cursor_x s < 80"
    using assms by (simp_all add: cursor_ok_def word_less_nat_alt)
  define t where "t = (if c = 0x08 \<and> cursor_x s \<noteq> 0 then s\<lparr>cursor_x := cursor_x s - 1\<rparr>
               else if c = 0x09 then s\<lparr>cursor_x := (cursor_x s + 8) AND NOT 7\<rparr>
               else if c = 13 then s\<lparr>cursor_x := 0\<rparr>
               else if 32 \<le> unat c \<and> unat c < 128 then
                 s\<lparr>mem := set_cell (?y * 80 + ?x) (ucast c OR attr back fore) (mem s), cursor_x := cursor_x s + 1\<rparr>
               else s)"
  have y: "cursor_y t < 25" using b by (simp add: t_def)
  have pos: "?y * 80 + ?x < 2000" using b by simp
  have put: "screen_of (s\<lparr>mem := set_cell (?y * 80 + ?x) v (mem s), cursor_x := k\<rparr>)
      = screen_of s\<lparr>grid := (grid (screen_of s))[?y * 80 + ?x := v], col := unat k\<rparr>" for v k
    using pos by (auto simp: screen_of_def cell_set_cell intro!: nth_equalityI)
  have col: "screen_of (s\<lparr>cursor_x := k\<rparr>) = screen_of s\<lparr>col := unat k\<rparr>" for k by (simp add: screen_of_def)
  have adv: "advance k (z\<lparr>col := j\<rparr>) = advance k z" for k j z by (simp add: advance_def)
  have stay: "k < 80 \<Longrightarrow> advance k z = z\<lparr>col := k\<rparr>" for k z by (simp add: advance_def)
  have x1: "unat (cursor_x s - 1) = ?x - 1" if "cursor_x s \<noteq> 0"
    using unat_minus_one [OF that] .
  have x2: "unat (cursor_x s + 1) = ?x + 1" using b(1) by (simp add: unat_plus_if')
  have z: "?x = 0 \<longleftrightarrow> cursor_x s = 0" by (simp add: unat_eq_0)
  have ne: "c \<noteq> 10 \<Longrightarrow> monitor_putc_color c back fore s = finish t"
    unfolding monitor_putc_color_def finish_def t_def Let_def attr_def printable_iff
    by (simp only: if_False)
  have t_view: "advance (unat (cursor_x t)) (screen_of t) = screen_put (attr back fore) c (screen_of s)" if "c \<noteq> 10"
    using b z x1 x2 tab_stop [OF b(1)] that put col
    by (auto simp: t_def screen_put_def adv stay)
  have t_mem: "mem t x = mem s x" if "\<not> in_video x" for x
    using set_cell_outside [OF pos that] by (simp add: t_def)
  have nl: "monitor_putc_color 10 back fore s = move_cursor (screen_scroll
      ((s\<lparr>cursor_x := 0\<rparr>)\<lparr>cursor_y := cursor_y (s\<lparr>cursor_x := 0\<rparr>) + 1\<rparr>))"
    by (simp add: monitor_putc_color_def Let_def)
  note sc = scroll_spec [of "s\<lparr>cursor_x := 0\<rparr>"]
  have nlv: "screen_put a 10 w = next_line (w\<lparr>col := 0\<rparr>)" for a w by (simp add: screen_put_def)
  show "screen_of (monitor_putc_color c back fore s) = screen_put (attr back fore) c (screen_of s)"
    using finish_spec(1) [OF y] t_view ne sc(1) b(3) by (cases "c = 10") (simp_all add: nl nlv col)
  show "cursor_ok (monitor_putc_color c back fore s)"
    using finish_spec(2) [OF y] ne sc(2) b(3) by (cases "c = 10") (simp_all add: nl)
  show "mem (monitor_putc_color c back fore s) x = mem s x" if "\<not> in_video x"
    using finish_spec(3) [OF y that] t_mem [OF that] ne sc(3) [OF _ _ that] b(3) that
    by (cases "c = 10") (simp_all add: nl)
qed

section \<open>Printing as a contract\<close>

text \<open>
  What the printing routines need of a character device: putting a character keeps it in order,
  does to its view what the abstract operation says, and touches nothing but the device.
\<close>

locale terminal =
  fixes putc :: "u8 \<Rightarrow> 's \<Rightarrow> 's" and ok :: "'s \<Rightarrow> bool" and view :: "'s \<Rightarrow> 'v"
    and put :: "u8 \<Rightarrow> 'v \<Rightarrow> 'v" and rest :: "'s \<Rightarrow> 's \<Rightarrow> bool"
  assumes putc_ok: "ok s \<Longrightarrow> ok (putc c s)"
    and putc_view: "ok s \<Longrightarrow> view (putc c s) = put c (view s)"
    and putc_rest: "ok s \<Longrightarrow> rest s (putc c s)"
    and rest_refl: "rest s s" and rest_trans: "rest s t \<Longrightarrow> rest t u \<Longrightarrow> rest s u"
begin

definition puts :: "u8 list \<Rightarrow> 's \<Rightarrow> 's" where
  "puts cs s = foldl (\<lambda>s c. putc c s) s cs"

lemma puts_simps: "puts [] s = s" "puts (c # cs) s = puts cs (putc c s)"
  by (simp_all add: puts_def)

lemma puts_append: "puts (xs @ ys) s = puts ys (puts xs s)"
  by (simp add: puts_def)

lemma puts_spec:
  "ok s \<Longrightarrow> ok (puts cs s) \<and> view (puts cs s) = foldl (\<lambda>z c. put c z) (view s) cs \<and> rest s (puts cs s)"
proof (induction cs arbitrary: s)
  case (Cons c cs)
  from Cons.IH [OF putc_ok [OF Cons.prems, of c]] Cons.prems
  show ?case using putc_view [of s c] putc_rest [of s c] rest_trans by (auto simp: puts_simps)
qed (simp add: puts_simps rest_refl)

end

definition same_outside :: "'a console_scheme \<Rightarrow> 'a console_scheme \<Rightarrow> bool" where
  "same_outside s t \<longleftrightarrow> (\<forall>x. \<not> in_video x \<longrightarrow> mem t x = mem s x)"

interpretation con: terminal "\<lambda>c. monitor_putc_color c bg fg" cursor_ok screen_of
    "screen_put (attr bg fg)" same_outside for bg fg
  by unfold_locales (auto simp: putc_spec same_outside_def)

definition puts_color :: "u32 \<Rightarrow> u32 \<Rightarrow> u8 list \<Rightarrow> 'a console_scheme \<Rightarrow> 'a console_scheme" where
  "puts_color back fore cs s = foldl (\<lambda>s c. monitor_putc_color c back fore s) s cs"

lemma puts_color_con: "puts_color back fore cs s = con.puts back fore cs s"
  by (simp add: puts_color_def con.puts_def)

lemma puts_color_append: "puts_color bg fg ys (puts_color bg fg xs s) = puts_color bg fg (xs @ ys) s"
  by (simp add: puts_color_def)

lemma cstr_bytes:
  "(\<And>i. i \<le> length cs \<Longrightarrow> m' (p + of_nat i) = m (p + of_nat i)) \<Longrightarrow> cstr m' p cs = cstr m p cs"
proof (induction cs arbitrary: p)
  case (Cons c cs)
  have "cstr m' (p + 1) cs = cstr m (p + 1) cs"
    using Cons.prems [of "Suc _"] by (intro Cons.IH) (simp add: algebra_simps)
  then show ?case using Cons.prems [of 0] by simp
qed simp

lemma write_color_string:
  "cursor_ok s \<Longrightarrow> cstr (mem s) p cs \<Longrightarrow> (\<And>i. i \<le> length cs \<Longrightarrow> \<not> in_video (p + of_nat i)) \<Longrightarrow>
     monitor_write_color p back fore s = Some (puts_color back fore cs s)"
proof (induction cs arbitrary: p s)
  case Nil
  then show ?case by (subst monitor_write_color.simps) (simp add: puts_color_def)
next
  case (Cons c cs)
  let ?s = "monitor_putc_color c back fore s"
  have nv: "\<not> in_video (p + 1 + of_nat i)" if "i \<le> length cs" for i
    using Cons.prems(3) [of "Suc i"] that by (simp add: algebra_simps)
  have "cstr (mem ?s) (p + 1) cs"
  proof -
    have "cstr (mem ?s) (p + 1) cs = cstr (mem s) (p + 1) cs"
      by (rule cstr_bytes) (rule putc_spec(3) [OF Cons.prems(1) nv])
    then show ?thesis using Cons.prems(2) by simp
  qed
  from Cons.IH [OF putc_spec(2) [OF Cons.prems(1)] this nv] Cons.prems(2)
  show ?case by (subst monitor_write_color.simps) (simp add: puts_color_def)
qed

lemma write_local_string:
  "(\<And>j. j < length cs \<Longrightarrow> str (i + j) = cs ! j \<and> cs ! j \<noteq> 0) \<Longrightarrow> str (i + length cs) = 0 \<Longrightarrow>
     write_local str i back fore s = Some (puts_color back fore cs s)"
proof (induction cs arbitrary: i s)
  case Nil
  then show ?case by (subst write_local.simps) (simp add: puts_color_def)
next
  case (Cons c cs)
  have "str i = c" "c \<noteq> 0" using Cons.prems(1) [of 0] by auto
  moreover have "write_local str (i + 1) back fore (monitor_putc_color c back fore s)
      = Some (puts_color back fore cs (monitor_putc_color c back fore s))"
    by (rule Cons.IH) (use Cons.prems(2) Cons.prems(1) [of "Suc _"] in simp_all)
  ultimately show ?case by (subst write_local.simps) (simp add: puts_color_def)
qed

section \<open>Numbers\<close>

definition digit :: "nat \<Rightarrow> u8" where
  "digit d = of_nat (if d < 10 then 48 + d else 87 + d)"

lemma dec_digits_spec:
  "dec_digits acc i c = (j, c') \<Longrightarrow> j = i + length (low_digits 10 (unat acc)) \<and>
     (\<forall>k < length (low_digits 10 (unat acc)). c' (i + k) = digit (low_digits 10 (unat acc) ! k)) \<and>
     (\<forall>k < i. c' k = c k)"
proof (induction acc i c rule: dec_digits.induct)
  case (1 acc i c)
  show ?case
  proof (cases "acc = 0")
    case True
    then show ?thesis using "1.prems" by (simp add: dec_digits.simps)
  next
    case False
    then have pos: "acc > 0" "unat acc \<noteq> 0" by (simp_all add: word_gt_0 unat_eq_0)
    let ?d = "unat acc mod 10" and ?r = "low_digits 10 (unat acc div 10)"
    have ld: "low_digits 10 (unat acc) = ?d # ?r" using pos(2) by (simp add: low_digits_step)
    have dg: "ucast (48 + acc mod 10) = digit ?d"
    proof -
      have "unat (48 + acc mod 10) = 48 + ?d" by (simp add: unat_word_ariths unat_mod)
      moreover have "unat (digit ?d) = 48 + ?d"
        unfolding digit_def by (simp only: unat_of_nat) simp
      ultimately show ?thesis by (simp add: word_unat_eq_iff unsigned_ucast_eq take_bit_eq_mod)
    qed
    have "dec_digits (acc div 10) (i + 1) (c(i := ucast (48 + acc mod 10))) = (j, c')"
      using "1.prems" pos(1) by (simp add: dec_digits.simps [of acc])
    from "1.IH" [OF pos(1) this]
    have "j = Suc i + length ?r \<and> (\<forall>k < length ?r. c' (Suc i + k) = digit (?r ! k)) \<and>
        (\<forall>k < Suc i. c' k = (c(i := digit ?d)) k)"
      by (simp add: unat_div dg)
    then show ?thesis unfolding ld by (auto simp: nth_Cons split: nat.splits)
  qed
qed


lemma reverse_digits_spec:
  "reverse_digits i j c c2 k = (if k < i then c (j + (i - 1 - k)) else c2 k)"
proof (induction i arbitrary: j c2)
  case (Suc i)
  have "Suc (j + i - Suc k) = j + i - k" if "k < i" using that by simp
  then show ?case using Suc by (cases "k = i") auto
qed simp

lemma digit_nonzero: "d < 16 \<Longrightarrow> digit d \<noteq> 0"
proof -
  assume "d < 16"
  then have "unat (digit d) = (if d < 10 then 48 + d else 87 + d)"
    unfolding digit_def by (simp only: unat_of_nat) auto
  then have "unat (digit d) \<noteq> 0" by (cases "d < 10") simp_all
  then show ?thesis by (metis unat_0)
qed

text \<open>\<open>monitor_write_dec\<close> prints exactly the decimal numeral of its argument, no digit missing
  and no leading zero, whatever its local buffers held before; at most ten digits, so the 32
  bytes of each buffer are enough.\<close>

theorem monitor_write_dec_prints:
  "\<exists>ds. monitor_write_dec c0 c20 n back fore s = Some (puts_color back fore (map digit ds) s) \<and>
     base_value 10 ds = unat n \<and> (\<forall>d \<in> set ds. d < 10) \<and> length ds \<le> 10 \<and> ds \<noteq> [] \<and> (n \<noteq> 0 \<longrightarrow> hd ds \<noteq> 0)"
proof (cases "n = 0")
  case True
  have "digit 0 = 48" by (simp add: digit_def)
  then show ?thesis
    by (intro exI [of _ "[0]"]) (simp add: monitor_write_dec_def True puts_color_def base_value_def)
next
  case False
  let ?ld = "low_digits 10 (unat n)"
  have nz: "unat n \<noteq> 0" using False by (simp add: unat_eq_0)
  have len: "length ?ld \<le> 10"
    using unat_lt32 [of n] by (intro low_digits_facts(4)) simp_all
  obtain j c where d: "dec_digits n 0 c0 = (j, c)" by fastforce
  from dec_digits_spec [OF d]
  have c: "j = length ?ld" "\<And>k. k < length ?ld \<Longrightarrow> c k = digit (?ld ! k)" by auto
  let ?str = "reverse_digits j 0 (c(j := 0)) (c20(j := 0))"
  have "write_local ?str 0 back fore s = Some (puts_color back fore (map digit (rev ?ld)) s)"
  proof (rule write_local_string)
    fix k assume "k < length (map digit (rev ?ld))"
    then have k: "k < length ?ld" by simp
    then have kk: "length ?ld - Suc k \<noteq> length ?ld" by simp
    from k have "?ld ! (length ?ld - 1 - k) \<in> set ?ld" by (intro nth_mem) simp
    then have "digit (?ld ! (length ?ld - 1 - k)) \<noteq> 0"
      using low_digits_facts(2) [of 10 "?ld ! (length ?ld - 1 - k)" "unat n"] by (intro digit_nonzero) simp
    then show "?str (0 + k) = map digit (rev ?ld) ! k \<and> map digit (rev ?ld) ! k \<noteq> 0"
      using k kk c by (simp add: reverse_digits_spec rev_nth)
  qed (simp add: reverse_digits_spec c(1))
  moreover have "hd (rev ?ld) \<noteq> 0" "?ld \<noteq> []"
    using low_digits_facts(3) [OF _ nz, of 10] by (simp_all add: hd_rev)
  moreover have "\<forall>d \<in> set (rev ?ld). d < 10" using low_digits_facts(2) [of 10] by auto
  ultimately show ?thesis
    using low_digits_facts(1) [of 10 "unat n"] len d False
    by (intro exI [of _ "rev ?ld"]) (simp add: monitor_write_dec_def Let_def)
qed

lemma hex_digit_at: "unat (drop_bit (4 * k) n AND 0xF) = unat n div 16 ^ k mod 16" for n :: u32
proof -
  have "drop_bit (4 * k) n AND 0xF = take_bit 4 (drop_bit (4 * k) n)" by (simp add: take_bit_eq_mask mask_eq_exp_minus_1)
  then have "unat (drop_bit (4 * k) n AND 0xF) = take_bit 4 (drop_bit (4 * k) (unat n))"
    by (simp only: unsigned_take_bit_eq unat_drop_bit_eq)
  then show ?thesis by (simp add: take_bit_eq_mod drop_bit_eq_div power_mult)
qed

lemma hex_char:
  fixes t :: u32
  assumes "unat t < 16"
  shows "(if t \<ge> 0xA then ucast (t - 0xA + 97) else ucast (t + 48)) = digit (unat t)"
proof -
  have "unat (if t \<ge> 0xA then t - 0xA + 97 else t + 48) = (if unat t < 10 then 48 + unat t else 87 + unat t)"
    using assms by (auto simp: word_le_nat_alt unat_plus_if' unat_sub_if' not_le)
  moreover have "unat (digit (unat t)) = (if unat t < 10 then 48 + unat t else 87 + unat t)"
    unfolding digit_def using assms by (simp only: unat_of_nat) auto
  ultimately show ?thesis
    using assms by (auto simp: word_unat_eq_iff unsigned_ucast_eq take_bit_eq_mod word_le_nat_alt split: if_splits)
qed

lemma hex_loop_spec:
  "\<exists>ds. write_hex_loop n nz back fore k s = puts_color back fore (map digit ds) s \<and>
     base_value 16 ds = unat n mod 16 ^ k \<and> (\<forall>d \<in> set ds. d < 16) \<and> length ds \<le> k \<and>
     (\<not> nz \<longrightarrow> length ds = k) \<and> (nz \<longrightarrow> ds = [] \<or> hd ds \<noteq> 0)"
proof (induction k arbitrary: nz s)
  case 0
  show ?case by (intro exI [of _ "[]"]) (simp add: puts_color_def base_value_def)
next
  case (Suc k)
  let ?t = "drop_bit (4 * k) n AND 0xF" and ?d = "unat n div 16 ^ k mod 16"
  note td = hex_digit_at [of k n]
  have val: "unat n mod 16 ^ Suc k = ?d * 16 ^ k + unat n mod 16 ^ k"
    using mod_mult2_eq [of "unat n" "16 ^ k" 16] by (simp add: mult.commute)
  have ch: "(if ?t \<ge> 0xA then ucast (?t - 0xA + 97) else ucast (?t + 48)) = digit ?d"
    using hex_char [of ?t] unfolding td by simp
  show ?case
  proof (cases "?t = 0 \<and> nz")
    case True
    then have "?d = 0" using td by simp
    moreover obtain ds where "write_hex_loop n True back fore k s = puts_color back fore (map digit ds) s"
        "base_value 16 ds = unat n mod 16 ^ k" "\<forall>d \<in> set ds. d < 16" "length ds \<le> k" "ds = [] \<or> hd ds \<noteq> 0"
      using Suc.IH [of True s] by blast
    ultimately show ?thesis using True val by (intro exI [of _ ds]) (simp add: Let_def)
  next
    case False
    obtain ds where ds: "write_hex_loop n False back fore k (monitor_putc_color (digit ?d) back fore s)
        = puts_color back fore (map digit ds) (monitor_putc_color (digit ?d) back fore s)"
        "base_value 16 ds = unat n mod 16 ^ k" "\<forall>d \<in> set ds. d < 16" "length ds = k"
      using Suc.IH [of False] by blast
    have "write_hex_loop n nz back fore (Suc k) s = puts_color back fore (map digit (?d # ds)) s"
    proof -
      have "write_hex_loop n nz back fore (Suc k) s = write_hex_loop n False back fore k
          (monitor_putc_color (if ?t \<ge> 0xA then ucast (?t - 0xA + 97) else ucast (?t + 48)) back fore s)"
        using False by (auto simp: Let_def)
      then show ?thesis using ds(1) unfolding ch by (simp add: puts_color_def)
    qed
    moreover have "nz \<longrightarrow> ?d \<noteq> 0" using False td by (metis unat_eq_0)
    ultimately show ?thesis
      using ds val by (intro exI [of _ "?d # ds"]) (simp add: base_value_Cons)
  qed
qed


text \<open>\<open>monitor_write_hex\<close> prints \<open>0x\<close> and the hexadecimal digits of its argument without
  leading zeros; for 0 it prints no digit at all, only \<open>0x\<close>.\<close>

theorem monitor_write_hex_prints:
  "\<exists>ds. monitor_write_hex n back fore s = puts_color back fore ([48, 120] @ map digit ds) s \<and>
     base_value 16 ds = unat n \<and> (\<forall>d \<in> set ds. d < 16) \<and> length ds \<le> 8 \<and>
     (n = 0 \<longrightarrow> ds = []) \<and> (n \<noteq> 0 \<longrightarrow> ds \<noteq> [] \<and> hd ds \<noteq> 0)"
proof -
  let ?s = "foldl (\<lambda>s c. monitor_putc_color c back fore s) s [48, 120]"
  obtain ds where ds: "write_hex_loop n True back fore 8 ?s = puts_color back fore (map digit ds) ?s"
      "base_value 16 ds = unat n mod 16 ^ 8" "\<forall>d \<in> set ds. d < 16" "length ds \<le> 8" "ds = [] \<or> hd ds \<noteq> 0"
    using hex_loop_spec [of n True "back" fore 8 ?s] by blast
  have v: "base_value 16 ds = unat n" using ds(2) unat_lt32 [of n] by simp
  have "ds = []" if "n = 0"
  proof (cases ds)
    case (Cons d rest)
    then show ?thesis using v ds(5) that by (simp add: base_value_Cons)
  qed simp
  moreover have "ds \<noteq> []" if "n \<noteq> 0" using v that by (auto simp: base_value_def unat_eq_0)
  ultimately show ?thesis
    using ds v by (intro exI [of _ ds]) (auto simp: monitor_write_hex_def puts_color_def)
qed

section \<open>The screen refines its specification\<close>

text \<open>The cursor never leaves the 80 by 25 screen, and putting a character writes no byte
  outside the text buffer.\<close>

theorem putc_stays_on_screen:
  assumes "cursor_ok s"
  shows "cursor_ok (monitor_putc_color c back fore s) \<and>
    (\<forall>x. \<not> in_video x \<longrightarrow> mem (monitor_putc_color c back fore s) x = mem s x)"
  using putc_spec(2,3) [OF assms] by blast

text \<open>C10: \<open>monitor_write_color\<close> of a C string outside the text buffer returns, and leaves the
  screen as printing its characters one by one on the abstract screen does: tabs, line ends,
  wrapping at column 80, and scrolling by one line included.\<close>

theorem monitor_write_color_refines:
  assumes "cursor_ok s" "cstr (mem s) p cs" "\<And>i. i \<le> length cs \<Longrightarrow> \<not> in_video (p + of_nat i)"
  shows "\<exists>s'. monitor_write_color p back fore s = Some s' \<and> cursor_ok s' \<and>
    screen_of s' = foldl (\<lambda>z c. screen_put (attr back fore) c z) (screen_of s) cs \<and>
    (\<forall>x. \<not> in_video x \<longrightarrow> mem s' x = mem s x)"
  using con.puts_spec [OF assms(1), of "back" fore cs] write_color_string [OF assms, of "back" fore]
  by (simp add: puts_color_con same_outside_def)

text \<open>\<open>monitor_clear\<close> leaves a blank screen with the cursor in the corner, whatever the state
  before, and tells the hardware cursor so.\<close>

theorem monitor_clear_blanks:
  "screen_of (monitor_clear s) = \<lparr>grid = replicate 2000 blank, col = 0, row = 0\<rparr> \<and>
   cursor_ok (monitor_clear s) \<and>
   ports (monitor_clear s) = ports s @ [(0x3D4, 14), (0x3D5, 0), (0x3D4, 15), (0x3D5, 0)]"
proof -
  have "map (cell (fill_cells 0 2000 m)) [0..<2000] = replicate 2000 blank" for m
    by (rule nth_equalityI) (simp_all add: fill_cells_spec)
  then show ?thesis
    by (simp add: monitor_clear_def screen_of_def cursor_ok_def) (simp add: move_cursor_def outb_def Let_def)
qed

definition blank_console :: console where
  "blank_console = \<lparr>mem = (\<lambda>_. 0)(0x100000 := 72, 0x100001 := 10), cr3 = 0, ports = [],
     handlers = (\<lambda>_. None), cursor_x = 79, cursor_y = 24\<rparr>"

theorem putc_stays_on_screen_witness:
  "cursor_ok (monitor_putc_color 65 0 15 blank_console)"
  using putc_stays_on_screen [of blank_console 65 0 15] by (simp add: cursor_ok_def blank_console_def)

theorem monitor_write_color_refines_witness:
  "\<exists>s'. monitor_write_color 0x100000 0 15 blank_console = Some s' \<and> cursor_ok s'"
proof -
  have c: "cstr (mem blank_console) 0x100000 [72, 10]" by (simp add: blank_console_def)
  have k: "cursor_ok blank_console" by (simp add: cursor_ok_def blank_console_def)
  have "\<not> in_video (0x100000 + of_nat i)" if "i \<le> length [72 :: u8, 10]" for i
  proof -
    have "i = 0 \<or> i = 1 \<or> i = 2" using that by auto
    then show ?thesis by (auto simp: in_video_def)
  qed
  from monitor_write_color_refines [OF k c this, of 0 15] show ?thesis by blast
qed

theorem monitor_write_dec_prints_witness:
  "\<exists>ds. monitor_write_dec (\<lambda>_. 0) (\<lambda>_. 0) 1024 0 15 blank_console = Some (puts_color 0 15 (map digit ds) blank_console)
     \<and> base_value 10 ds = 1024 \<and> hd ds \<noteq> 0"
  using monitor_write_dec_prints [of "\<lambda>_. 0" "\<lambda>_. 0" 1024 0 15 blank_console] by auto

theorem monitor_write_hex_prints_witness:
  "monitor_write_hex 0 0 15 blank_console = puts_color 0 15 [48, 120] blank_console"
  using monitor_write_hex_prints [of 0 0 15 blank_console] by auto

end
