(* ===== verification/Printf.thy ===== *)
theory Printf
  imports Monitor
begin

text \<open>
  Formatted output: \<open>src/printf.c\<close>. What the code writes through the pointer \<open>str\<close>, always one
  byte further, is the list of the bytes written so far. The format string and the strings it
  refers to are read from memory; the variable arguments are the list of 32-bit words behind the
  last named argument, and taking one from the empty list is undefined. Widths, precisions and
  counters are C \<open>int\<close>s whose overflow C leaves undefined: here they are unbounded.
\<close>

section \<open>Numbers\<close>

text \<open>The flags of \<open>number\<close>.\<close>

abbreviation (input) ZEROPAD :: u32 where "ZEROPAD \<equiv> 1"
abbreviation (input) SIGN :: u32 where "SIGN \<equiv> 2"
abbreviation (input) PLUS :: u32 where "PLUS \<equiv> 4"
abbreviation (input) SPACE :: u32 where "SPACE \<equiv> 8"
abbreviation (input) LEFT :: u32 where "LEFT \<equiv> 16"
abbreviation (input) SPECIAL :: u32 where "SPECIAL \<equiv> 32"
abbreviation (input) SMALL :: u32 where "SMALL \<equiv> 64"

text \<open>\<open>digits[k]\<close> of the two digit strings; letters start at \<open>k = 10\<close>.\<close>

definition digits_char :: "bool \<Rightarrow> nat \<Rightarrow> u8" where
  "digits_char small k = of_nat (if k < 10 then 48 + k else (if small then 97 else 65) + (k - 10))"

text \<open>\<open>do_div\<close> is the unsigned \<open>divl\<close>: quotient into \<open>num\<close>, remainder as result.\<close>

function conv_loop :: "(nat \<Rightarrow> u8) \<Rightarrow> u32 \<Rightarrow> u32 \<Rightarrow> u8 list \<Rightarrow> u8 list" where
  "conv_loop digits base num tmp =
     (if num \<noteq> 0 \<and> 1 < base then conv_loop digits base (num div base) (tmp @ [digits (unat (num mod base))])
      else tmp)"
  by pat_completeness auto
termination
proof (relation "measure (\<lambda>(d, b, n, t). unat n)", goal_cases)
  case (2 d b n t)
  then have "0 < unat n" "1 < unat b" by (simp_all add: unat_gt_0 word_less_nat_alt)
  then show ?case by (simp add: unat_div)
qed simp

declare conv_loop.simps [simp del]

text \<open>\<open>while (n-- > 0) *str++ = c;\<close> gives what is written and the value \<open>n\<close> is left with.\<close>

function pad_loop :: "u8 \<Rightarrow> int \<Rightarrow> u8 list \<Rightarrow> u8 list \<times> int" where
  "pad_loop c n str = (if n > 0 then pad_loop c (n - 1) (str @ [c]) else (str, n - 1))"
  by pat_completeness auto
termination by (relation "measure (\<lambda>(c, n, s). nat n)") auto

declare pad_loop.simps [simp del]

text \<open>\<open>while (--n > 0) *str++ = c;\<close>\<close>

function pre_pad_loop :: "u8 \<Rightarrow> int \<Rightarrow> u8 list \<Rightarrow> u8 list \<times> int" where
  "pre_pad_loop c n str =
     (let n = n - 1 in if n > 0 then pre_pad_loop c n (str @ [c]) else (str, n))"
  by pat_completeness auto
termination by (relation "measure (\<lambda>(c, n, s). nat n)") auto

declare pre_pad_loop.simps [simp del]

text \<open>\<open>while (k < n--) *str++ = c;\<close>\<close>

function pad_to_loop :: "u8 \<Rightarrow> int \<Rightarrow> int \<Rightarrow> u8 list \<Rightarrow> u8 list \<times> int" where
  "pad_to_loop c k n str = (if k < n then pad_to_loop c k (n - 1) (str @ [c]) else (str, n - 1))"
  by pat_completeness auto
termination by (relation "measure (\<lambda>(c, k, n, s). nat (n - k))") auto

declare pad_to_loop.simps [simp del]

text \<open>\<open>while (i-- > 0) *str++ = tmp[i];\<close>\<close>

primrec copy_back :: "u8 list \<Rightarrow> nat \<Rightarrow> u8 list \<Rightarrow> u8 list" where
  "copy_back tmp 0 str = str"
| "copy_back tmp (Suc i) str = copy_back tmp i (str @ [tmp ! i])"

text \<open>\<open>type &= ~ZEROPAD\<close>\<close>

definition no_zeropad :: "u32 \<Rightarrow> u32" where
  "no_zeropad type = type AND NOT ZEROPAD"

text \<open>\<open>number\<close>; \<open>None\<close> is the NULL it returns for a base it does not know.\<close>

definition number :: "u8 list \<Rightarrow> u32 \<Rightarrow> u32 \<Rightarrow> int \<Rightarrow> int \<Rightarrow> u32 \<Rightarrow> u8 list option" where
  "number str num base sz precision type =
     (let digits = digits_char (type AND SMALL \<noteq> 0);
          type = (if type AND LEFT \<noteq> 0 then no_zeropad type else type)
      in if base < 2 \<or> base > 36 then None
         else
           let c = (if type AND ZEROPAD \<noteq> 0 then 48 else 32);
               (sign, num) = (if type AND SIGN \<noteq> 0 \<and> sint num < 0 then (45, - num)
                  else (if type AND PLUS \<noteq> 0 then 43 else if type AND SPACE \<noteq> 0 then 32 else 0, num));
               sz = (if sign \<noteq> 0 then sz - 1 else sz);
               sz = (if type AND SPECIAL \<noteq> 0
                       then if base = 16 then sz - 2 else if base = 8 then sz - 1 else sz
                       else sz);
               tmp = (if num = 0 then [48] else conv_loop digits base num []);
               i = int (length tmp);
               precision = (if i > precision then i else precision);
               sz = sz - precision;
               (str, sz) = (if type AND (ZEROPAD + LEFT) = 0 then pad_loop 32 sz str else (str, sz));
               str = (if sign \<noteq> 0 then str @ [sign] else str);
               str = (if type AND SPECIAL \<noteq> 0
                      then if base = 8 then str @ [48]
                           else if base = 16 then str @ [48, digits 33] else str
                      else str);
               (str, sz) = (if type AND LEFT = 0 then pad_loop c sz str else (str, sz));
               (str, precision) = pad_to_loop 48 i precision str;
               str = copy_back tmp (length tmp) str;
               (str, sz) = pad_loop 32 sz str
           in Some str)"

section \<open>Formats\<close>

definition is_digit :: "u8 \<Rightarrow> bool" where
  "is_digit c \<longleftrightarrow> 48 \<le> c \<and> c \<le> 57"

partial_function (option) skip_atoi :: "memory \<Rightarrow> u32 \<Rightarrow> int \<Rightarrow> (int \<times> u32) option" where
  "skip_atoi m s i =
     (if is_digit (m s) then skip_atoi m (s + 1) (i * 10 + int (unat (m s)) - 48) else Some (i, s))"

text \<open>The flag characters \<open>- + space # 0\<close> behind a \<open>%\<close>; the pointer is left on the first other one.\<close>

partial_function (option) scan_flags :: "memory \<Rightarrow> u32 \<Rightarrow> u32 \<Rightarrow> (u32 \<times> u32) option" where
  "scan_flags m format flags =
     (let format = format + 1; c = m format
      in if c = 45 then scan_flags m format (flags OR LEFT)
         else if c = 43 then scan_flags m format (flags OR PLUS)
         else if c = 32 then scan_flags m format (flags OR SPACE)
         else if c = 35 then scan_flags m format (flags OR SPECIAL)
         else if c = 48 then scan_flags m format (flags OR ZEROPAD)
         else Some (flags, format))"

text \<open>\<open>va_arg\<close>\<close>

definition next_arg :: "u32 list \<Rightarrow> (u32 \<times> u32 list) result" where
  "next_arg args = (case args of [] \<Rightarrow> Inl Undefined | a # as \<Rightarrow> Inr (a, as))"

text \<open>
  Width and precision. At a \<open>*\<close> the value is the next argument; the pointer stays on the \<open>*\<close>.
\<close>

definition field_width ::
    "memory \<Rightarrow> u32 \<Rightarrow> u32 list \<Rightarrow> u32 \<Rightarrow> (int \<times> u32 \<times> u32 \<times> u32 list) result option" where
  "field_width m format args flags =
     (if is_digit (m format)
      then map_option (\<lambda>(w, format). Inr (w, flags, format, args)) (skip_atoi m format 0)
      else if m format = 42
      then Some (bindE (next_arg args) (\<lambda>(w, args).
             if sint w < 0 then Inr (- sint w, flags OR LEFT, format, args)
             else Inr (sint w, flags, format, args)))
      else Some (Inr (-1, flags, format, args)))"

definition field_precision ::
    "memory \<Rightarrow> u32 \<Rightarrow> u32 list \<Rightarrow> (int \<times> u32 \<times> u32 list) result option" where
  "field_precision m format args =
     (if m format = 46
      then let format = format + 1
           in if is_digit (m format)
              then map_option (\<lambda>(p, format). Inr (if p < 0 then 0 else p, format, args)) (skip_atoi m format 0)
              else if m format = 42
              then Some (bindE (next_arg args) (\<lambda>(p, args).
                     Inr (if sint p < 0 then 0 else sint p, format, args)))
              else Some (Inr (0, format, args))
      else Some (Inr (-1, format, args)))"

definition skip_qualifier :: "memory \<Rightarrow> u32 \<Rightarrow> u32" where
  "skip_qualifier m format =
     (if m format = 104 \<or> m format = 108 \<or> m format = 76 then format + 1 else format)"


text \<open>\<open>for (i = 0; i < len; ++i) *str++ = *s++;\<close>\<close>

primrec copy_string :: "memory \<Rightarrow> u32 \<Rightarrow> nat \<Rightarrow> u8 list \<Rightarrow> u8 list" where
  "copy_string m s 0 str = str"
| "copy_string m s (Suc n) str = copy_string m (s + 1) n (str @ [m s])"

text \<open>One integer conversion: the next argument through \<open>number\<close>.\<close>

definition conv_number ::
    "u32 \<Rightarrow> int \<Rightarrow> int \<Rightarrow> u32 \<Rightarrow> memory \<Rightarrow> u32 \<Rightarrow> u32 list \<Rightarrow> u8 list \<Rightarrow> (u32 \<times> u32 list \<times> u8 list \<times> memory) result" where
  "conv_number base width precision flags m format args str =
     bindE (next_arg args) (\<lambda>(a, args).
       case number str a base width precision flags of
         None \<Rightarrow> Inl Undefined
       | Some str \<Rightarrow> Inr (format, args, str, m))"

text \<open>
  The \<open>switch\<close> over the conversion character: \<open>c s o p x X d i u b n\<close> are 99, 115, 111, 112,
  120, 88, 100, 105, 117, 98 and 110. The result has the pointer on the last character used.
\<close>

definition convert ::
    "u32 \<Rightarrow> int \<Rightarrow> int \<Rightarrow> memory \<Rightarrow> u32 \<Rightarrow> u32 list \<Rightarrow> u8 list \<Rightarrow>
      (u32 \<times> u32 list \<times> u8 list \<times> memory) result option" where
  "convert flags width precision m format args str =
     (if m format = 99 then
        Some (let (str, width) = (if flags AND LEFT = 0 then pre_pad_loop 32 width str else (str, width))
              in bindE (next_arg args) (\<lambda>(a, args).
                   let str = str @ [ucast a];
                       (str, width) = pre_pad_loop 32 width str
                   in Inr (format, args, str, m)))
      else if m format = 115 then
        (case next_arg args of
           Inl e \<Rightarrow> Some (Inl e)
         | Inr (s, args) \<Rightarrow>
             map_option (\<lambda>n.
               let len = sint n;
                   len = (if precision < 0 then len else if len > precision then precision else len);
                   (str, width) = (if flags AND LEFT = 0 then pad_to_loop 32 len width str else (str, width));
                   str = copy_string m s (nat len) str;
                   (str, width) = pad_to_loop 32 len width str
               in Inr (format, args, str, m)) (strlen m s))
      else if m format = 111 then Some (conv_number 8 width precision flags m format args str)
      else if m format = 112 then
        Some (let (width, flags) = (if width = -1 then (8, flags OR ZEROPAD) else (width, flags))
              in conv_number 16 width precision flags m format args str)
      else if m format = 120 then Some (conv_number 16 width precision (flags OR SMALL) m format args str)
      else if m format = 88 then Some (conv_number 16 width precision flags m format args str)
      else if m format = 100 \<or> m format = 105 then
        Some (conv_number 10 width precision (flags OR SIGN) m format args str)
      else if m format = 117 then Some (conv_number 10 width precision flags m format args str)
      else if m format = 98 then Some (conv_number 2 width precision flags m format args str)
      else if m format = 110 then
        Some (bindE (next_arg args) (\<lambda>(ip, args).
          Inr (format, args, str, store32 m ip (of_nat (length str)))))
      else
        Some (let str = (if m format \<noteq> 37 then str @ [37] else str)
              in if m format \<noteq> 0 then Inr (format, args, str @ [m format], m)
                 else Inr (format - 1, args, str, m)))"

text \<open>Everything from a \<open>%\<close> up to its conversion character.\<close>

definition directive ::
    "memory \<Rightarrow> u32 \<Rightarrow> u32 list \<Rightarrow> u8 list \<Rightarrow> (u32 \<times> u32 list \<times> u8 list \<times> memory) result option" where
  "directive m format args str =
     (case scan_flags m format 0 of
        None \<Rightarrow> None
      | Some (flags, format) \<Rightarrow>
          (case field_width m format args flags of
             None \<Rightarrow> None
           | Some (Inl e) \<Rightarrow> Some (Inl e)
           | Some (Inr (width, flags, format, args)) \<Rightarrow>
               (case field_precision m format args of
                  None \<Rightarrow> None
                | Some (Inl e) \<Rightarrow> Some (Inl e)
                | Some (Inr (precision, format, args)) \<Rightarrow>
                    convert flags width precision m (skip_qualifier m format) args str)))"

partial_function (option) vsprintf ::
    "memory \<Rightarrow> u32 \<Rightarrow> u32 list \<Rightarrow> u8 list \<Rightarrow> (u8 list \<times> memory) result option" where
  "vsprintf m format args str =
     (if m format \<noteq> 0
      then if m format \<noteq> 37 then vsprintf m (format + 1) args (str @ [m format])
           else (case directive m format args str of
                   None \<Rightarrow> None
                 | Some (Inl e) \<Rightarrow> Some (Inl e)
                 | Some (Inr (format, args, str, m)) \<Rightarrow> vsprintf m (format + 1) args str)
      else Some (Inr (str, m)))"

section \<open>Printing on the console\<close>

text \<open>
  \<open>printf\<close> and \<open>printf_color\<close> format into a static buffer of 1024 bytes, the terminating NUL
  included; nothing checks that the text fits, so a longer one is an access out of bounds. The
  buffer is then printed up to its first NUL.
\<close>

definition buff_bytes :: "u8 list \<Rightarrow> nat \<Rightarrow> u8" where
  "buff_bytes out i = (if i < length out then out ! i else 0)"

definition printf_color ::
    "u32 \<Rightarrow> u32 \<Rightarrow> u32 \<Rightarrow> u32 list \<Rightarrow> 'a console_scheme \<Rightarrow> 'a console_scheme result option" where
  "printf_color bg fg format args s =
     (case vsprintf (mem s) format args [] of
        None \<Rightarrow> None
      | Some (Inl e) \<Rightarrow> Some (Inl e)
      | Some (Inr (out, m)) \<Rightarrow>
          if length out < 1024
          then map_option Inr (write_local (buff_bytes out) 0 bg fg (s\<lparr>mem := m\<rparr>))
          else Some (Inl Undefined))"

definition printf :: "u32 \<Rightarrow> u32 list \<Rightarrow> 'a console_scheme \<Rightarrow> 'a console_scheme result option" where
  "printf format args s = printf_color 0 15 format args s"


section \<open>What the loops write\<close>

lemma pad_loop_eq: "pad_loop c n str = (str @ replicate (nat n) c, (if n > 0 then 0 else n) - 1)"
proof (induction c n str rule: pad_loop.induct)
  case (1 c n str)
  have "nat n = Suc (nat (n - 1))" if "n > 0" using that by simp
  then show ?case using 1 by (subst pad_loop.simps) (auto simp: replicate_append_same [symmetric])
qed

lemma pre_pad_loop_eq: "pre_pad_loop c n str = (str @ replicate (nat (n - 1)) c, if n > 1 then 0 else n - 1)"
proof (induction c n str rule: pre_pad_loop.induct)
  case (1 c n str)
  have "nat (n - 1) = Suc (nat (n - 2))" if "n > 1" using that by simp
  then show ?case
    using 1 by (subst pre_pad_loop.simps) (auto simp: Let_def replicate_append_same [symmetric])
qed

lemma pad_to_loop_eq:
  "pad_to_loop c k n str = (str @ replicate (nat (n - k)) c, (if k < n then k else n) - 1)"
proof (induction c k n str rule: pad_to_loop.induct)
  case (1 c k n str)
  have "nat (n - k) = Suc (nat (n - 1 - k))" if "k < n" using that by simp
  then show ?case using 1 by (subst pad_to_loop.simps) (auto simp: replicate_append_same [symmetric])
qed

lemma copy_back_eq: "i \<le> length tmp \<Longrightarrow> copy_back tmp i str = str @ rev (take i tmp)"
  by (induction i arbitrary: str) (auto simp: take_Suc_conv_app_nth)

lemma copy_string_eq: "copy_string m s n str = str @ map (\<lambda>i. m (s + of_nat i)) [0..<n]"
proof (induction n arbitrary: s str)
  case (Suc n)
  show ?case by (simp add: Suc map_upt_Suc algebra_simps del: upt_Suc)
qed simp

lemma conv_loop_eq:
  "1 < base \<Longrightarrow> conv_loop digits base num tmp = tmp @ map digits (low_digits (unat base) (unat num))"
proof (induction digits base num tmp rule: conv_loop.induct)
  case (1 digits base num tmp)
  have b: "1 < unat base" using "1.prems" by (simp add: word_less_nat_alt)
  show ?case
  proof (cases "num = 0")
    case False
    then have "unat num \<noteq> 0" by (simp add: unat_eq_0)
    from low_digits_step [OF this b] show ?thesis
      using 1 False by (subst conv_loop.simps) (simp add: unat_div unat_mod)
  qed (simp add: conv_loop.simps)
qed

section \<open>The layout of a number\<close>

definition sign_of :: "u32 \<Rightarrow> u32 \<Rightarrow> u8 list" where
  "sign_of type num = (if type AND SIGN \<noteq> 0 \<and> sint num < 0 then [45]
     else if type AND PLUS \<noteq> 0 then [43] else if type AND SPACE \<noteq> 0 then [32] else [])"

definition magnitude :: "u32 \<Rightarrow> u32 \<Rightarrow> nat" where
  "magnitude type num = (if type AND SIGN \<noteq> 0 \<and> sint num < 0 then nat (- sint num) else unat num)"

definition prefix_of :: "u32 \<Rightarrow> u32 \<Rightarrow> u8 list" where
  "prefix_of type base = (if type AND SPECIAL = 0 then [] else if base = 8 then [48]
     else if base = 16 then [48, digits_char (type AND SMALL \<noteq> 0) 33] else [])"

text \<open>The digits of \<open>n\<close>, at least one.\<close>

definition digits_of :: "nat \<Rightarrow> nat \<Rightarrow> nat list" where
  "digits_of b n = (if n = 0 then [0] else rev (low_digits b n))"

definition layout :: "u32 \<Rightarrow> int \<Rightarrow> int \<Rightarrow> u8 list \<Rightarrow> u8 list \<Rightarrow> u8 list" where
  "layout type sz precision lead digs =
     (let zeros = replicate (nat (precision - int (length digs))) 48;
          w = nat (sz - int (length lead) - max precision (int (length digs)))
      in if type AND LEFT \<noteq> 0 then lead @ zeros @ digs @ replicate w 32
         else if type AND ZEROPAD \<noteq> 0 then lead @ replicate w 48 @ zeros @ digs
         else replicate w 32 @ lead @ zeros @ digs)"

lemma flag_left [simp]:
  "no_zeropad t AND 1 = 0" "no_zeropad t AND SIGN = t AND SIGN" "no_zeropad t AND PLUS = t AND PLUS"
  "no_zeropad t AND SPACE = t AND SPACE" "no_zeropad t AND LEFT = t AND LEFT"
  "no_zeropad t AND SPECIAL = t AND SPECIAL"
  by (simp_all add: no_zeropad_def and.assoc)

lemma pad_flags: "t AND (1 + 16) = 0 \<longleftrightarrow> t AND 1 = 0 \<and> t AND LEFT = (0 :: u32)"
proof -
  have "t AND 17 = (t AND 1) OR (t AND 16)" by (simp flip: bit.conj_disj_distrib)
  then show ?thesis by (simp add: or_eq_0_iff)
qed

lemma sint32: "sint (n :: u32) = (if unat n < 2 ^ 31 then int (unat n) else int (unat n) - 2 ^ 32)"
proof -
  define v where "v = uint n"
  have c: "0 \<le> v" "v < 4294967296" using uint_lt2p [of n] by (simp_all add: v_def)
  have "signed_take_bit 31 v = v - 4294967296 * of_bool (odd (v div 2147483648))"
    using c by (simp add: signed_take_bit_eq_take_bit_minus bit_iff_odd take_bit_eq_mod)
  moreover have "odd (v div 2147483648) \<longleftrightarrow> 2147483648 \<le> v"
  proof (cases "v < 2147483648")
    case False
    then have "v div 2147483648 = 1" using c by (simp add: int_div_pos_eq [of _ 2147483648 1 "v - 2147483648"])
    then show ?thesis using False by simp
  qed (use c in simp)
  moreover have "sint n = signed_take_bit 31 v" "unat n = nat v" by (simp_all add: sint_uint v_def)
  ultimately show ?thesis using c by (cases "2147483648 \<le> v") auto
qed

lemma negated_magnitude: "sint (n :: u32) < 0 \<Longrightarrow> unat (- n) = nat (- sint n)"
proof -
  assume "sint n < 0"
  then have s: "sint n = int (unat n) - 2 ^ 32" "n \<noteq> 0" by (auto simp: sint32 split: if_splits)
  then have "unat (- n) = 2 ^ 32 - unat n"
    using unat_sub_if' [of 0 n] unat_lt32 [of n] by (simp add: unat_eq_0)
  moreover have "- sint n = int (2 ^ 32 - unat n)"
    unfolding s(1) using unat_lt32 [of n] by (subst of_nat_diff) simp_all
  ultimately show ?thesis by (simp only: nat_int)
qed

lemma pad_done: "nat ((if n > 0 then 0 else n) - 1) = (0 :: nat)" for n :: int
  by auto

lemma digits_of_facts:
  assumes "1 < b"
  shows "base_value b (digits_of b n) = n" "\<forall>d \<in> set (digits_of b n). d < b" "digits_of b n \<noteq> []"
    "n \<noteq> 0 \<Longrightarrow> hd (digits_of b n) \<noteq> 0" "n < b ^ k \<Longrightarrow> 0 < k \<Longrightarrow> length (digits_of b n) \<le> k"
  using low_digits_facts [OF assms, where n = n] assms
  by (auto simp: digits_of_def base_value_def hd_rev)

lemma number_eq:
  assumes "2 \<le> base" "base \<le> 36"
  shows "number str num base sz precision type =
      Some (str @ layout type sz precision (sign_of type num @ prefix_of type base)
        (map (digits_char (type AND SMALL \<noteq> 0)) (digits_of (unat base) (magnitude type num))))"
proof -
  have b: "1 < unat base" "1 < base" "\<not> (base < 2 \<or> base > 36)"
    using assms by (auto simp: word_le_nat_alt word_less_nat_alt)
  let ?dc = "digits_char (type AND SMALL \<noteq> 0)" and ?neg = "type AND SIGN \<noteq> 0 \<and> sint num < 0"
  let ?v = "magnitude type num"
  define n where "n = (if ?neg then - num else num)"
  have nv: "unat n = ?v" by (simp add: n_def magnitude_def negated_magnitude)
  define tmp where "tmp = (if n = 0 then [48] else conv_loop ?dc base n [])"
  have tmp: "rev tmp = map ?dc (digits_of (unat base) ?v)"
  proof (cases "n = 0")
    case True
    then have "?v = 0" using nv by simp
    then show ?thesis using True by (simp add: tmp_def digits_of_def digits_char_def)
  next
    case False
    then have "?v \<noteq> 0" using nv by (metis unat_eq_0)
    then show ?thesis using False nv conv_loop_eq [OF b(2), of ?dc n] by (simp add: tmp_def digits_of_def rev_map)
  qed
  have len: "length tmp = length (digits_of (unat base) ?v)" using arg_cong [OF tmp, of length] by simp
  have "number str num base sz precision type = Some (str @ layout type sz precision
      (sign_of type num @ prefix_of type base) (rev tmp))"
  proof -
    have m: "(if int (length tmp) > precision then int (length tmp) else precision) = max precision (int (length tmp))"
      and z: "nat (max precision k - k) = nat (precision - k)" for k by auto
    have cb: "copy_back tmp (length tmp) xs = xs @ rev tmp" for xs by (simp add: copy_back_eq)
    note eval = b(3) if_True if_False simp_thms flag_left Let_def prod.case pad_flags pad_loop_eq
      pad_to_loop_eq m z cb pad_done layout_def sign_of_def prefix_of_def
    show ?thesis
    proof (cases ?neg)
      case True
      then have t: "(if - num = 0 then [48] else conv_loop ?dc base (- num) []) = tmp" by (simp add: tmp_def n_def)
      show ?thesis
        unfolding number_def
        by (cases "type AND LEFT = 0"; cases "type AND ZEROPAD = 0"; cases "type AND SPECIAL = 0";
          simp only: eval True t; simp)
    next
      case False
      then have t: "(if num = 0 then [48] else conv_loop ?dc base num []) = tmp"
        by (simp only: tmp_def n_def False if_False)
      show ?thesis
        unfolding number_def
        by (cases "type AND LEFT = 0"; cases "type AND ZEROPAD = 0"; cases "type AND SPECIAL = 0";
          cases "type AND PLUS = 0"; cases "type AND SPACE = 0"; simp only: eval False t; simp)
    qed
  qed
  then show ?thesis unfolding tmp .
qed

lemma magnitude_less: "magnitude type num < 2 ^ 32"
proof (cases "type AND SIGN \<noteq> 0 \<and> sint num < 0")
  case True
  then have "magnitude type num = unat (- num)" by (simp add: magnitude_def negated_magnitude)
  then show ?thesis using unat_lt32 [of "- num"] by simp
next
  case False
  then have "magnitude type num = unat num" by (simp only: magnitude_def if_False)
  then show ?thesis using unat_lt32 [of num] by simp
qed

text \<open>C35: \<open>number\<close> writes sign, base prefix, zeros and digits in the order and with the padding that
  flags, width and precision ask for; the digits are those of the argument, read as signed or
  unsigned as the flags say (the most negative \<open>int\<close> included), without leading zeros, and at
  most 32 of them, so they fit in \<open>tmp[36]\<close>.\<close>

theorem number_layout:
  assumes "2 \<le> base" "base \<le> 36"
  shows "\<exists>ds. number str num base sz precision type =
      Some (str @ layout type sz precision (sign_of type num @ prefix_of type base)
        (map (digits_char (type AND SMALL \<noteq> 0)) ds)) \<and>
    base_value (unat base) ds = magnitude type num \<and> (\<forall>d \<in> set ds. d < unat base) \<and>
    ds \<noteq> [] \<and> (magnitude type num \<noteq> 0 \<longrightarrow> hd ds \<noteq> 0) \<and> length ds \<le> 32"
proof -
  have b: "1 < unat base" using assms by (simp add: word_le_nat_alt)
  have "(2 :: nat) ^ 32 \<le> unat base ^ 32" using b by (intro power_mono) simp_all
  then have "magnitude type num < unat base ^ 32" by (rule less_le_trans [OF magnitude_less])
  then have "length (digits_of (unat base) (magnitude type num)) \<le> 32"
    using digits_of_facts(5) [OF b] by simp
  then show ?thesis
    using digits_of_facts(1-4) [OF b, of "magnitude type num"] number_eq [OF assms] by blast
qed

theorem number_layout_witness:
  "\<exists>ds. number [] 0xFFFFFFD6 10 6 (-1) 3 = Some (layout 3 6 (-1) [45] (map (digits_char False) ds)) \<and>
     base_value 10 ds = 42"
proof -
  have s: "sint (0xFFFFFFD6 :: u32) = - 42" by (simp add: sint32)
  show ?thesis
    using number_layout [where base = 10 and str = "[]" and num = "0xFFFFFFD6" and sz = 6 and precision = "-1" and type = 3]
    by (auto simp: sign_of_def prefix_of_def magnitude_def s)
qed

section \<open>Formatting whole strings\<close>

primrec text_at :: "memory \<Rightarrow> u32 \<Rightarrow> u8 list \<Rightarrow> bool" where
  "text_at m p [] \<longleftrightarrow> True"
| "text_at m p (c # cs) \<longleftrightarrow> m p = c \<and> text_at m (p + 1) cs"

definition plain :: "u8 list \<Rightarrow> bool" where
  "plain cs \<longleftrightarrow> 0 \<notin> set cs \<and> 37 \<notin> set cs"

lemma text_at_append [simp]:
  "text_at m p (xs @ ys) \<longleftrightarrow> text_at m p xs \<and> text_at m (p + of_nat (length xs)) ys"
  by (induction xs arbitrary: p) (auto simp: algebra_simps)

lemma vsprintf_plain:
  "text_at m p cs \<Longrightarrow> plain cs \<Longrightarrow> vsprintf m p args str = vsprintf m (p + of_nat (length cs)) args (str @ cs)"
proof (induction cs arbitrary: p str)
  case (Cons c cs)
  then have "vsprintf m p args str = vsprintf m (p + 1) args (str @ [c])"
    by (subst vsprintf.simps) (auto simp: plain_def)
  also have "\<dots> = vsprintf m (p + 1 + of_nat (length cs)) args ((str @ [c]) @ cs)"
    using Cons.prems by (intro Cons.IH) (auto simp: plain_def)
  finally show ?case by (simp add: algebra_simps)
qed simp

lemma vsprintf_end: "m p = 0 \<Longrightarrow> vsprintf m p args str = Some (Inr (str, m))"
  by (simp add: vsprintf.simps [of _ p])

lemma vsprintf_directive:
  "m p = 37 \<Longrightarrow> vsprintf m p args str = (case directive m p args str of
     None \<Rightarrow> None | Some (Inl e) \<Rightarrow> Some (Inl e)
   | Some (Inr (format, args, str, m)) \<Rightarrow> vsprintf m (format + 1) args str)"
  by (simp add: vsprintf.simps [of _ p])

text \<open>A conversion without flags, width, precision or qualifier.\<close>

lemma directive_bare:
  assumes "m (p + 1) = c" "c \<in> {99, 115, 111, 112, 120, 88, 100, 105, 117, 98, 110}"
  shows "directive m p args str = convert 0 (-1) (-1) m (p + 1) args str"
proof -
  have "scan_flags m p 0 = Some (0, p + 1)"
    using assms by (subst scan_flags.simps) (auto simp: Let_def)
  then show ?thesis
    using assms by (auto simp: directive_def field_width_def field_precision_def skip_qualifier_def is_digit_def)
qed

text \<open>Text without a percent sign is formatted to itself, whatever the arguments.\<close>

theorem vsprintf_plain_text:
  assumes "text_at m p (cs @ [0])" "plain cs"
  shows "vsprintf m p args [] = Some (Inr (cs, m))"
  using assms vsprintf_plain [of m p cs args "[]"] by (simp add: vsprintf_end)

text \<open>The numeral \<open>%d\<close> stands for.\<close>

definition decimal :: "u32 \<Rightarrow> u8 list" where
  "decimal n = (if sint n < 0 then [45] else [])
     @ map (\<lambda>d. of_nat (48 + d)) (digits_of 10 (nat \<bar>sint n\<bar>))"

lemma number_plain_decimal:
  "number str n 10 (-1) (-1) SIGN = Some (str @ decimal n)"
proof -
  have v: "magnitude 2 n = nat \<bar>sint n\<bar>"
    using uint_lt2p [of n] by (auto simp: magnitude_def sint32)
  have dc: "map (digits_char False) (digits_of 10 k) = map (\<lambda>d. of_nat (48 + d)) (digits_of 10 k)" for k
    using digits_of_facts(2) [of 10 k] by (auto simp: digits_char_def)
  have lay: "layout 2 (-1) (-1) lead digs = lead @ digs" for lead digs
    by (simp add: layout_def)
  have "sign_of 2 n = (if sint n < 0 then [45] else [])" "prefix_of 2 10 = []"
    by (simp_all add: sign_of_def prefix_of_def)
  then show ?thesis using number_eq [of 10 str n "-1" "-1" 2] by (simp add: v dc lay decimal_def)
qed

text \<open>A format with one \<open>%d\<close> puts the decimal numeral of its argument, as a signed number,
  in the place of the directive.\<close>

theorem vsprintf_decimal:
  assumes "text_at m p (xs @ [37, 100] @ ys @ [0])" "plain xs" "plain ys"
  shows "vsprintf m p (n # args) [] = Some (Inr (xs @ decimal n @ ys, m)) \<and>
    (\<exists>ds. decimal n = (if sint n < 0 then [45] else []) @ map (\<lambda>d. of_nat (48 + d)) ds \<and>
      int (base_value 10 ds) = \<bar>sint n\<bar>)"
proof -
  let ?q = "p + of_nat (length xs)"
  have q: "m ?q = 37" "m (?q + 1) = 100" "text_at m (?q + 2) ys" "m (?q + 2 + of_nat (length ys)) = 0"
    using assms(1) by (simp_all add: algebra_simps)
  have "vsprintf m p (n # args) [] = vsprintf m ?q (n # args) xs"
    using vsprintf_plain [of m p xs] assms by simp
  also have "\<dots> = vsprintf m (?q + 2) args (xs @ decimal n)"
    using directive_bare [of m ?q 100] q
    by (simp add: vsprintf_directive convert_def conv_number_def next_arg_def number_plain_decimal add.assoc)
  also have "\<dots> = vsprintf m (?q + 2 + of_nat (length ys)) args ((xs @ decimal n) @ ys)"
    by (rule vsprintf_plain [OF q(3) assms(3)])
  finally show ?thesis
    using vsprintf_end [of m "?q + 2 + of_nat (length ys)"] q(4) digits_of_facts(1) [of 10 "nat \<bar>sint n\<bar>"] by (auto simp: decimal_def)
qed


theorem vsprintf_plain_text_witness:
  "vsprintf ((\<lambda>_. 0)(5 := 72, 6 := 105)) 5 [] [] = Some (Inr ([72, 105], (\<lambda>_. 0)(5 := 72, 6 := 105)))"
  by (rule vsprintf_plain_text) (simp_all add: plain_def)

theorem vsprintf_decimal_witness:
  "\<exists>out. vsprintf ((\<lambda>_. 0)(5 := 72, 6 := 37, 7 := 100)) 5 [0xFFFFFFD6] [] = Some (Inr (72 # out, (\<lambda>_. 0)(5 := 72, 6 := 37, 7 := 100)))"
  using vsprintf_decimal [where m = "(\<lambda>_. 0)(5 := 72, 6 := 37, 7 := 100)" and p = 5 and xs = "[72]" and ys = "[]"
    and n = "0xFFFFFFD6" and args = "[]"]
  by (simp add: plain_def)

lemma cstr_nth: "cstr m a bs \<Longrightarrow> i < length bs \<Longrightarrow> m (a + of_nat i) = bs ! i"
proof (induction bs arbitrary: a i)
  case (Cons b bs)
  then show ?case using Cons.IH [of "a + 1" "i - 1"] by (cases i) (simp_all add: add.assoc)
qed simp

text \<open>\<open>%s\<close> writes its string, cut at the precision when there is one, and pads it with blanks
  to the field width, on the right when the \<open>-\<close> flag is set and on the left otherwise.\<close>

theorem convert_string:
  assumes "m format = 115" "cstr m a bs" "length bs < 2 ^ 31"
  shows "convert flags width precision m format (a # args) str = Some (Inr (format, args,
    (let t = (if precision < 0 then bs else take (nat precision) bs);
         blanks = replicate (nat (width - int (length t))) 32
     in str @ (if flags AND LEFT = 0 then blanks @ t else t @ blanks)), m))"
proof -
  have n: "sint (of_nat (length bs) :: u32) = int (length bs)"
    using assms(3) by (simp add: sint32 unat_of_nat)
  have copy: "copy_string m a (nat k) s = s @ take (nat k) bs" if "k \<le> int (length bs)" for k s
  proof -
    have "map (\<lambda>i. m (a + of_nat i)) [0..<nat k] = take (nat k) bs"
      using that cstr_nth [OF assms(2)] by (intro nth_equalityI) auto
    then show ?thesis by (simp add: copy_string_eq)
  qed
  have pd: "nat ((if k < n then k else n) - 1 - k) = (0 :: nat)" for k n :: int by auto
  note eval = convert_def next_arg_def n Let_def strlen_cstr [OF assms(2)] pad_to_loop_eq pd assms(1)
  consider "precision < 0" | "0 \<le> precision" "precision < int (length bs)" | "0 \<le> precision" "int (length bs) \<le> precision"
    by linarith
  then show ?thesis
  proof cases
    case 1
    then show ?thesis using copy [of "int (length bs)"] by (simp add: eval)
  next
    case 2
    then show ?thesis using copy [of precision] by (simp add: eval)
  next
    case 3
    then show ?thesis using copy [of "int (length bs)"] by (simp add: eval)
  qed
qed

theorem convert_string_witness:
  "convert 0 4 (-1) ((\<lambda>_. 0)(5 := 115, 9 := 72, 10 := 105)) 5 [9] [] =
     Some (Inr (5, [], [32, 32, 72, 105], (\<lambda>_. 0)(5 := 115, 9 := 72, 10 := 105)))"
proof -
  have "replicate 2 (32 :: u8) = [32, 32]" by (simp add: numeral_2_eq_2)
  then show ?thesis
    using convert_string [where m = "(\<lambda>_. 0)(5 := 115, 9 := 72, 10 := 105)" and format = 5 and a = 9
      and bs = "[72, 105]" and flags = 0 and width = 4 and precision = "-1" and args = "[]" and str = "[]"]
    by (simp add: Let_def)
qed

text \<open>A width or precision given by \<open>*\<close> does not work: the pointer is left on the star, so the
  argument is consumed but \<open>%*d\<close> comes out as the text \<open>%*d\<close> itself.\<close>

theorem vsprintf_star_literal:
  assumes "text_at m p (xs @ [37, 42, 100] @ ys @ [0])" "plain xs" "plain ys" "0 \<le> sint w"
  shows "vsprintf m p (w # args) [] = Some (Inr (xs @ [37, 42, 100] @ ys, m))"
proof -
  let ?q = "p + of_nat (length xs)"
  have q: "m ?q = 37" "m (?q + 1) = 42" "text_at m (?q + 2) (100 # ys)" "m (?q + 2 + of_nat (length (100 # ys))) = 0"
    using assms(1) by (simp_all add: algebra_simps)
  have "scan_flags m ?q 0 = Some (0, ?q + 1)"
    using q(2) by (subst scan_flags.simps) (simp add: Let_def)
  then have d: "directive m ?q (w # args) xs = Some (Inr (?q + 1, args, xs @ [37, 42], m))"
    using q(2) assms(4)
    by (simp add: directive_def field_width_def field_precision_def skip_qualifier_def is_digit_def
        next_arg_def convert_def)
  have "vsprintf m p (w # args) [] = vsprintf m ?q (w # args) xs"
    using vsprintf_plain [of m p xs] assms by simp
  also have "\<dots> = vsprintf m (?q + 2) args (xs @ [37, 42])"
    using d by (simp add: vsprintf_directive q(1) add.assoc)
  also have "\<dots> = vsprintf m (?q + 2 + of_nat (length (100 # ys))) args ((xs @ [37, 42]) @ 100 # ys)"
    by (rule vsprintf_plain [OF q(3)]) (use assms(3) in \<open>simp add: plain_def\<close>)
  finally show ?thesis
    using vsprintf_end [of m "?q + 2 + of_nat (length (100 # ys))"] q(4) by simp
qed

theorem vsprintf_star_literal_witness:
  "vsprintf ((\<lambda>_. 0)(5 := 37, 6 := 42, 7 := 100)) 5 [4, 9] [] =
     Some (Inr ([37, 42, 100], (\<lambda>_. 0)(5 := 37, 6 := 42, 7 := 100)))"
  using vsprintf_star_literal [where m = "(\<lambda>_. 0)(5 := 37, 6 := 42, 7 := 100)" and p = 5 and xs = "[]"
    and ys = "[]" and w = 4 and args = "[9]"]
  by (simp add: plain_def)

text \<open>\<open>printf\<close> of plain text shows that text on the console; when it does not fit in the static
  buffer of 1024 bytes, the buffer is overrun.\<close>

theorem printf_text:
  assumes "text_at (mem s) p (cs @ [0])" "plain cs"
  shows "printf p args s =
    (if length cs < 1024 then Some (Inr (puts_color 0 15 cs s)) else Some (Inl Undefined))"
proof -
  have "vsprintf (mem s) p args [] = Some (Inr (cs, mem s))"
    using assms vsprintf_plain [of "mem s" p cs args "[]"] by (simp add: vsprintf_end)
  moreover have "write_local (buff_bytes cs) 0 0 15 s = Some (puts_color 0 15 cs s)"
    by (rule write_local_string) (use assms(2) in \<open>auto simp: buff_bytes_def plain_def dest: nth_mem\<close>)
  ultimately show ?thesis by (simp add: printf_def printf_color_def)
qed

theorem printf_text_witness:
  "printf 0x100000 [] (blank_console\<lparr>mem := (\<lambda>_. 0)(0x100000 := 72)\<rparr>)
     = Some (Inr (puts_color 0 15 [72] (blank_console\<lparr>mem := (\<lambda>_. 0)(0x100000 := 72)\<rparr>)))"
  using printf_text [where s = "blank_console\<lparr>mem := (\<lambda>_. 0)(0x100000 := 72)\<rparr>" and p = "0x100000" and cs = "[72]"]
  by (simp add: plain_def)

end
