(* ===== verification/Format.thy ===== *)
theory Format
  imports Printf
begin

text \<open>
  Formats as sequences of pieces: \<open>printf\<close> writes for each piece what stands for its argument.
  The panic trace, the page-fault report and the register dump are all printed this way.
\<close>

section \<open>Pieces\<close>

datatype piece = Text "u8 list" | Signed u32 | Hex u32 | Hex_upper u32 | Str u32 "u8 list" | Chr u32

primrec spec_of :: "piece \<Rightarrow> u8 list" where
  "spec_of (Text cs) = cs"
| "spec_of (Signed n) = [37, 100]"
| "spec_of (Hex n) = [37, 120]"
| "spec_of (Hex_upper n) = [37, 88]"
| "spec_of (Str a bs) = [37, 115]"
| "spec_of (Chr c) = [37, 99]"

primrec args_of :: "piece \<Rightarrow> u32 list" where
  "args_of (Text cs) = []"
| "args_of (Signed n) = [n]"
| "args_of (Hex n) = [n]"
| "args_of (Hex_upper n) = [n]"
| "args_of (Str a bs) = [a]"
| "args_of (Chr c) = [c]"

definition hexadecimal :: "u32 \<Rightarrow> u8 list" where
  "hexadecimal n = map (digits_char True) (digits_of 16 (unat n))"

definition hexadecimal_upper :: "u32 \<Rightarrow> u8 list" where
  "hexadecimal_upper n = map (digits_char False) (digits_of 16 (unat n))"

primrec text_of :: "piece \<Rightarrow> u8 list" where
  "text_of (Text cs) = cs"
| "text_of (Signed n) = decimal n"
| "text_of (Hex n) = hexadecimal n"
| "text_of (Hex_upper n) = hexadecimal_upper n"
| "text_of (Str a bs) = bs"
| "text_of (Chr c) = [ucast c]"

primrec piece_ok :: "memory \<Rightarrow> piece \<Rightarrow> bool" where
  "piece_ok m (Text cs) \<longleftrightarrow> plain cs"
| "piece_ok m (Signed n) \<longleftrightarrow> True"
| "piece_ok m (Hex n) \<longleftrightarrow> True"
| "piece_ok m (Hex_upper n) \<longleftrightarrow> True"
| "piece_ok m (Str a bs) \<longleftrightarrow> cstr m a bs \<and> length bs < 2 ^ 31"
| "piece_ok m (Chr c) \<longleftrightarrow> (ucast c :: u8) \<noteq> 0"

abbreviation format_of :: "piece list \<Rightarrow> u8 list" where
  "format_of ps \<equiv> concat (map spec_of ps)"

abbreviation output_of :: "piece list \<Rightarrow> u8 list" where
  "output_of ps \<equiv> concat (map text_of ps)"

lemma number_plain_hex: "number str n 16 (-1) (-1) SMALL = Some (str @ hexadecimal n)"
proof -
  have lay: "layout SMALL (-1) (-1) lead digs = lead @ digs" for lead digs
    by (simp add: layout_def)
  have v: "magnitude SMALL n = unat n" "sign_of SMALL n = []" "prefix_of SMALL 16 = []"
    by (simp_all add: magnitude_def sign_of_def prefix_of_def)
  then show ?thesis using number_eq [of 16 str n "-1" "-1" SMALL] by (simp add: lay hexadecimal_def)
qed

lemma number_plain_hex_upper: "number str n 16 (-1) (-1) 0 = Some (str @ hexadecimal_upper n)"
proof -
  have lay: "layout 0 (-1) (-1) lead digs = lead @ digs" for lead digs
    by (simp add: layout_def)
  have v: "magnitude 0 n = unat n" "sign_of 0 n = []" "prefix_of 0 16 = []"
    by (simp_all add: magnitude_def sign_of_def prefix_of_def)
  then show ?thesis using number_eq [of 16 str n "-1" "-1" 0] by (simp add: lay hexadecimal_upper_def)
qed

lemma convert_piece:
  assumes "piece_ok m pc" "spec_of pc = [37, c]" "m p = c" "args_of pc \<noteq> []"
  shows "convert 0 (-1) (-1) m p (args_of pc @ args) str = Some (Inr (p, args, str @ text_of pc, m))"
proof (cases pc)
  case (Str a bs)
  then show ?thesis
    using assms convert_string [of m p a bs 0 "-1" "-1" args str] by (simp add: Let_def)
next
  case (Chr x)
  then show ?thesis using assms by (simp add: convert_def next_arg_def pre_pad_loop_eq)
qed (use assms in \<open>auto simp: convert_def conv_number_def next_arg_def number_plain_decimal number_plain_hex number_plain_hex_upper\<close>)

lemma vsprintf_piece:
  assumes "piece_ok m pc" "text_at m p (spec_of pc)"
  shows "vsprintf m p (args_of pc @ args) str = vsprintf m (p + of_nat (length (spec_of pc))) args (str @ text_of pc)"
proof (cases "args_of pc = []")
  case True
  then obtain cs where "pc = Text cs" by (cases pc) auto
  then show ?thesis using assms vsprintf_plain by simp
next
  case False
  then obtain c where c: "spec_of pc = [37, c]" "c \<in> {99, 115, 111, 112, 120, 88, 100, 105, 117, 98, 110}"
    by (cases pc) auto
  have m: "m p = 37" "m (p + 1) = c" using assms(2) c(1) by simp_all
  have "directive m p (args_of pc @ args) str = Some (Inr (p + 1, args, str @ text_of pc, m))"
    using directive_bare [where m = m and p = p and c = c] m c convert_piece [OF assms(1) c(1) m(2) False] by simp
  then show ?thesis using m(1) c(1) by (simp add: vsprintf_directive add.assoc)
qed

lemma vsprintf_pieces_from:
  "list_all (piece_ok m) ps \<Longrightarrow> text_at m p (format_of ps) \<Longrightarrow>
     vsprintf m p (concat (map args_of ps) @ args) str = vsprintf m (p + of_nat (length (format_of ps))) args (str @ output_of ps)"
proof (induction ps arbitrary: p str)
  case (Cons pc ps)
  have "vsprintf m p (args_of pc @ concat (map args_of ps) @ args) str =
      vsprintf m (p + of_nat (length (spec_of pc))) (concat (map args_of ps) @ args) (str @ text_of pc)"
    using Cons.prems by (intro vsprintf_piece) simp_all
  then show ?case using Cons.IH Cons.prems by (simp add: algebra_simps)
qed simp

lemma vsprintf_pieces:
  assumes "text_at m p (format_of ps @ [0])" "list_all (piece_ok m) ps"
  shows "vsprintf m p (concat (map args_of ps)) [] = Some (Inr (output_of ps, m))"
  using vsprintf_pieces_from [of m ps p "[]" "[]"] assms by (simp add: vsprintf_end)

lemma digits_char_nonzero: "d < 16 \<Longrightarrow> digits_char b d \<noteq> 0"
proof -
  assume "d < 16"
  then have "unat (digits_char b d) = (if d < 10 then 48 + d else (if b then 97 else 65) + (d - 10))"
    by (simp add: digits_char_def unat_of_nat)
  then show ?thesis by (auto split: if_splits)
qed

lemma piece_text_nonzero: "piece_ok m pc \<Longrightarrow> 0 \<notin> set (text_of pc)"
proof (cases pc)
  case (Signed n)
  have "digits_char False d \<noteq> 0 \<and> d < 10" if "d \<in> set (digits_of 10 (nat \<bar>sint n\<bar>))" for d
    using digits_of_facts(2) [of 10 "nat \<bar>sint n\<bar>"] digits_char_nonzero [of d] that by auto
  then show ?thesis by (force simp: Signed decimal_def digits_char_def)
next
  case (Hex n)
  show ?thesis
    using digits_of_facts(2) [of 16 "unat n"] digits_char_nonzero by (force simp: Hex hexadecimal_def)
next
  case (Hex_upper n)
  show ?thesis
    using digits_of_facts(2) [of 16 "unat n"] digits_char_nonzero by (force simp: Hex_upper hexadecimal_upper_def)
qed (auto simp: plain_def dest: cstr_no_nul)

lemma printf_color_pieces:
  assumes "text_at (mem s) p (format_of ps @ [0])" "list_all (piece_ok (mem s)) ps"
  shows "printf_color bg fg p (concat (map args_of ps)) s =
    (if length (output_of ps) < 1024 then Some (Inr (puts_color bg fg (output_of ps) s)) else Some (Inl Undefined))"
proof -
  have "0 \<notin> set (output_of ps)" using assms(2) piece_text_nonzero by (auto simp: list_all_iff)
  then have "write_local (buff_bytes (output_of ps)) 0 bg fg s = Some (puts_color bg fg (output_of ps) s)"
    by (intro write_local_string) (auto simp: buff_bytes_def dest: nth_mem)
  then show ?thesis using vsprintf_pieces [OF assms] by (simp add: printf_color_def)
qed

text \<open>C19: \<open>printf\<close> and \<open>printf_color\<close> show a format made of text and of the directives \<open>%d\<close>, \<open>%x\<close>, \<open>%X\<close>, \<open>%s\<close> and \<open>%c\<close> piece
  by piece: each directive takes the next argument and is replaced by what stands for it, the
  text is shown as it is. A result of 1024 characters or more overruns the static buffer.\<close>

theorem printf_pieces:
  assumes "text_at (mem s) p (format_of ps @ [0])" "list_all (piece_ok (mem s)) ps"
  shows "printf_color bg fg p (concat (map args_of ps)) s =
      (if length (output_of ps) < 1024 then Some (Inr (puts_color bg fg (output_of ps) s)) else Some (Inl Undefined)) \<and>
    printf p (concat (map args_of ps)) s =
      (if length (output_of ps) < 1024 then Some (Inr (puts_color 0 15 (output_of ps) s)) else Some (Inl Undefined))"
  using printf_color_pieces [OF assms] by (simp add: printf_def)

theorem printf_pieces_witness:
  "printf 0x5000 [0xFFFFFFF9, 0x6000] (blank_console\<lparr>mem := (\<lambda>_. 0)(0x5000 := 37, 0x5001 := 100, 0x5002 := 37, 0x5003 := 115, 0x6000 := 33)\<rparr>) =
     Some (Inr (puts_color 0 15 [45, 55, 33]
       (blank_console\<lparr>mem := (\<lambda>_. 0)(0x5000 := 37, 0x5001 := 100, 0x5002 := 37, 0x5003 := 115, 0x6000 := 33)\<rparr>)))"
  (is "printf _ _ ?s = _")
proof -
  have d: "decimal 0xFFFFFFF9 = [45, 55]" by (simp add: decimal_def sint32 digits_of_def low_digits.simps)
  have "text_at (mem ?s) 0x5000 (format_of [Signed 0xFFFFFFF9, Str 0x6000 [33]] @ [0])" by simp
  moreover have "list_all (piece_ok (mem ?s)) [Signed 0xFFFFFFF9, Str 0x6000 [33]]" by simp
  ultimately show ?thesis using printf_pieces [where s = ?s and p = "0x5000" and ps = "[Signed 0xFFFFFFF9, Str 0x6000 [33]]"] by (simp add: d)
qed

section \<open>Two ways to print a number\<close>

text \<open>A number has one numeral without leading zeros.\<close>

lemma numeral_unique:
  "base_value b ds = base_value b es \<Longrightarrow> 1 < b \<Longrightarrow> \<forall>d \<in> set ds \<union> set es. d < b \<Longrightarrow> (ds \<noteq> [] \<longrightarrow> hd ds \<noteq> 0) \<Longrightarrow>
     (es \<noteq> [] \<longrightarrow> hd es \<noteq> 0) \<Longrightarrow> ds = es"
proof (induction ds arbitrary: es rule: rev_induct)
  case Nil
  then show ?case by (cases es) (auto simp: base_value_Cons)
next
  case (snoc d ds)
  have "base_value b (ds @ [d]) \<noteq> 0"
    using snoc.prems(2,4) by (cases ds) (auto simp: base_value_Cons)
  then obtain e fs where es: "es = fs @ [e]" using snoc.prems(1) by (cases es rule: rev_cases) auto
  have lt: "d < b" "e < b" using snoc.prems(3) es by auto
  have "b * base_value b ds + d = b * base_value b fs + e" using snoc.prems(1) es by (simp add: base_value_snoc)
  then have "(b * base_value b ds + d) mod b = (b * base_value b fs + e) mod b"
      "(b * base_value b ds + d) div b = (b * base_value b fs + e) div b" by simp_all
  then have q: "d = e" "base_value b ds = base_value b fs" using lt by simp_all
  have "ds = fs"
    by (rule snoc.IH [OF q(2) snoc.prems(2)]) (use snoc.prems es in \<open>auto simp: hd_append split: if_splits\<close>)
  then show ?case using q es by simp
qed

lemma digits_of_unique:
  assumes "base_value b ds = n" "1 < b" "\<forall>d \<in> set ds. d < b" "ds \<noteq> []" "n \<noteq> 0 \<longrightarrow> hd ds \<noteq> 0" "n = 0 \<longrightarrow> ds = [0]"
  shows "ds = digits_of b n"
proof (cases "n = 0")
  case False
  then show ?thesis using assms digits_of_facts [OF assms(2), of n] by (intro numeral_unique [of b]) auto
qed (use assms in \<open>simp add: digits_of_def\<close>)

lemma digit_eq: "d < 16 \<Longrightarrow> digit d = digits_char True d"
  by (simp add: digit_def digits_char_def)

lemma sint_cases:
  obtains k where "unat (n :: u32) = k" "sint n = int k" "k < 0x80000000"
  | k where "unat n = k" "sint n = int k - 0x100000000" "0x80000000 \<le> k" "k < 0x100000000"
proof (cases "unat n < 2 ^ 31")
  case True
  then show ?thesis using that(1) [of "unat n"] sint32 [of n] by simp
next
  case False
  then show ?thesis using that(2) [of "unat n"] sint32 [of n] unat_lt32 [of n] by simp
qed

lemma decimal_length: "length (decimal n) \<le> 11"
proof -
  have "\<bar>sint n\<bar> < 0x100000000" by (cases n rule: sint_cases) linarith+
  then have "nat \<bar>sint n\<bar> < 10 ^ 10" by simp
  then have "length (digits_of 10 (nat \<bar>sint n\<bar>)) \<le> 10" by (intro digits_of_facts(5)) simp_all
  then show ?thesis by (auto simp: decimal_def)
qed

lemma hexadecimal_length: "length (hexadecimal n) \<le> 8"
  using digits_of_facts(5) [of 16 "unat n" 8] unat_lt32 [of n] by (simp add: hexadecimal_def)

lemma decimal_digits: "0 \<le> sint n \<Longrightarrow> decimal n = map digit (digits_of 10 (unat n))"
proof -
  assume n: "0 \<le> sint n"
  have "sint n = int (unat n)" using n by (cases n rule: sint_cases) simp_all
  then have "nat \<bar>sint n\<bar> = unat n" by (simp only: abs_of_nat nat_int)
  moreover have "\<forall>d \<in> set (digits_of 10 (unat n)). d < 10" using digits_of_facts(2) [of 10] by simp
  ultimately show ?thesis using n by (simp add: decimal_def digit_def)
qed

lemma write_dec_digits: "monitor_write_dec c0 c20 n bg fg s = Some (puts_color bg fg (map digit (digits_of 10 (unat n))) s)"
proof (cases "n = 0")
  case True
  then show ?thesis by (simp add: monitor_write_dec_def digits_of_def digit_def puts_color_def)
next
  case False
  obtain ds where ds: "monitor_write_dec c0 c20 n bg fg s = Some (puts_color bg fg (map digit ds) s)"
      "base_value 10 ds = unat n" "\<forall>d \<in> set ds. d < 10" "ds \<noteq> []" "n \<noteq> 0 \<longrightarrow> hd ds \<noteq> 0"
    using monitor_write_dec_prints [of c0 c20 n bg fg s] by blast
  have "ds = digits_of 10 (unat n)"
    by (rule digits_of_unique) (use ds False in \<open>auto simp: unat_eq_0\<close>)
  then show ?thesis using ds(1) by simp
qed

lemma write_hex_digits:
  "monitor_write_hex n bg fg s = puts_color bg fg ([48, 120] @ (if n = 0 then [] else hexadecimal n)) s"
proof -
  obtain ds where ds: "monitor_write_hex n bg fg s = puts_color bg fg ([48, 120] @ map digit ds) s"
      "base_value 16 ds = unat n" "\<forall>d \<in> set ds. d < 16" "n = 0 \<longrightarrow> ds = []" "n \<noteq> 0 \<longrightarrow> ds \<noteq> [] \<and> hd ds \<noteq> 0"
    using monitor_write_hex_prints [of n bg fg s] by blast
  show ?thesis
  proof (cases "n = 0")
    case False
    have "ds = digits_of 16 (unat n)"
      by (rule digits_of_unique) (use ds False in \<open>auto simp: unat_eq_0\<close>)
    moreover from this have "map digit ds = hexadecimal n" using ds(3) by (simp add: hexadecimal_def digit_eq)
    ultimately show ?thesis using ds(1) False by simp
  qed (use ds in simp)
qed

text \<open>C12: the console's own number printers agree with the formatted output: \<open>monitor_write_dec\<close> does
  what \<open>printf_color\<close> does for \<open>"%d"\<close> of a number that is not negative, and \<open>monitor_write_hex\<close> what it
  does for \<open>"0x%x"\<close>, except for 0, which it shows without a digit.\<close>

theorem write_number_is_printf:
  assumes "text_at (mem s) f [37, 100, 0]" "text_at (mem s) h [48, 120, 37, 120, 0]"
  shows "(0 \<le> sint n \<longrightarrow> printf_color bg fg f [n] s = map_option Inr (monitor_write_dec c0 c20 n bg fg s)) \<and>
    printf_color bg fg h [n] s =
      Some (Inr (let t = monitor_write_hex n bg fg s in if n = 0 then monitor_putc_color 48 bg fg t else t))"
proof -
  have "length (decimal n) < 1024" using decimal_length [of n] by simp
  then have d: "printf_color bg fg f [n] s = Some (Inr (puts_color bg fg (decimal n) s))"
    using printf_color_pieces [of s f "[Signed n]" bg fg] assms(1) by simp
  have "length (hexadecimal n) < 1022" using hexadecimal_length [of n] by simp
  then have h: "printf_color bg fg h [n] s = Some (Inr (puts_color bg fg ([48, 120] @ hexadecimal n) s))"
    using printf_color_pieces [of s h "[Text [48, 120], Hex n]" bg fg] assms(2) by (simp add: plain_def)
  have z: "hexadecimal 0 = [48]" by (simp add: hexadecimal_def digits_of_def digits_char_def)
  show ?thesis
    using d h by (auto simp: write_dec_digits decimal_digits write_hex_digits z Let_def puts_color_append puts_color_def)
qed

theorem write_number_is_printf_witness:
  "printf_color 0 15 0x5000 [42] (blank_console\<lparr>mem := (\<lambda>_. 0)(0x5000 := 37, 0x5001 := 100, 0x6000 := 48, 0x6001 := 120, 0x6002 := 37, 0x6003 := 120)\<rparr>)
   = map_option Inr (monitor_write_dec (\<lambda>_. 0) (\<lambda>_. 0) 42 0 15
       (blank_console\<lparr>mem := (\<lambda>_. 0)(0x5000 := 37, 0x5001 := 100, 0x6000 := 48, 0x6001 := 120, 0x6002 := 37, 0x6003 := 120)\<rparr>))"
  (is "printf_color _ _ _ _ ?s = _")
proof -
  have "text_at (mem ?s) 0x5000 [37, 100, 0]" "text_at (mem ?s) 0x6000 [48, 120, 37, 120, 0]" by simp_all
  from write_number_is_printf [OF this, of 42 0 15 "\<lambda>_. 0" "\<lambda>_. 0"] show ?thesis by (simp add: sint32)
qed

end
