(* ===== verification/Debug.thy ===== *)
theory Debug
  imports Format FrameStack
begin

text \<open>
  Kernel symbols and the panic trace: \<open>src/elf.c\<close> and \<open>src/debug.c\<close>. Section headers and symbols
  are the packed structures of \<open>include/elf.h\<close> in memory, 40 and 16 bytes; the multiboot structure
  has \<open>num\<close>, \<open>addr\<close> and \<open>shndx\<close> at 28, 36 and 40. String literals are addresses.
\<close>

section \<open>The symbol table of the kernel\<close>

record elf =
  symtab :: u32
  symtabsz :: u32
  strtab :: u32
  strtabsz :: u32

definition sh_name :: "memory \<Rightarrow> u32 \<Rightarrow> u32" where "sh_name m h = load32 m h"
definition sh_addr :: "memory \<Rightarrow> u32 \<Rightarrow> u32" where "sh_addr m h = load32 m (h + 12)"
definition sh_size :: "memory \<Rightarrow> u32 \<Rightarrow> u32" where "sh_size m h = load32 m (h + 20)"

text \<open>
  The loop over the section headers, \<open>n\<close> of them left from the one at \<open>sh\<close>; \<open>tab\<close> is the section
  name table, \<open>l1\<close> and \<open>l2\<close> the literals \<open>".strtab"\<close> and \<open>".symtab"\<close>.
\<close>

primrec elf_sections :: "memory \<Rightarrow> u32 \<Rightarrow> u32 \<Rightarrow> u32 \<Rightarrow> u32 \<Rightarrow> nat \<Rightarrow> elf \<Rightarrow> elf option" where
  "elf_sections m tab l1 l2 sh 0 e = Some e"
| "elf_sections m tab l1 l2 sh (Suc n) e =
     (let name = tab + sh_name m sh + PAGE_OFFSET
      in case strcmp m name l1 of
           None \<Rightarrow> None
         | Some r \<Rightarrow>
             let e = (if r = 0 then e\<lparr>strtab := sh_addr m sh + PAGE_OFFSET, strtabsz := sh_size m sh\<rparr> else e)
             in case strcmp m name l2 of
                  None \<Rightarrow> None
                | Some r \<Rightarrow>
                    let e = (if r = 0 then e\<lparr>symtab := sh_addr m sh + PAGE_OFFSET, symtabsz := sh_size m sh\<rparr> else e)
                    in elf_sections m tab l1 l2 (sh + 40) n e)"

text \<open>The structure returned is a local; what it holds before, \<open>e\<close>, is whatever is on the stack.\<close>

definition elf_from_multiboot :: "u32 \<Rightarrow> u32 \<Rightarrow> elf \<Rightarrow> u32 \<Rightarrow> memory \<Rightarrow> elf option" where
  "elf_from_multiboot l1 l2 e mb m =
     (let sh = load32 m (mb_addr mb);
          shstrtab = sh_addr m (sh + 40 * load32 m (mb_shndx mb))
      in elf_sections m shstrtab l1 l2 sh (unat (load32 m (mb_num mb))) e)"

definition st_name :: "memory \<Rightarrow> u32 \<Rightarrow> u32" where "st_name m y = load32 m y"
definition st_value :: "memory \<Rightarrow> u32 \<Rightarrow> u32" where "st_value m y = load32 m (y + 4)"
definition st_size :: "memory \<Rightarrow> u32 \<Rightarrow> u32" where "st_size m y = load32 m (y + 8)"
definition st_info :: "memory \<Rightarrow> u32 \<Rightarrow> u8" where "st_info m y = m (y + 12)"

primrec lookup_loop :: "memory \<Rightarrow> u32 \<Rightarrow> u32 \<Rightarrow> u32 \<Rightarrow> nat \<Rightarrow> u32" where
  "lookup_loop m strs address y 0 = 0"
| "lookup_loop m strs address y (Suc n) =
     (if st_info m y AND 0xF \<noteq> 2 then lookup_loop m strs address (y + 16) n
      else if address \<ge> st_value m y \<and> address < st_value m y + st_size m y then strs + st_name m y
      else lookup_loop m strs address (y + 16) n)"

definition elf_lookup_symbol :: "u32 \<Rightarrow> elf \<Rightarrow> memory \<Rightarrow> u32" where
  "elf_lookup_symbol address e m = lookup_loop m (strtab e) address (symtab e) (unat (symtabsz e div 16))"

section \<open>The panic trace\<close>

text \<open>\<open>kernel_elf\<close> and the local static \<open>round\<close> of \<open>print_cur_status\<close>.\<close>

record debug_state = console +
  kernel_elf :: elf
  round_no :: u32

definition init_debug :: "u32 \<Rightarrow> u32 \<Rightarrow> elf \<Rightarrow> u32 \<Rightarrow> 'a debug_state_scheme \<Rightarrow> 'a debug_state_scheme option" where
  "init_debug l1 l2 e glb_mboot_ptr s =
     map_option (\<lambda>e. s\<lparr>kernel_elf := e\<rparr>) (elf_from_multiboot l1 l2 e glb_mboot_ptr (mem s))"

text \<open>The frame pointers are followed until one is 0; \<open>fmt\<close> is the literal \<open>"   [0x%x] %s\n"\<close>.\<close>

partial_function (option) print_stack_trace ::
    "u32 \<Rightarrow> u32 \<Rightarrow> 'a debug_state_scheme \<Rightarrow> 'a debug_state_scheme result option" where
  "print_stack_trace fmt ebp s =
     (if ebp \<noteq> 0
      then let eip = load32 (mem s) (ebp + 4)
           in case printf fmt [eip, elf_lookup_symbol eip (kernel_elf s) (mem s)] s of
                None \<Rightarrow> None
              | Some (Inl e) \<Rightarrow> Some (Inl e)
              | Some (Inr s) \<Rightarrow> print_stack_trace fmt (load32 (mem s) ebp) s
      else Some (Inr s))"

text \<open>
  \<open>print_stack_info\<close> prints the message, the trace and a last line, and stays in \<open>while (1)\<close>: the
  result is the state it stays in.
\<close>

definition print_stack_info ::
    "u32 \<Rightarrow> u32 \<Rightarrow> u32 \<Rightarrow> u32 \<Rightarrow> u32 \<Rightarrow> 'a debug_state_scheme \<Rightarrow> 'a debug_state_scheme result option" where
  "print_stack_info fmt1 fmt2 fmt3 ebp msg s =
     bindO (printf fmt1 [msg] s) (\<lambda>s.
     bindO (print_stack_trace fmt2 ebp s) (\<lambda>s.
     printf fmt3 [] s))"

text \<open>The five lines of \<open>print_cur_status\<close>; the formats are the literals in their order.\<close>

definition print_cur_status ::
    "(nat \<Rightarrow> u32) \<Rightarrow> u16 \<Rightarrow> u16 \<Rightarrow> u16 \<Rightarrow> u16 \<Rightarrow> 'a debug_state_scheme \<Rightarrow> 'a debug_state_scheme result option" where
  "print_cur_status fmt reg1 reg2 reg3 reg4 s =
     (let n = round_no s
      in bindO (printf (fmt 0) [n, ucast reg1 AND 3] s) (\<lambda>s.
         bindO (printf (fmt 1) [n, ucast reg1] s) (\<lambda>s.
         bindO (printf (fmt 2) [n, ucast reg2] s) (\<lambda>s.
         bindO (printf (fmt 3) [n, ucast reg3] s) (\<lambda>s.
         bindO (printf (fmt 4) [n, ucast reg4] s) (\<lambda>s.
         Some (Inr (s\<lparr>round_no := round_no s + 1\<rparr>))))))))"

section \<open>What the tables say\<close>

record symbol =
  sy_name :: u32
  sy_value :: u32
  sy_size :: u32
  sy_info :: u8

primrec symbols_at :: "memory \<Rightarrow> u32 \<Rightarrow> symbol list \<Rightarrow> bool" where
  "symbols_at m y [] \<longleftrightarrow> True"
| "symbols_at m y (x # xs) \<longleftrightarrow> st_name m y = sy_name x \<and> st_value m y = sy_value x \<and> st_size m y = sy_size x \<and>
     st_info m y = sy_info x \<and> symbols_at m (y + 16) xs"

definition covers :: "u32 \<Rightarrow> symbol \<Rightarrow> bool" where
  "covers a x \<longleftrightarrow> sy_info x AND 0xF = 2 \<and> sy_value x \<le> a \<and> a < sy_value x + sy_size x"

lemma lookup_loop_find:
  "symbols_at m y xs \<Longrightarrow> lookup_loop m strs a y (length xs) =
     (case find (covers a) xs of None \<Rightarrow> 0 | Some x \<Rightarrow> strs + sy_name x)"
  by (induction xs arbitrary: y) (auto simp: covers_def)

text \<open>\<open>elf_lookup_symbol\<close> returns the name of the first function symbol whose code covers the
  address, and NULL when there is none.\<close>

theorem elf_lookup_finds:
  assumes "symbols_at m (symtab e) xs" "unat (symtabsz e) div 16 = length xs"
  shows "elf_lookup_symbol a e m = (case find (covers a) xs of None \<Rightarrow> 0 | Some x \<Rightarrow> strtab e + sy_name x)"
  using lookup_loop_find [OF assms(1)] assms(2) by (simp add: elf_lookup_symbol_def unat_div)

record section_header =
  sec_name :: "u8 list"
  sec_addr :: u32
  sec_size :: u32

primrec sections_at :: "memory \<Rightarrow> u32 \<Rightarrow> u32 \<Rightarrow> section_header list \<Rightarrow> bool" where
  "sections_at m tab sh [] \<longleftrightarrow> True"
| "sections_at m tab sh (x # xs) \<longleftrightarrow> cstr m (tab + sh_name m sh + PAGE_OFFSET) (sec_name x) \<and>
     sh_addr m sh = sec_addr x \<and> sh_size m sh = sec_size x \<and> sections_at m tab (sh + 40) xs"

definition last_named :: "u8 list \<Rightarrow> section_header list \<Rightarrow> section_header option" where
  "last_named nm xs = find (\<lambda>x. sec_name x = nm) (rev xs)"

definition strtab_name :: "u8 list" where "strtab_name = [46, 115, 116, 114, 116, 97, 98]"
definition symtab_name :: "u8 list" where "symtab_name = [46, 115, 121, 109, 116, 97, 98]"

lemma find_snoc: "find P (xs @ [x]) = (case find P xs of None \<Rightarrow> if P x then Some x else None | Some y \<Rightarrow> Some y)"
  by (induction xs) auto

lemma last_named_Cons:
  "last_named nm (x # xs) = (case last_named nm xs of None \<Rightarrow> if sec_name x = nm then Some x else None | Some y \<Rightarrow> Some y)"
  by (simp add: last_named_def find_snoc)

definition section_part :: "u8 list \<Rightarrow> section_header list \<Rightarrow> u32 \<times> u32 \<Rightarrow> u32 \<times> u32" where
  "section_part nm xs d = (case last_named nm xs of None \<Rightarrow> d | Some x \<Rightarrow> (sec_addr x + PAGE_OFFSET, sec_size x))"

lemma section_part_Cons:
  "section_part nm (x # xs) d = section_part nm xs (if sec_name x = nm then (sec_addr x + PAGE_OFFSET, sec_size x) else d)"
  by (simp add: section_part_def last_named_Cons split: option.split)

lemma strcmp_0:
  assumes "cstr m p s" "cstr m q t"
  shows "\<exists>r. strcmp m p q = Some r \<and> (r = 0 \<longleftrightarrow> s = t)"
  using strcmp_cstr [OF assms] byte_diff_0_iff [OF cstr_no_nul [OF assms(1)] cstr_no_nul [OF assms(2)]] by simp

lemma elf_sections_last:
  assumes "cstr m l1 strtab_name" "cstr m l2 symtab_name"
  shows "sections_at m tab sh xs \<Longrightarrow> \<exists>e'. elf_sections m tab l1 l2 sh (length xs) e = Some e' \<and>
    (strtab e', strtabsz e') = section_part strtab_name xs (strtab e, strtabsz e) \<and>
    (symtab e', symtabsz e') = section_part symtab_name xs (symtab e, symtabsz e)"
proof (induction xs arbitrary: sh e)
  case Nil
  then show ?case by (simp add: section_part_def last_named_def)
next
  case (Cons x xs)
  let ?p = "tab + sh_name m sh + PAGE_OFFSET"
  have n: "cstr m ?p (sec_name x)" using Cons.prems by simp
  obtain r1 r2 where r: "strcmp m ?p l1 = Some r1" "r1 = 0 \<longleftrightarrow> sec_name x = strtab_name"
      "strcmp m ?p l2 = Some r2" "r2 = 0 \<longleftrightarrow> sec_name x = symtab_name"
    using strcmp_0 [OF n assms(1)] strcmp_0 [OF n assms(2)] by auto
  have d: "strtab_name \<noteq> symtab_name" by (simp add: strtab_name_def symtab_name_def)
  let ?e = "if r1 = 0 then e\<lparr>strtab := sec_addr x + PAGE_OFFSET, strtabsz := sec_size x\<rparr> else e"
  let ?f = "if r2 = 0 then ?e\<lparr>symtab := sec_addr x + PAGE_OFFSET, symtabsz := sec_size x\<rparr> else ?e"
  have step: "elf_sections m tab l1 l2 sh (length (x # xs)) e = elf_sections m tab l1 l2 (sh + 40) (length xs) ?f"
    using r(1,3) Cons.prems by (simp add: Let_def)
  have "sections_at m tab (sh + 40) xs" using Cons.prems by simp
  from Cons.IH [OF this, of ?f] obtain e' where
    e': "elf_sections m tab l1 l2 (sh + 40) (length xs) ?f = Some e'"
      "(strtab e', strtabsz e') = section_part strtab_name xs (strtab ?f, strtabsz ?f)"
      "(symtab e', symtabsz e') = section_part symtab_name xs (symtab ?f, symtabsz ?f)" by blast
  have "(strtab ?f, strtabsz ?f) = (if sec_name x = strtab_name then (sec_addr x + PAGE_OFFSET, sec_size x) else (strtab e, strtabsz e))"
    "(symtab ?f, symtabsz ?f) = (if sec_name x = symtab_name then (sec_addr x + PAGE_OFFSET, sec_size x) else (symtab e, symtabsz e))"
    using r(2,4) by auto
  then show ?case unfolding step using e' by (auto simp: section_part_Cons)
qed

text \<open>\<open>elf_from_multiboot\<close> takes address and size of the last sections named \<open>.strtab\<close> and
  \<open>.symtab\<close>, the addresses moved to the kernel window; without such a section the fields are
  whatever the uninitialised local held.\<close>

theorem elf_from_multiboot_sections:
  assumes "cstr m l1 strtab_name" "cstr m l2 symtab_name" "unat (load32 m (mb_num mb)) = length xs"
    and "sections_at m (sh_addr m (load32 m (mb_addr mb) + 40 * load32 m (mb_shndx mb))) (load32 m (mb_addr mb)) xs"
  shows "\<exists>e'. elf_from_multiboot l1 l2 e mb m = Some e' \<and>
    (strtab e', strtabsz e') = section_part strtab_name xs (strtab e, strtabsz e) \<and>
    (symtab e', symtabsz e') = section_part symtab_name xs (symtab e, symtabsz e)"
  using elf_sections_last [OF assms(1,2,4), of e] assms(3) by (simp add: elf_from_multiboot_def Let_def)

section \<open>What the panic trace shows\<close>

text \<open>\<open>P\<close> holds whatever is written to the screen.\<close>

definition off_screen :: "(memory \<Rightarrow> bool) \<Rightarrow> memory \<Rightarrow> bool" where
  "off_screen P m \<longleftrightarrow> (\<forall>m'. (\<forall>x. \<not> in_video x \<longrightarrow> m' x = m x) \<longrightarrow> P m')"

lemma off_screenD: "off_screen P m \<Longrightarrow> P m"
  by (simp add: off_screen_def)

lemma off_screen_conj: "off_screen (\<lambda>m. P m \<and> Q m) m \<longleftrightarrow> off_screen P m \<and> off_screen Q m"
  by (auto simp: off_screen_def)

lemma off_screen_puts:
  assumes "off_screen P (mem s)" "cursor_ok s"
  shows "off_screen P (mem (puts_color bg fg cs s)) \<and> cursor_ok (puts_color bg fg cs s)"
  using con.puts_spec [OF assms(2), of bg fg cs] assms(1)
  by (simp add: puts_color_con same_outside_def off_screen_def)

text \<open>The frames from \<open>ebp\<close> on: return address, the frame below and the name the symbol table has.\<close>

record stack_frame =
  ret_addr :: u32
  caller :: u32
  fn_name :: "u8 list"

primrec frames_at :: "elf \<Rightarrow> u32 \<Rightarrow> stack_frame list \<Rightarrow> memory \<Rightarrow> bool" where
  "frames_at e ebp [] m \<longleftrightarrow> ebp = 0"
| "frames_at e ebp (f # fs) m \<longleftrightarrow> ebp \<noteq> 0 \<and> load32 m (ebp + 4) = ret_addr f \<and> load32 m ebp = caller f \<and>
     cstr m (elf_lookup_symbol (ret_addr f) e m) (fn_name f) \<and> frames_at e (caller f) fs m"

definition frame_pieces :: "stack_frame \<Rightarrow> u32 \<Rightarrow> piece list" where
  "frame_pieces f a = [Text [32, 32, 32, 91, 48, 120], Hex (ret_addr f), Text [93, 32], Str a (fn_name f), Text [10]]"

definition frame_line :: "stack_frame \<Rightarrow> u8 list" where
  "frame_line f = [32, 32, 32, 91, 48, 120] @ hexadecimal (ret_addr f) @ [93, 32] @ fn_name f @ [10]"

definition frame_format :: "u8 list" where
  "frame_format = [32, 32, 32, 91, 48, 120, 37, 120, 93, 32, 37, 115, 10, 0]"

lemma puts_kernel_elf [simp]: "kernel_elf (puts_color bg fg cs s) = kernel_elf s"
  by (induction cs arbitrary: s) (simp_all add: puts_color_def monitor_putc_color_def screen_scroll_def move_cursor_def outb_def Let_def)

lemma print_frame:
  assumes "text_at (mem s) fmt frame_format" "cstr (mem s) a (fn_name f)" "length (fn_name f) < 1000"
  shows "printf fmt [ret_addr f, a] s = Some (Inr (puts_color 0 15 (frame_line f) s))"
proof -
  have "text_at (mem s) fmt (format_of (frame_pieces f a) @ [0])"
    using assms(1) by (simp add: frame_pieces_def frame_format_def)
  moreover have "list_all (piece_ok (mem s)) (frame_pieces f a)"
    using assms(2,3) by (simp add: frame_pieces_def plain_def)
  moreover have "length (frame_line f) < 1024"
    using hexadecimal_length [of "ret_addr f"] assms(3) by (simp add: frame_line_def)
  ultimately show ?thesis
    using printf_color_pieces [where s = s and p = fmt and ps = "frame_pieces f a" and bg = 0 and fg = 15]
    by (simp add: printf_def frame_pieces_def frame_line_def)
qed

lemma print_stack_trace_lines:
  "cursor_ok s \<Longrightarrow> off_screen (\<lambda>m. text_at m fmt frame_format) (mem s) \<Longrightarrow>
     off_screen (frames_at (kernel_elf s) ebp fs) (mem s) \<Longrightarrow> \<forall>f \<in> set fs. length (fn_name f) < 1000 \<Longrightarrow>
     print_stack_trace fmt ebp s = Some (Inr (puts_color 0 15 (concat (map frame_line fs)) s))"
proof (induction fs arbitrary: ebp s)
  case Nil
  then have "ebp = 0" using off_screenD by fastforce
  then show ?case by (simp add: print_stack_trace.simps puts_color_def)
next
  case (Cons f fs)
  note here = off_screenD [OF Cons.prems(3)]
  let ?t = "puts_color 0 15 (frame_line f) s"
  have p: "printf fmt [load32 (mem s) (ebp + 4), elf_lookup_symbol (load32 (mem s) (ebp + 4)) (kernel_elf s) (mem s)] s =
      Some (Inr ?t)"
    using print_frame [OF off_screenD [OF Cons.prems(2)]] here Cons.prems(4) by simp
  have "off_screen (frames_at (kernel_elf s) ebp (f # fs)) (mem ?t)"
    using off_screen_puts [OF Cons.prems(3,1)] by blast
  from off_screenD [OF this] this have nxt: "load32 (mem ?t) ebp = caller f" "off_screen (frames_at (kernel_elf ?t) (caller f) fs) (mem ?t)"
    by (auto simp: off_screen_def)
  have t: "cursor_ok ?t" "off_screen (\<lambda>m. text_at m fmt frame_format) (mem ?t)"
    using off_screen_puts [OF Cons.prems(2,1), of 0 15 "frame_line f"] by blast+
  from Cons.IH [OF t, of "caller f"] nxt Cons.prems(4)
  have "print_stack_trace fmt (load32 (mem ?t) ebp) ?t = Some (Inr (puts_color 0 15 (concat (map frame_line fs)) ?t))"
    by auto
  then show ?case using p here by (simp add: print_stack_trace.simps [of fmt ebp] puts_color_append Let_def)
qed

definition panic_format :: "u8 list" where
  "panic_format = [42, 42, 42, 32, 83, 121, 115, 116, 101, 109, 32, 112, 97, 110, 105, 99, 58, 32, 37, 115, 10, 0]"

text \<open>C14: a failed assertion shows its message, one line with return address and function name for
  each frame of the call stack, innermost first, and a line of stars, whatever the screen scrolls
  meanwhile; the trace ends at the frame pointer 0.\<close>

theorem panic_shows_call_stack:
  assumes "cursor_ok s" "off_screen (frames_at (kernel_elf s) ebp fs) (mem s)" "\<forall>f \<in> set fs. length (fn_name f) < 1000"
    and "off_screen (\<lambda>m. text_at m fa panic_format \<and> text_at m fb frame_format \<and> text_at m fc [42, 42, 42, 10, 0]) (mem s)"
    and "cstr (mem s) msg why" "length why < 1000"
  shows "print_stack_info fa fb fc ebp msg s = Some (Inr (puts_color 0 15
    ([42, 42, 42, 32, 83, 121, 115, 116, 101, 109, 32, 112, 97, 110, 105, 99, 58, 32] @ why @ [10] @
     concat (map frame_line fs) @ [42, 42, 42, 10]) s))"
proof -
  let ?ps = "[Text [42, 42, 42, 32, 83, 121, 115, 116, 101, 109, 32, 112, 97, 110, 105, 99, 58, 32], Str msg why, Text [10]]"
  let ?t = "puts_color 0 15 (output_of ?ps) s"
  let ?u = "puts_color 0 15 (concat (map frame_line fs)) ?t"
  note fm = off_screenD [OF assms(4)]
  have "printf fa (concat (map args_of ?ps)) s = Some (Inr ?t)"
    using printf_color_pieces [where s = s and p = fa and ps = ?ps and bg = 0 and fg = 15] fm assms(5,6)
    by (simp add: printf_def panic_format_def plain_def)
  then have p1: "printf fa [msg] s = Some (Inr ?t)" by simp
  have f2: "off_screen (\<lambda>m. text_at m fb frame_format) (mem s)"
    and f3: "off_screen (\<lambda>m. text_at m fc [42, 42, 42, 10, 0]) (mem s)"
    using assms(4) by (simp_all only: off_screen_conj)
  have t: "cursor_ok ?t" "off_screen (\<lambda>m. text_at m fb frame_format) (mem ?t)"
      "off_screen (\<lambda>m. text_at m fc [42, 42, 42, 10, 0]) (mem ?t)" "off_screen (frames_at (kernel_elf s) ebp fs) (mem ?t)"
    using off_screen_puts [OF f2 assms(1)] off_screen_puts [OF f3 assms(1)] off_screen_puts [OF assms(2,1)] by blast+
  have p2: "print_stack_trace fb ebp ?t = Some (Inr ?u)"
    by (rule print_stack_trace_lines [OF t(1,2) _ assms(3)]) (use t(4) in simp)
  have "off_screen (\<lambda>m. text_at m fc [42, 42, 42, 10, 0]) (mem ?u)"
    using off_screen_puts [OF t(3,1)] by blast
  from off_screenD [OF this] have "printf fc [] ?u = Some (Inr (puts_color 0 15 [42, 42, 42, 10] ?u))"
    using printf_color_pieces [where s = ?u and p = fc and ps = "[Text [42, 42, 42, 10]]" and bg = 0 and fg = 15]
    by (simp add: printf_def plain_def)
  then show ?thesis using p1 p2 by (simp add: print_stack_info_def puts_color_append)
qed

section \<open>Concrete runs\<close>

definition poke :: "u32 \<Rightarrow> u8 list \<Rightarrow> memory \<Rightarrow> memory" where
  "poke a bs m x = (if unat a \<le> unat x \<and> unat x - unat a < length bs then bs ! (unat x - unat a) else m x)"

definition one_symbol :: memory where
  "one_symbol = poke 0x7000 [1, 0, 0, 0, 0, 0x10, 0, 0, 0x20, 0, 0, 0, 2] (poke 0x8001 [102] (\<lambda>_. 0))"

definition some_elf :: elf where
  "some_elf = \<lparr>symtab = 0x7000, symtabsz = 16, strtab = 0x8000, strtabsz = 3\<rparr>"

theorem elf_lookup_finds_witness:
  "elf_lookup_symbol 0x1010 some_elf one_symbol = 0x8001 \<and> elf_lookup_symbol 0x1020 some_elf one_symbol = 0"
proof -
  let ?y = "\<lparr>sy_name = 1, sy_value = 0x1000, sy_size = 0x20, sy_info = 2\<rparr>"
  have y: "symbols_at one_symbol (symtab some_elf) [?y]"
    by (simp add: one_symbol_def some_elf_def poke_def st_name_def st_value_def st_size_def st_info_def load32_def)
  have n: "unat (symtabsz some_elf) div 16 = length [?y]" by (simp add: some_elf_def)
  show ?thesis
    unfolding elf_lookup_finds [OF y n] by (simp add: covers_def some_elf_def)
qed

definition one_section :: memory where
  "one_section = poke 0x5000 (strtab_name @ [0] @ symtab_name) (poke 0x601C [1] (poke 0x6025 [0x60]
     (poke 0x600D [0x30] (poke 0xC0003000 strtab_name (\<lambda>_. 0)))))"

theorem elf_from_multiboot_sections_witness:
  "\<exists>e. elf_from_multiboot 0x5000 0x5008 some_elf 0x6000 one_section = Some e \<and> symtab e = 0x7000 \<and> strtab e = 0xC0003000"
proof -
  note ev = one_section_def poke_def strtab_name_def symtab_name_def load32_def sh_name_def sh_addr_def sh_size_def
  let ?x = "\<lparr>sec_name = strtab_name, sec_addr = 0x3000, sec_size = 0\<rparr>"
  have "cstr one_section 0x5000 strtab_name" "cstr one_section 0x5008 symtab_name" by (simp_all add: ev)
  moreover have "unat (load32 one_section (0x6000 + 28)) = length [?x]" by (simp add: ev)
  moreover have "sections_at one_section (sh_addr one_section (load32 one_section (0x6000 + 36) + 40 * load32 one_section (0x6000 + 40)))
      (load32 one_section (0x6000 + 36)) [?x]" by (simp add: ev)
  ultimately show ?thesis
    using elf_from_multiboot_sections [of one_section "0x5000" "0x5008" "0x6000" "[?x]" some_elf]
    by (auto simp: section_part_def last_named_def strtab_name_def symtab_name_def some_elf_def)
qed

definition panic_memory :: memory where
  "panic_memory = poke 0x5000 panic_format (poke 0x5100 frame_format (poke 0x5200 [42, 42, 42, 10, 0]
     (poke 0x5300 [72, 105] (poke 0x9000 [0, 0, 0, 0, 0x10, 0x10] one_symbol))))"

definition panic_state :: debug_state where
  "panic_state = \<lparr>mem = panic_memory, cr3 = 0, ports = [], handlers = (\<lambda>_. None), cursor_x = 0, cursor_y = 0,
     kernel_elf = some_elf, round_no = 0\<rparr>"

theorem panic_shows_call_stack_witness:
  "print_stack_info 0x5000 0x5100 0x5200 0x9000 0x5300 panic_state = Some (Inr (puts_color 0 15
    ([42, 42, 42, 32, 83, 121, 115, 116, 101, 109, 32, 112, 97, 110, 105, 99, 58, 32] @ [72, 105] @ [10] @
     [32, 32, 32, 91, 48, 120] @ hexadecimal 0x1010 @ [93, 32] @ [102] @ [10] @ [42, 42, 42, 10]) panic_state))"
proof -
  let ?f = "\<lparr>ret_addr = 0x1010, caller = 0, fn_name = [102]\<rparr>"
  have m: "mem panic_state = panic_memory" "kernel_elf panic_state = some_elf" "cursor_ok panic_state"
    by (simp_all add: panic_state_def cursor_ok_def)
  note ev = poke_def panic_memory_def panic_format_def frame_format_def one_symbol_def some_elf_def load32_def elf_lookup_symbol_def
    st_name_def st_value_def st_size_def st_info_def in_video_def
  have "off_screen (frames_at some_elf 0x9000 [?f]) panic_memory"
    unfolding off_screen_def
  proof (intro allI impI)
    fix m' assume "\<forall>x. \<not> in_video x \<longrightarrow> m' x = panic_memory x"
    then have H: "m' x = panic_memory x" if "\<not> in_video x" for x using that by blast
    show "frames_at some_elf 0x9000 [?f] m'" by (simp add: H ev)
  qed
  moreover have "off_screen (\<lambda>m. text_at m 0x5000 panic_format \<and> text_at m 0x5100 frame_format \<and>
      text_at m 0x5200 [42, 42, 42, 10, 0]) panic_memory"
    unfolding off_screen_def
  proof (intro allI impI)
    fix m' assume "\<forall>x. \<not> in_video x \<longrightarrow> m' x = panic_memory x"
    then have H: "m' x = panic_memory x" if "\<not> in_video x" for x using that by blast
    show "text_at m' 0x5000 panic_format \<and> text_at m' 0x5100 frame_format \<and> text_at m' 0x5200 [42, 42, 42, 10, 0]"
      by (simp add: H ev)
  qed
  moreover have "cstr panic_memory 0x5300 [72, 105]" by (simp add: ev)
  ultimately show ?thesis
    using panic_shows_call_stack [where s = panic_state and fs = "[?f]" and fa = "0x5000" and fb = "0x5100"
        and fc = "0x5200" and ebp = "0x9000" and msg = "0x5300" and why = "[72, 105]"]
    by (simp add: m frame_line_def)
qed

end
