(* ===== verification/Trap.thy ===== *)
theory Trap
  imports Process Printf
begin

text \<open>
  Interrupts: \<open>src/trap.c\<close> (descriptor table, controller and timer set-up, the two C
  dispatchers) and the entry stubs of \<open>src/trap_s.s\<close>. A stack is the list of its words, the top
  first. The addresses of the stubs are link-time constants and arguments of \<open>init_trap\<close>; the
  handler behind a registered name is the argument \<open>call\<close> of the dispatchers.
\<close>

section \<open>State\<close>

record idt_entry =
  base_lo :: u16
  idt_sel :: u16
  idt_zero :: u8
  idt_flags :: u8
  base_hi :: u16

record idtr =
  idt_limit :: u16
  idt_base :: u32

record trap_state = proc_state +
  ticks :: u32
  idts :: "u8 \<Rightarrow> idt_entry"
  idtr_var :: idtr
  cpu_idtr :: idtr

text \<open>
  \<open>register_t\<close>, the stack as a dispatcher sees it. Its last two words, \<open>useresp\<close> and \<open>ss\<close>, are
  pushed only on a change of privilege level, which this kernel never makes; nothing reads them.
\<close>

record register_info =
  reg_ds :: u32
  reg_edi :: u32
  reg_esi :: u32
  reg_ebp :: u32
  reg_esp :: u32
  reg_ebx :: u32
  reg_edx :: u32
  reg_ecx :: u32
  reg_eax :: u32
  int_no :: u32
  err_code :: u32
  eip :: u32
  reg_cs :: u32
  eflags :: u32

section \<open>The interrupt descriptor table\<close>

definition setIdt :: "u8 \<Rightarrow> u32 \<Rightarrow> u16 \<Rightarrow> u8 \<Rightarrow> 'a trap_state_scheme \<Rightarrow> 'a trap_state_scheme" where
  "setIdt n b sl fl s =
     s\<lparr>idts := (idts s)(n := \<lparr>base_lo = ucast (b AND 0xFFFF), idt_sel = sl, idt_zero = 0, idt_flags = fl,
         base_hi = ucast (drop_bit 16 b AND 0xFFFF)\<rparr>)\<rparr>"

definition zero_entry :: idt_entry where
  "zero_entry = \<lparr>base_lo = 0, idt_sel = 0, idt_zero = 0, idt_flags = 0, base_hi = 0\<rparr>"

text \<open>The 32 calls for the exceptions, in order, and the 16 for the interrupt lines.\<close>

primrec set_isrs :: "(nat \<Rightarrow> u32) \<Rightarrow> nat \<Rightarrow> 'a trap_state_scheme \<Rightarrow> 'a trap_state_scheme" where
  "set_isrs stub 0 s = s"
| "set_isrs stub (Suc n) s = setIdt (of_nat n) (stub n) 0x08 0x8E (set_isrs stub n s)"

primrec set_irqs :: "(nat \<Rightarrow> u32) \<Rightarrow> nat \<Rightarrow> 'a trap_state_scheme \<Rightarrow> 'a trap_state_scheme" where
  "set_irqs stub 0 s = s"
| "set_irqs stub (Suc n) s = setIdt (of_nat (32 + n)) (stub n) 0x08 0x8E (set_irqs stub n s)"

definition init_pic :: "'a machine_scheme \<Rightarrow> 'a machine_scheme" where
  "init_pic s =
     (let s = outb 0x20 0x11 s; s = outb 0xA0 0x11 s; s = outb 0x21 0x20 s; s = outb 0xA1 0x28 s;
          s = outb 0x21 0x04 s; s = outb 0xA1 0x02 s; s = outb 0x21 0x01 s; s = outb 0xA1 0x01 s;
          s = outb 0x21 0x0 s
      in outb 0xA1 0x0 s)"

definition idt_to_idtr :: "idtr \<Rightarrow> 'a trap_state_scheme \<Rightarrow> 'a trap_state_scheme" where
  "idt_to_idtr r s = s\<lparr>cpu_idtr := r\<rparr>"

text \<open>\<open>sizeof(idtr_t)\<close> is 6. \<open>isr\<close>, \<open>irq\<close> and \<open>isr255\<close> are the addresses of the stubs.\<close>

definition init_trap ::
    "(nat \<Rightarrow> u32) \<Rightarrow> (nat \<Rightarrow> u32) \<Rightarrow> u32 \<Rightarrow> u32 \<Rightarrow> 'a trap_state_scheme \<Rightarrow> 'a trap_state_scheme" where
  "init_trap isr irq isr255 idts_addr s =
     (let s = init_pic s;
          s = s\<lparr>handlers := (\<lambda>_. None)\<rparr>;
          s = s\<lparr>idtr_var := \<lparr>idt_limit = 6 * 256 - 1, idt_base = idts_addr\<rparr>\<rparr>;
          s = s\<lparr>idts := (\<lambda>_. zero_entry)\<rparr>;
          s = set_isrs isr 32 s;
          s = set_irqs irq 16 s;
          s = setIdt 255 isr255 0x08 0x8E s
      in idt_to_idtr (idtr_var s) s)"

section \<open>The timer\<close>

definition timer_callback :: "'a trap_state_scheme \<Rightarrow> 'a trap_state_scheme" where
  "timer_callback s = schedule (s\<lparr>ticks := ticks s + 1\<rparr>)"

text \<open>The division faults for a frequency of 0.\<close>

definition init_timer :: "u32 \<Rightarrow> 'a trap_state_scheme \<Rightarrow> 'a trap_state_scheme result" where
  "init_timer f s =
     (let s = register_interrupt_handler 32 Timer_callback s;
          s = s\<lparr>ticks := 0\<rparr>
      in if f = 0 then Inl Undefined
         else
           let d = 1193180 div f;
               s = outb 0x43 0x36 s;
               low = ucast (d AND 0xFF);
               high = ucast (drop_bit 8 d AND 0xFF);
               s = outb 0x40 low s
           in Inr (outb 0x40 high s))"

definition getTicks :: "'a trap_state_scheme \<Rightarrow> u32" where
  "getTicks s = ticks s"

text \<open>
  \<open>sleep\<close> reads the counter over and over, while its process runs; \<open>interrupt\<close> is what the running
  process does up to the next interrupt and what this does, or an error that ends everything. The
  interrupt may switch to another process; then \<open>sleep\<close> reads again when its own process, \<open>p\<close>, has been
  switched back to.
\<close>

partial_function (option) others_run ::
    "('s trap_state_scheme \<Rightarrow> 's trap_state_scheme result) \<Rightarrow> u32 \<Rightarrow> 's trap_state_scheme \<Rightarrow>
       's trap_state_scheme result option" where
  "others_run interrupt p s =
     (if cur_proc s = p then Some (Inr s) else bindO (Some (interrupt s)) (others_run interrupt p))"

partial_function (option) sleep_loop ::
    "('s trap_state_scheme \<Rightarrow> 's trap_state_scheme result) \<Rightarrow> u32 \<Rightarrow> u32 \<Rightarrow> 's trap_state_scheme \<Rightarrow>
       's trap_state_scheme result option" where
  "sleep_loop interrupt st t s =
     (if ticks s - st < t
      then bindO (bindO (Some (interrupt s)) (others_run interrupt (cur_proc s))) (sleep_loop interrupt st t)
      else Some (Inr s))"

definition sleep ::
    "('s trap_state_scheme \<Rightarrow> 's trap_state_scheme result) \<Rightarrow> u32 \<Rightarrow> 's trap_state_scheme \<Rightarrow>
       's trap_state_scheme result option" where
  "sleep interrupt t s = (let st = getTicks s in sleep_loop interrupt st t s)"

section \<open>The dispatchers\<close>

text \<open>\<open>handlers[reg->int_no]\<close>; the table has 256 entries.\<close>

definition isr_handler ::
    "(handler \<Rightarrow> register_info \<Rightarrow> 'a console_scheme \<Rightarrow> 'a console_scheme result) \<Rightarrow> register_info \<Rightarrow>
       'a console_scheme \<Rightarrow> 'a console_scheme result" where
  "isr_handler call reg s =
     (if int_no reg \<ge> 256 then Inl Undefined
      else case handlers s (ucast (int_no reg)) of
             Some h \<Rightarrow> call h reg s
           | None \<Rightarrow>
               Inr (puts_color 0 1
                 ([73, 110, 116, 101, 114, 114, 117, 112, 116, 32, 73, 68, 58, 32] @ decimal (int_no reg) @ [10]) s))"

definition irq_handler ::
    "(handler \<Rightarrow> register_info \<Rightarrow> 'a machine_scheme \<Rightarrow> 'a machine_scheme result) \<Rightarrow> register_info \<Rightarrow>
       'a machine_scheme \<Rightarrow> 'a machine_scheme result" where
  "irq_handler call reg s =
     (let s = (if int_no reg \<ge> 40 then outb 0xA0 0x20 s else s);
          s = outb 0x20 0x20 s
      in if int_no reg \<ge> 256 then Inl Undefined
         else case handlers s (ucast (int_no reg)) of
                Some h \<Rightarrow> call h reg s
              | None \<Rightarrow> Inr s)"

section \<open>The entry stubs\<close>

record cpu =
  c_eax :: u32
  c_ecx :: u32
  c_edx :: u32
  c_ebx :: u32
  c_esp :: u32
  c_ebp :: u32
  c_esi :: u32
  c_edi :: u32
  c_ds :: u16
  c_es :: u16
  c_fs :: u16
  c_gs :: u16
  c_if :: bool

text \<open>\<open>push byte n\<close> sign-extends its byte.\<close>

definition push_byte :: "u8 \<Rightarrow> u32 list \<Rightarrow> u32 list" where
  "push_byte b st = scast b # st"

definition pusha :: "cpu \<Rightarrow> u32 list \<Rightarrow> u32 list" where
  "pusha c st = [c_edi c, c_esi c, c_ebp c, c_esp c, c_ebx c, c_edx c, c_ecx c, c_eax c] @ st"

text \<open>
  \<open>ISR_NOERRCODE\<close> and \<open>IRQ\<close> clear the interrupt flag (\<open>cli\<close>) and push a 0 and the vector; \<open>mov ax, ds; push eax\<close>
  follows \<open>pusha\<close>, and the four data segment registers get the kernel's selector.
\<close>

definition stub_enter :: "u8 \<Rightarrow> cpu \<Rightarrow> u32 list \<Rightarrow> u32 list \<times> cpu" where
  "stub_enter v c st =
     (let st = push_byte v (push_byte 0 st);
          st = pusha c st;
          eax = (c_eax c AND 0xFFFF0000) OR ucast (c_ds c)
      in (eax # st, c\<lparr>c_eax := (eax AND 0xFFFF0000) OR 0x10, c_ds := 0x10, c_es := 0x10, c_fs := 0x10, c_gs := 0x10, c_if := False\<rparr>))"

fun registers :: "u32 list \<Rightarrow> register_info option" where
  "registers (d # di # si # bp # sp # bx # dx # cx # ax # n # e # ip # cs # fl # st) =
     Some \<lparr>reg_ds = d, reg_edi = di, reg_esi = si, reg_ebp = bp, reg_esp = sp, reg_ebx = bx, reg_edx = dx,
       reg_ecx = cx, reg_eax = ax, int_no = n, err_code = e, eip = ip, reg_cs = cs, eflags = fl\<rparr>"
| "registers _ = None"

text \<open>
  The way out: \<open>pop eax\<close> and the segment registers, all four from the saved \<open>ds\<close>, \<open>popa\<close> (which skips the
  \<open>esp\<close> word), \<open>add esp, 8\<close>, \<open>iret\<close> to the same privilege level: instruction pointer, code segment, flags
  (bit 9 is the interrupt flag) and the stack that is left.
\<close>

fun stub_leave :: "u32 list \<Rightarrow> cpu \<Rightarrow> (cpu \<times> u32 \<times> u32 \<times> u32 \<times> u32 list) option" where
  "stub_leave (d # di # si # bp # sp # bx # dx # cx # ax # n # e # ip # cs # fl # st) c =
     Some (c\<lparr>c_eax := ax, c_ecx := cx, c_edx := dx, c_ebx := bx, c_ebp := bp, c_esi := si, c_edi := di,
       c_ds := ucast d, c_es := ucast d, c_fs := ucast d, c_gs := ucast d, c_if := bit fl 9\<rparr>, ip, cs, fl, st)"
| "stub_leave _ c = None"


section \<open>The descriptor table after \<open>init_trap\<close>\<close>

definition gate_offset :: "idt_entry \<Rightarrow> u32" where
  "gate_offset e = ucast (base_lo e) OR push_bit 16 (ucast (base_hi e))"

text \<open>
  The processor delivers a vector whose gate lies within the limit and is present (bit 7 of the flags): to
  the gate's code segment and offset, in the way that the flags say (\<open>0x8E\<close>: a 32-bit interrupt gate for
  ring 0).
\<close>

definition gate_target :: "'a trap_state_scheme \<Rightarrow> u8 \<Rightarrow> (u16 \<times> u8 \<times> u32) option" where
  "gate_target s v =
     (if 8 * unat v + 7 \<le> unat (idt_limit (cpu_idtr s)) \<and> idt_flags (idts s v) AND 0x80 \<noteq> 0
      then Some (idt_sel (idts s v), idt_flags (idts s v), gate_offset (idts s v)) else None)"

text \<open>A target in the kernel's code segment.\<close>

abbreviation (input) stub_at :: "u32 \<Rightarrow> (u16 \<times> u8 \<times> u32) option" where
  "stub_at a \<equiv> Some (0x08, 0x8E, a)"

lemma gate_offset_split: "ucast (ucast (b AND 0xFFFF) :: u16) OR push_bit 16 (ucast (ucast (drop_bit 16 b AND 0xFFFF) :: u16)) = (b :: u32)"
proof (rule bit_word_eqI)
  have m: "x AND 0xFFFF = take_bit 16 (x :: u32)" for x by (simp add: take_bit_eq_mask mask_eq_exp_minus_1)
  fix n assume "n < LENGTH(32)"
  then consider "n < 16" | "16 \<le> n" "n < 32" by fastforce
  then show "bit (ucast (ucast (b AND 0xFFFF) :: u16) OR push_bit 16 (ucast (ucast (drop_bit 16 b AND 0xFFFF) :: u16)) :: u32) n = bit b n"
    by cases (auto simp: m bit_simps)
qed

lemma setIdt_gate: "idts (setIdt n b sl fl s) n = \<lparr>base_lo = ucast (b AND 0xFFFF), idt_sel = sl, idt_zero = 0,
    idt_flags = fl, base_hi = ucast (drop_bit 16 b AND 0xFFFF)\<rparr>"
  by (simp add: setIdt_def)

definition gate :: "u32 \<Rightarrow> idt_entry" where
  "gate b = \<lparr>base_lo = ucast (b AND 0xFFFF), idt_sel = 0x08, idt_zero = 0, idt_flags = 0x8E,
     base_hi = ucast (drop_bit 16 b AND 0xFFFF)\<rparr>"

lemma gate_offset_gate [simp]: "gate_offset (gate b) = b" "idt_flags (gate b) = 0x8E" "idt_sel (gate b) = 0x08"
  by (simp_all add: gate_offset_def gate_def gate_offset_split)

lemma set_isrs_idts:
  "n \<le> 256 \<Longrightarrow> idts (set_isrs isr n s) v = (if unat v < n then gate (isr (unat v)) else idts s v)"
proof (induction n)
  case (Suc n)
  have "v = of_nat n \<longleftrightarrow> unat v = n" using Suc.prems by (auto simp: unat_of_nat)
  then show ?case using Suc by (auto simp: setIdt_def gate_def less_Suc_eq)
qed simp

lemma set_irqs_idts:
  "n \<le> 16 \<Longrightarrow> idts (set_irqs irq n s) v = (if 32 \<le> unat v \<and> unat v < 32 + n then gate (irq (unat v - 32)) else idts s v)"
proof (induction n)
  case (Suc n)
  have "v = of_nat (32 + n) \<longleftrightarrow> unat v = 32 + n" using Suc.prems by (simp add: word_unat_eq_iff unat_of_nat del: of_nat_add)
  then show ?case using Suc by (auto simp: setIdt_def gate_def less_Suc_eq)
qed auto

lemma init_trap_idts:
  "idts (init_trap isr irq isr255 a s) v =
     (if unat v < 32 then gate (isr (unat v)) else if unat v < 48 then gate (irq (unat v - 32))
      else if unat v = 255 then gate isr255 else zero_entry)"
proof -
  have "v = 255 \<longleftrightarrow> unat v = 255" by (auto simp: word_unat_eq_iff)
  then show ?thesis
    by (auto simp: init_trap_def Let_def idt_to_idtr_def setIdt_def set_irqs_idts set_isrs_idts gate_def)
qed

lemma set_isrs_other [simp]:
  "idtr_var (set_isrs f n s) = idtr_var s" "handlers (set_isrs f n s) = handlers s" "ports (set_isrs f n s) = ports s"
  by (induction n) (simp_all add: setIdt_def)

lemma set_irqs_other [simp]:
  "idtr_var (set_irqs f n s) = idtr_var s" "handlers (set_irqs f n s) = handlers s" "ports (set_irqs f n s) = ports s"
  by (induction n) (simp_all add: setIdt_def)

lemma init_trap_gate_targets:
  "gate_target (init_trap isr irq isr255 a s) v =
     (if unat v < 32 then stub_at (isr (unat v)) else if unat v < 48 then stub_at (irq (unat v - 32)) else None)"
  "cpu_idtr (init_trap isr irq isr255 a s) = \<lparr>idt_limit = 1535, idt_base = a\<rparr>"
  "handlers (init_trap isr irq isr255 a s) v = None"
proof -
  let ?s = "init_trap isr irq isr255 a s"
  show r: "cpu_idtr ?s = \<lparr>idt_limit = 1535, idt_base = a\<rparr>" and "handlers ?s v = None"
    by (simp_all add: init_trap_def Let_def idt_to_idtr_def setIdt_def)
  have "unat v \<noteq> 255 \<or> \<not> 8 * unat v + 7 \<le> unat (1535 :: u16)" by auto
  then show "gate_target ?s v =
      (if unat v < 32 then stub_at (isr (unat v)) else if unat v < 48 then stub_at (irq (unat v - 32)) else None)"
    by (auto simp: gate_target_def init_trap_idts r zero_entry_def)
qed

text \<open>C32: \<open>init_trap\<close> directs each of the 32 exceptions and 16 interrupt lines to its own stub, through an
  interrupt gate for ring 0 with the kernel's code segment, and leaves no handler registered. The table limit
  counts \<open>sizeof(idtr_t)\<close>, 6 bytes, for each of the 256 entries instead of the 8 bytes of \<open>idt_t\<close>, so it
  is 1535, and exactly the first 192 gates can be used: the one set up for vector 255 is complete but lies
  behind the limit.\<close>

theorem init_trap_gates:
  "gate_target (init_trap isr irq isr255 a s) v =
     (if unat v < 32 then Some (0x08, 0x8E, isr (unat v))
      else if unat v < 48 then Some (0x08, 0x8E, irq (unat v - 32)) else None) \<and>
   cpu_idtr (init_trap isr irq isr255 a s) = \<lparr>idt_limit = 6 * 256 - 1, idt_base = a\<rparr> \<and>
   (8 * unat v + 7 \<le> unat (idt_limit (cpu_idtr (init_trap isr irq isr255 a s)))) = (unat v < 192) \<and>
   idt_sel (idts (init_trap isr irq isr255 a s) 255) = 0x08 \<and> idt_flags (idts (init_trap isr irq isr255 a s) 255) = 0x8E \<and>
   gate_offset (idts (init_trap isr irq isr255 a s) 255) = isr255 \<and>
   handlers (init_trap isr irq isr255 a s) v = None"
  by (simp add: init_trap_gate_targets init_trap_idts) linarith

section \<open>The interrupt controllers after \<open>init_trap\<close>\<close>

text \<open>
  An 8259 takes an initialisation word with bit 4 set on its command port, and then on its data
  port the vector base, the cascade wiring and the mode; after that the data port is the mask.
\<close>

record pic =
  awaits :: nat
  vector_base :: u8
  cascade :: u8
  mask_reg :: u8

definition pic_command :: "u8 \<Rightarrow> pic \<Rightarrow> pic" where
  "pic_command v p = (if v AND 0x10 \<noteq> 0 then p\<lparr>awaits := 2, mask_reg := 0\<rparr> else p)"

definition pic_data :: "u8 \<Rightarrow> pic \<Rightarrow> pic" where
  "pic_data v p =
     (if awaits p = 2 then p\<lparr>vector_base := v AND 0xF8, awaits := 3\<rparr>
      else if awaits p = 3 then p\<lparr>cascade := v, awaits := 4\<rparr>
      else if awaits p = 4 then p\<lparr>awaits := 0\<rparr>
      else p\<lparr>mask_reg := v\<rparr>)"

definition pic_step :: "u16 \<Rightarrow> u16 \<times> u8 \<Rightarrow> pic \<Rightarrow> pic" where
  "pic_step port w p =
     (if fst w = port then pic_command (snd w) p else if fst w = port + 1 then pic_data (snd w) p else p)"

text \<open>Whatever state the two interrupt controllers are in, the ten bytes that \<open>init_trap\<close> sends
  leave both initialised: the master delivers its eight lines from vector 32 and the slave from
  vector 40, the slave hangs on line 2 of the master, and no line is masked.\<close>

theorem init_trap_remaps_pics:
  "\<exists>out. ports (init_trap isr irq isr255 a s) = ports s @ out \<and>
     fold (pic_step 0x20) out p = \<lparr>awaits = 0, vector_base = 32, cascade = 4, mask_reg = 0\<rparr> \<and>
     fold (pic_step 0xA0) out q = \<lparr>awaits = 0, vector_base = 40, cascade = 2, mask_reg = 0\<rparr>"
proof -
  have "ports (init_trap isr irq isr255 a s) = ports s @ [(0x20, 0x11), (0xA0, 0x11), (0x21, 0x20),
      (0xA1, 0x28), (0x21, 0x04), (0xA1, 0x02), (0x21, 0x01), (0xA1, 0x01), (0x21, 0), (0xA1, 0)]"
    by (simp add: init_trap_def Let_def idt_to_idtr_def setIdt_def init_pic_def outb_def)
  then show ?thesis
    by (cases p; cases q) (simp add: pic_step_def pic_command_def pic_data_def)
qed

text \<open>A dispatched interrupt line is acknowledged before its handler runs, at the slave too when
  it is one of the slave's (and only then); without a handler that is all that happens.\<close>

theorem irq_acknowledged_first:
  assumes "32 \<le> int_no reg" "int_no reg < 48"
  shows "irq_handler call reg s =
    (let s' = s\<lparr>ports := ports s @ (if int_no reg < 40 then [(0x20, 0x20)] else [(0xA0, 0x20), (0x20, 0x20)])\<rparr>
     in case handlers s (ucast (int_no reg)) of None \<Rightarrow> Inr s' | Some h \<Rightarrow> call h reg s')"
proof -
  have "\<not> 256 \<le> int_no reg" using assms(2) by (simp add: word_le_nat_alt word_less_nat_alt)
  then show ?thesis
    using assms by (auto simp: irq_handler_def Let_def outb_def not_less split: option.splits)
qed

section \<open>The timer\<close>

text \<open>The divisor that \<open>init_timer\<close> programs is the low half of 1193180 / \<open>f\<close>: from 19 Hz up it
  is the whole quotient, below it is cut off and the timer runs faster than asked.\<close>

theorem init_timer_divisor:
  assumes "f \<noteq> 0"
  shows "\<exists>s' low high. init_timer f s = Inr s' \<and> ports s' = ports s @ [(0x43, 0x36), (0x40, low), (0x40, high)] \<and>
    unat low + 256 * unat high = 1193180 div unat f mod 65536 \<and>
    (unat low + 256 * unat high = 1193180 div unat f \<longleftrightarrow> 19 \<le> unat f) \<and>
    ticks s' = 0 \<and> handlers s' 32 = Some Timer_callback"
proof -
  let ?d = "1193180 div f"
  have ud: "unat ?d = 1193180 div unat f" by (simp add: unat_div)
  have low: "unat (ucast (?d AND 0xFF) :: u8) = unat ?d mod 256"
  proof -
    have "?d AND 0xFF = take_bit 8 ?d" by (simp add: take_bit_eq_mask mask_eq_exp_minus_1)
    then show ?thesis by (simp only: unsigned_ucast_eq unsigned_take_bit_eq) (simp add: take_bit_eq_mod)
  qed
  have high: "unat (ucast (drop_bit 8 ?d AND 0xFF) :: u8) = unat ?d div 256 mod 256"
  proof -
    have "drop_bit 8 ?d AND 0xFF = take_bit 8 (drop_bit 8 ?d)" by (simp add: take_bit_eq_mask mask_eq_exp_minus_1)
    then show ?thesis
      by (simp only: unsigned_ucast_eq unsigned_take_bit_eq unat_drop_bit_eq) (simp add: take_bit_eq_mod drop_bit_eq_div)
  qed
  have sum: "unat (ucast (?d AND 0xFF) :: u8) + 256 * unat (ucast (drop_bit 8 ?d AND 0xFF) :: u8) = unat ?d mod 65536"
    unfolding low high using mod_mult2_eq [of "unat ?d" 256 256] by simp
  have "1193180 div n < 65536 \<longleftrightarrow> 19 \<le> n" if "n \<noteq> 0" for n :: nat
    using that by (simp add: div_less_iff_less_mult) linarith
  then have iff: "unat ?d mod 65536 = unat ?d \<longleftrightarrow> 19 \<le> unat f"
    using assms unfolding ud by (metis mod_less mod_less_divisor unat_eq_0 zero_less_numeral)
  obtain s' where "init_timer f s = Inr s'"
      "ports s' = ports s @ [(0x43, 0x36), (0x40, ucast (?d AND 0xFF)), (0x40, ucast (drop_bit 8 ?d AND 0xFF))]"
      "ticks s' = 0" "handlers s' 32 = Some Timer_callback"
    using assms by (auto simp: init_timer_def Let_def outb_def register_interrupt_handler_def)
  then show ?thesis using sum iff unfolding ud by metis
qed

lemma schedule_ticks [simp]: "ticks (schedule s) = ticks s"
  by (simp add: schedule_def change_proc_def switch_to_def save_context_def load_context_def Let_def)

text \<open>A sleep during which the process keeps running, along the states that the interrupts lead through.\<close>

lemma others_run_back [simp]: "cur_proc s = p \<Longrightarrow> others_run interrupt p s = Some (Inr s)"
  by (subst others_run.simps) simp

lemma others_run_along:
  assumes "\<And>i. i < n \<Longrightarrow> interrupt (f i) = Inr (f (Suc i)) \<and> cur_proc (f i) \<noteq> p" "cur_proc (f n) = p"
  shows "i \<le> n \<Longrightarrow> others_run interrupt p (f i) = Some (Inr (f n))"
proof (induction i rule: inc_induct)
  case base
  then show ?case using assms(2) by simp
next
  case (step i)
  then show ?case using assms(1) [of i] by (subst others_run.simps) simp
qed

text \<open>The sleeper has its turn every \<open>N\<close> interrupts and reads the counter only then.\<close>

lemma sleep_loop_rounds:
  assumes "0 < N" "\<And>i. interrupt (f i) = Inr (f (Suc i))" "\<And>i. cur_proc (f i) = p \<longleftrightarrow> N dvd i"
    and "\<And>j. j < n \<Longrightarrow> ticks (f (j * N)) - st < t" "\<not> ticks (f (n * N)) - st < t"
  shows "sleep_loop interrupt st t (f 0) = Some (Inr (f (n * N)))"
proof -
  have "j \<le> n \<Longrightarrow> sleep_loop interrupt st t (f (j * N)) = Some (Inr (f (n * N)))" for j
  proof (induction j rule: inc_induct)
    case base
    then show ?case using assms(5) by (subst sleep_loop.simps) simp
  next
    case (step j)
    have "\<not> N dvd j * N + Suc i" if "i < N - 1" for i
    proof -
      have "\<not> N dvd Suc i" using that by (auto dest: dvd_imp_le)
      then show ?thesis using dvd_add_right_iff [of N "j * N" "Suc i"] by simp
    qed
    then have away: "cur_proc (f (Suc (j * N) + i)) \<noteq> p" if "i < N - 1" for i using that assms(3) by simp
    have e: "Suc (j * N) + (N - 1) = Suc j * N" using assms(1) by simp
    have "cur_proc (f (Suc j * N)) = p" by (simp only: assms(3) dvd_triv_right)
    then have "others_run interrupt p (f (Suc (j * N) + 0)) = Some (Inr (f (Suc j * N)))"
      using others_run_along [of "N - 1" interrupt "\<lambda>i. f (Suc (j * N) + i)" p 0, unfolded e] assms(2) away by simp
    moreover have "cur_proc (f (j * N)) = p" by (simp add: assms(3))
    ultimately show ?case
      using step assms(2) [of "j * N"] assms(4) [of j] by (subst sleep_loop.simps) simp
  qed
  then show ?thesis by (metis le0 mult_0)
qed

text \<open>
  What the running process does between two timer interrupts: anything that leaves the process structures
  and the scheduler's globals alone, with its stack outside all of the structures.
\<close>

definition works :: "u32 list \<Rightarrow> 'a proc_state_scheme \<Rightarrow> 'a proc_state_scheme \<Rightarrow> bool" where
  "works ps s t \<longleftrightarrow> same_sched s t \<and> stack_clear ps (r_esp t) \<and>
     (\<forall>p \<in> set ps. \<forall>x. unat x + 4 \<le> area \<longrightarrow> load32 (mem t) (p + x) = load32 (mem s) (p + x))"

lemma works_slice: "works ps s t \<Longrightarrow> slice ps s (timer_callback t)"
  unfolding timer_callback_def by (rule slice.run) (auto simp: works_def same_sched_def)

lemma round_up:
  assumes "0 < (N :: nat)"
  shows "t \<le> N * ((t + N - 1) div N)" "N * ((t + N - 1) div N) < t + N" "j < (t + N - 1) div N \<Longrightarrow> j * N < t"
proof -
  define q where "q = (t + N - 1) div N"
  define r where "r = (t + N - 1) mod N"
  have e: "N * q + r = t + N - 1" "r < N" using assms by (simp_all add: q_def r_def)
  then show "t \<le> N * ((t + N - 1) div N)" "N * ((t + N - 1) div N) < t + N"
    unfolding q_def [symmetric] by linarith+
  assume "j < (t + N - 1) div N"
  then have "N * Suc j \<le> N * q" by (simp only: q_def mult_le_mono2 Suc_leI)
  then show "j * N < t" using e assms by (simp add: mult.commute)
qed

text \<open>The state after \<open>i\<close> timer interrupts, between which the running processes work.\<close>

definition after_ticks ::
    "('a trap_state_scheme \<Rightarrow> 'a trap_state_scheme result) \<Rightarrow> 'a trap_state_scheme \<Rightarrow> nat \<Rightarrow> 'a trap_state_scheme" where
  "after_ticks tick s i = ((\<lambda>u. projr (tick u)) ^^ i) s"

lemma after_ticks_0 [simp]: "after_ticks tick s 0 = s"
  by (simp add: after_ticks_def)

lemma after_ticks_run:
  assumes s: "sched_inv ps s"
    and work: "\<And>u. sched_inv ps u \<Longrightarrow> \<exists>v. tick u = Inr (timer_callback v) \<and> ticks v = ticks u \<and> works ps u v"
  shows "sched_inv ps (after_ticks tick s i)" "ticks (after_ticks tick s i) = ticks s + of_nat i"
    "tick (after_ticks tick s i) = Inr (after_ticks tick s (Suc i))"
    "cur_proc (after_ticks tick s i) = cur_proc s \<longleftrightarrow> length ps dvd i"
proof -
  let ?f = "after_ticks tick s"
  obtain i0 where i0: "i0 < length ps" "cur_proc s = ps ! i0" using s by (auto simp: sched_inv_def in_set_conv_nth)
  have step: "tick u = Inr (projr (tick u)) \<and> ticks (projr (tick u)) = ticks u + 1 \<and> slice ps u (projr (tick u))"
    if u: "sched_inv ps u" for u
  proof -
    obtain v where "tick u = Inr (timer_callback v)" "ticks v = ticks u" "works ps u v" using work [OF u] by blast
    then show ?thesis using works_slice [of ps u v] by simp (simp add: timer_callback_def)
  qed
  have run: "sched_inv ps (?f i) \<and> (slice ps ^^ i) s (?f i) \<and> ticks (?f i) = ticks s + of_nat i" for i
  proof (induction i)
    case (Suc i)
    from step [OF conjunct1 [OF Suc]] have "(slice ps ^^ Suc i) s (?f (Suc i))" "ticks (?f (Suc i)) = ticks s + of_nat (Suc i)"
      using Suc by (auto simp: after_ticks_def)
    then show ?case using slices_run [OF s i0] by blast
  qed (use s in simp)
  then show "sched_inv ps (?f i)" "ticks (?f i) = ticks s + of_nat i" by blast+
  show "tick (?f i) = Inr (?f (Suc i))" using step run by (simp add: after_ticks_def)
  have "cur_proc (?f i) = ps ! ((i0 + i) mod length ps)" using slices_run [OF s i0] run [of i] by blast
  moreover have "distinct ps" using s by (simp add: sched_inv_def areas_apart_def)
  ultimately have "cur_proc (?f i) = cur_proc s \<longleftrightarrow> (i0 + i) mod length ps = i0"
    using i0 nth_eq_iff_index_eq [of ps "(i0 + i) mod length ps" i0] mod_less_divisor [of "length ps" "i0 + i"]
    by (metis gr_implies_not0 neq0_conv)
  also have "\<dots> \<longleftrightarrow> length ps dvd i" using i0(1) mod_eq_dvd_iff_nat [of i0 "i0 + i" "length ps"] by (simp add: eq_commute)
  finally show "cur_proc (?f i) = cur_proc s \<longleftrightarrow> length ps dvd i" .
qed

text \<open>C31: \<open>sleep t\<close> with \<open>N\<close> processes in the run list, the sleeper among them, \<open>t + N\<close> at most \<open>2 ^ 32\<close>: whatever
  the processes do between two timer interrupts (outside the process structures, the scheduler's globals and the
  tick counter, with their stacks elsewhere), \<open>sleep\<close> returns in its own process, after the least multiple of
  \<open>N\<close> timer interrupts that is not below \<open>t\<close>; so after exactly \<open>t\<close> if it runs alone, and less than \<open>N\<close> too late
  otherwise. The value of the counter does not matter, nor does its wrap-around at 32 bits.\<close>

theorem sleep_lasts:
  assumes "sched_inv ps s"
    and "\<And>u. sched_inv ps u \<Longrightarrow> \<exists>v. tick u = Inr (timer_callback v) \<and> ticks v = ticks u \<and> works ps u v"
    and "unat t + length ps \<le> 2 ^ 32"
  shows "\<exists>s'. sleep tick t s = Some (Inr s') \<and> cur_proc s' = cur_proc s \<and> sched_inv ps s' \<and>
    ticks s' = ticks s + of_nat (length ps * ((unat t + length ps - 1) div length ps))"
proof -
  define N where "N = length ps"
  define n where "n = (unat t + N - 1) div N"
  let ?f = "after_ticks tick s"
  note run = after_ticks_run [OF assms(1,2), folded N_def]
  have N: "0 < N" using assms(1) by (auto simp: sched_inv_def N_def)
  note up = round_up [OF N, where t = "unat t", folded n_def]
  have below: "(of_nat k :: u32) < t \<longleftrightarrow> k < unat t" if "k < 2 ^ 32" for k
    using that by (simp add: word_less_nat_alt unat_of_nat)
  have "sleep_loop tick (ticks s) t (?f 0) = Some (Inr (?f (n * N)))"
  proof (rule sleep_loop_rounds [OF N run(3,4)])
    show "ticks (?f (j * N)) - ticks s < t" if "j < n" for j
      using run(2) [of "j * N"] below [of "j * N"] up(3) [OF that] unat_lt32 [of t] by simp
    show "\<not> ticks (?f (n * N)) - ticks s < t"
      using run(2) [of "n * N"] below [of "n * N"] up(1,2) assms(3) by (simp add: N_def mult.commute)
  qed
  then show ?thesis
    using run(1,2) [of "n * N"] run(4) [of "n * N"] by (simp add: sleep_def getTicks_def n_def N_def mult.commute)
qed

section \<open>What the stubs hand over\<close>

text \<open>The exceptions for which the processor pushes an error code below the return address.\<close>

definition cpu_frame :: "u8 \<Rightarrow> u32 \<Rightarrow> u32 \<Rightarrow> u32 \<Rightarrow> u32 \<Rightarrow> u32 list \<Rightarrow> u32 list" where
  "cpu_frame v err ip csel fl st =
     (if v \<in> {8, 10, 11, 12, 13, 14, 17} then [err] else []) @ [ip, csel, fl] @ st"

lemma push_byte_small: "(v :: u8) < 0x80 \<Longrightarrow> scast v = (ucast v :: u32)"
proof -
  assume "v < 0x80"
  then have v: "unat v < 128" by (simp add: word_less_nat_alt)
  then have "uint v < 128" by (metis of_nat_less_iff of_nat_numeral uint_nat)
  moreover have "- 128 \<le> uint v" using uint_ge_0 [of v] by linarith
  ultimately have "signed_take_bit 7 (uint v) = uint v" by (intro signed_take_bit_int_eq_self) simp_all
  then have "sint v = uint v" by (simp add: sint_uint)
  then have "scast v = (word_of_int (uint v) :: u32)" by (metis scast_eq)
  then show ?thesis by simp
qed

text \<open>C22: the stub brackets an interrupt or an exception without error code, for every vector \<open>v\<close>: the dispatcher
  sees the interrupted instruction, error code 0 and the vector (sign-extended: from 128 up, which is stub 255 alone,
  the number handed over is not the vector but, for 255, 0xFFFFFFFF), and runs with the kernel's data segment in
  \<open>ds\<close>, \<open>es\<close>, \<open>fs\<close> and \<open>gs\<close> and interrupts off. When the handler leaves the stack as it was, the stub gives
  the general registers, \<open>ds\<close>, flags, instruction pointer and stack back, whatever the handler left in the registers
  a C function may overwrite. \<open>es\<close>, \<open>fs\<close> and \<open>gs\<close> are not saved: all three come back as the interrupted \<open>ds\<close>.\<close>

theorem stub_transparent:
  assumes "v \<notin> {8, 10, 11, 12, 13, 14, 17}"
    and "stub_enter v c (cpu_frame v err ip csel fl st) = (frame, c')"
  shows "\<exists>r. registers frame = Some r \<and> int_no r = scast v \<and> (v < 0x80 \<longrightarrow> int_no r = ucast v) \<and>
    (v = 255 \<longrightarrow> int_no r = 0xFFFFFFFF) \<and> err_code r = 0 \<and> eip r = ip \<and>
    reg_cs r = csel \<and> eflags r = fl \<and> reg_eax r = c_eax c \<and>
    c_ds c' = 0x10 \<and> c_es c' = 0x10 \<and> c_fs c' = 0x10 \<and> c_gs c' = 0x10 \<and> \<not> c_if c' \<and>
    stub_leave frame (c'\<lparr>c_eax := x, c_ecx := y, c_edx := z\<rparr>) =
      Some (c\<lparr>c_es := c_ds c, c_fs := c_ds c, c_gs := c_ds c, c_if := bit fl 9\<rparr>, ip, csel, fl, st)"
proof -
  have mask: "ucast ((c_eax c AND 0xFFFF0000) OR ucast (c_ds c)) = c_ds c"
  proof (rule bit_word_eqI)
    have m: "(0xFFFF0000 :: u32) = NOT (mask 16)" by (simp add: mask_eq_exp_minus_1)
    fix n assume "n < LENGTH(16)"
    then show "bit (ucast ((c_eax c AND 0xFFFF0000) OR ucast (c_ds c)) :: u16) n = bit (c_ds c) n"
      unfolding m by (auto simp: bit_simps)
  qed
  have v: "v = 255 \<Longrightarrow> scast v = (0xFFFFFFFF :: u32)" by simp
  show ?thesis
    using assms push_byte_small [of v] v
    by (auto simp: stub_enter_def cpu_frame_def pusha_def push_byte_def Let_def mask)
qed

text \<open>C23: for the exceptions that push an error code the stub pushes another word 0, so the
  dispatcher sees error code 0, the real error code as the instruction pointer and the
  instruction pointer as the code segment; and a handler that returned would continue at the
  address that is the error code.\<close>

theorem stub_shifts_error_frame:
  assumes "v \<in> {8, 10, 11, 12, 13, 14, 17}"
    and "stub_enter v c (cpu_frame v err ip csel fl st) = (frame, c')"
  shows "\<exists>r. registers frame = Some r \<and> int_no r = ucast v \<and> err_code r = 0 \<and> eip r = err \<and>
    reg_cs r = ip \<and> eflags r = csel \<and>
    (\<exists>c''. stub_leave frame c' = Some (c'', err, ip, csel, fl # st))"
proof -
  have "v < 0x80" using assms(1) by auto
  from push_byte_small [OF this] show ?thesis
    using assms by (auto simp: stub_enter_def cpu_frame_def pusha_def push_byte_def Let_def)
qed

text \<open>\<open>push byte 255\<close> sign-extends, so the stub for vector 255 hands over the interrupt number
  0xFFFFFFFF, and both dispatchers index the handler table out of bounds with it.\<close>

theorem vector_255_out_of_bounds:
  assumes "stub_enter 255 c st = (frame, c')" "registers frame = Some reg"
  shows "int_no reg = 0xFFFFFFFF \<and> isr_handler call reg s = Inl Undefined \<and> irq_handler call' reg s' = Inl Undefined"
proof -
  have "scast (255 :: u8) = (0xFFFFFFFF :: u32)" by simp
  then have "int_no reg = 0xFFFFFFFF"
    using assms by (auto simp: stub_enter_def pusha_def push_byte_def Let_def elim: registers.elims)
  then show ?thesis by (simp add: isr_handler_def irq_handler_def Let_def)
qed

section \<open>Concrete runs\<close>

definition some_cpu :: cpu where
  "some_cpu = \<lparr>c_eax = 1, c_ecx = 2, c_edx = 3, c_ebx = 4, c_esp = 5, c_ebp = 6, c_esi = 7, c_edi = 8, c_ds = 0x10,
     c_es = 0x10, c_fs = 0x10, c_gs = 0x10, c_if = True\<rparr>"

theorem stub_transparent_witness:
  "\<exists>r. registers (fst (stub_enter 33 some_cpu (cpu_frame 33 0 0xC0101234 8 0x202 [9]))) = Some r \<and> int_no r = 33 \<and> eip r = 0xC0101234"
  using stub_transparent [of 33 some_cpu 0 "0xC0101234" 8 "0x202" "[9]"]
  by (cases "stub_enter 33 some_cpu (cpu_frame 33 0 0xC0101234 8 0x202 [9])") fastforce

theorem stub_shifts_error_frame_witness:
  "\<exists>r. registers (fst (stub_enter 14 some_cpu (cpu_frame 14 2 0xC0101234 8 0x202 [9]))) = Some r \<and> err_code r = 0 \<and> eip r = 2"
  using stub_shifts_error_frame [of 14 some_cpu 2 "0xC0101234" 8 "0x202" "[9]"]
  by (cases "stub_enter 14 some_cpu (cpu_frame 14 2 0xC0101234 8 0x202 [9])") fastforce

theorem vector_255_out_of_bounds_witness:
  "\<exists>reg. registers (fst (stub_enter 255 some_cpu [0xC0101234, 8, 0x202])) = Some reg \<and>
     isr_handler (\<lambda>_ _. Inr) reg blank_console = Inl Undefined"
proof -
  obtain reg where "registers (fst (stub_enter 255 some_cpu [0xC0101234, 8, 0x202])) = Some reg"
    by (simp add: stub_enter_def pusha_def push_byte_def Let_def)
  then show ?thesis
    using vector_255_out_of_bounds [of some_cpu "[0xC0101234, 8, 0x202]" "fst (stub_enter 255 some_cpu [0xC0101234, 8, 0x202])"
        "snd (stub_enter 255 some_cpu [0xC0101234, 8, 0x202])" reg "\<lambda>_ _. Inr" blank_console]
    by (simp only: prod.collapse) blast
qed

definition timer_line :: register_info where
  "timer_line = \<lparr>reg_ds = 0x10, reg_edi = 0, reg_esi = 0, reg_ebp = 0, reg_esp = 0, reg_ebx = 0, reg_edx = 0,
     reg_ecx = 0, reg_eax = 0, int_no = 40, err_code = 0, eip = 0, reg_cs = 8, eflags = 0x202\<rparr>"

theorem irq_acknowledged_first_witness:
  "irq_handler (\<lambda>_ _. Inr) timer_line blank_console = Inr (blank_console\<lparr>ports := [(0xA0, 0x20), (0x20, 0x20)]\<rparr>)"
  using irq_acknowledged_first [of timer_line "\<lambda>_ _. Inr" blank_console]
  by (simp add: timer_line_def blank_console_def)

definition timer_start :: trap_state where
  "timer_start = proc_state.extend two_threads
     \<lparr>ticks = 0, idts = (\<lambda>_. zero_entry), idtr_var = \<lparr>idt_limit = 0, idt_base = 0\<rparr>, cpu_idtr = \<lparr>idt_limit = 0, idt_base = 0\<rparr>\<rparr>"

lemma timer_start_fields [simp]:
  "mem timer_start = mem two_threads" "run_head timer_start = run_head two_threads"
  "cur_proc timer_start = cur_proc two_threads" "ticks timer_start = 0"
  by (simp_all add: timer_start_def proc_state.defs)

text \<open>Two processes, each with its stack pointer at 0xC0400000 when the timer interrupts it: 3 ticks become 4.\<close>

theorem sleep_lasts_witness:
  "\<exists>s'. sleep (\<lambda>u. Inr (timer_callback (u\<lparr>r_esp := 0xC0400000\<rparr>))) 3 timer_start = Some (Inr s') \<and>
     cur_proc s' = 0xC0200000 \<and> ticks s' = 4"
proof -
  have "sched_inv [0xC0200000, 0xC0300000] timer_start" using two_threads_inv by (simp add: sched_inv_def)
  moreover have "works [0xC0200000, 0xC0300000] u (u\<lparr>r_esp := 0xC0400000\<rparr>)" for u :: trap_state
    by (simp add: works_def same_sched_def stack_clear_def sep_def)
  then have "\<exists>v. Inr (timer_callback (u\<lparr>r_esp := 0xC0400000\<rparr>)) = (Inr (timer_callback v) :: trap_state result) \<and>
      ticks v = ticks u \<and> works [0xC0200000, 0xC0300000] u v" for u :: trap_state
    by (intro exI [of _ "u\<lparr>r_esp := 0xC0400000\<rparr>"]) simp
  ultimately obtain s' where s': "sleep (\<lambda>u. Inr (timer_callback (u\<lparr>r_esp := 0xC0400000\<rparr>))) 3 timer_start = Some (Inr s')"
      "cur_proc s' = cur_proc timer_start" "ticks s' = of_nat (2 * (4 div Suc (Suc 0)))"
    using sleep_lasts [of "[0xC0200000, 0xC0300000]" timer_start "\<lambda>u. Inr (timer_callback (u\<lparr>r_esp := 0xC0400000\<rparr>))" 3]
    by auto
  moreover have "(4 :: nat) div Suc (Suc 0) = 2" by (simp flip: numeral_2_eq_2)
  ultimately show ?thesis by (simp add: two_threads_def)
qed

theorem init_timer_divisor_witness:
  "\<exists>s' low high. init_timer 5 timer_start = Inr s' \<and> unat (low :: u8) + 256 * unat (high :: u8) = 42028 \<and>
     ports s' = ports timer_start @ [(0x43, 0x36), (0x40, low), (0x40, high)]"
  using init_timer_divisor [of 5 timer_start] by auto

end
