(* ===== verification/PageFault.thy ===== *)
theory PageFault
  imports Debug Trap
begin

text \<open>
  The page-fault handler of \<open>src/memory.c\<close>. It prints what the processor reported and stops, so
  its result is the state that \<open>while (1)\<close> keeps. \<open>cr2\<close> is the faulting address; the string
  literals are addresses, in the order of their use.
\<close>

section \<open>The handler\<close>

record fault_strings =
  lit_at :: u32
  lit_code :: u32
  lit_absent :: u32
  lit_write :: u32
  lit_read :: u32
  lit_user :: u32
  lit_kernel :: u32
  lit_reserved :: u32
  lit_fetch :: u32

definition page_fault ::
    "fault_strings \<Rightarrow> u32 \<Rightarrow> register_info \<Rightarrow> 'a console_scheme \<Rightarrow> 'a console_scheme result option" where
  "page_fault l cr2 regs s =
     (let red = printf_color 0 4;
          e = err_code regs
      in bindO (printf (lit_at l) [eip regs, cr2] s) (\<lambda>s.
         bindO (printf (lit_code l) [e] s) (\<lambda>s.
         bindO (if e AND 0x1 = 0 then red (lit_absent l) [] s else Some (Inr s)) (\<lambda>s.
         bindO (if e AND 0x2 \<noteq> 0 then red (lit_write l) [] s else red (lit_read l) [] s) (\<lambda>s.
         bindO (if e AND 0x4 \<noteq> 0 then red (lit_user l) [] s else red (lit_kernel l) [] s) (\<lambda>s.
         bindO (if e AND 0x8 \<noteq> 0 then red (lit_reserved l) [] s else Some (Inr s)) (\<lambda>s.
         if e AND 0x10 \<noteq> 0 then red (lit_fetch l) [] s else Some (Inr s))))))))"

section \<open>What it reports\<close>

definition ascii :: "string \<Rightarrow> u8 list" where
  "ascii = map of_char"

definition white_pieces :: "u32 \<Rightarrow> u32 \<Rightarrow> piece list" where
  "white_pieces ip cr2 =
     [Text (ascii ''Page fault at 0x''), Hex ip, Text (ascii '', virtual faulting address 0x''), Hex cr2, Text [10]]"

definition code_pieces :: "u32 \<Rightarrow> piece list" where
  "code_pieces e = [Text (ascii ''Error code: ''), Hex e, Text [10]]"

definition absent_text :: "u8 list" where "absent_text = ascii ''Because the page wasn't present.'' @ [10]"
definition write_text :: "u8 list" where "write_text = ascii ''Write error.'' @ [10]"
definition read_text :: "u8 list" where "read_text = ascii ''Read error.'' @ [10]"
definition user_text :: "u8 list" where "user_text = ascii ''In user mode.'' @ [10]"
definition kernel_text :: "u8 list" where "kernel_text = ascii ''In kernel mode.'' @ [10]"
definition reserved_text :: "u8 list" where "reserved_text = ascii ''Reserved bits being overwritten.'' @ [10]"
definition fetch_text :: "u8 list" where
  "fetch_text = ascii ''The fault occurred during an instruction fetch.'' @ [10]"

lemmas fault_texts = absent_text_def write_text_def read_text_def user_text_def kernel_text_def reserved_text_def fetch_text_def

text \<open>The literals are where \<open>l\<close> says.\<close>

definition fault_strings_at :: "fault_strings \<Rightarrow> memory \<Rightarrow> bool" where
  "fault_strings_at l m \<longleftrightarrow> text_at m (lit_at l) (format_of (white_pieces 0 0) @ [0]) \<and>
     text_at m (lit_code l) (format_of (code_pieces 0) @ [0]) \<and>
     list_all (\<lambda>(p, t). text_at m p (t @ [0])) [(lit_absent l, absent_text), (lit_write l, write_text),
       (lit_read l, read_text), (lit_user l, user_text), (lit_kernel l, kernel_text), (lit_reserved l, reserved_text),
       (lit_fetch l, fetch_text)]"

definition white_report :: "u32 \<Rightarrow> u32 \<Rightarrow> u32 \<Rightarrow> u8 list" where
  "white_report ip cr2 e = output_of (white_pieces ip cr2) @ output_of (code_pieces e)"

definition red_report :: "u32 \<Rightarrow> u8 list" where
  "red_report e =
     (if bit e 0 then [] else absent_text) @ (if bit e 1 then write_text else read_text) @
     (if bit e 2 then user_text else kernel_text) @ (if bit e 3 then reserved_text else []) @
     (if bit e 4 then fetch_text else [])"

lemma and_mask_bit: "e AND 1 = 0 \<longleftrightarrow> \<not> bit e 0" "e AND 2 = 0 \<longleftrightarrow> \<not> bit e 1" "e AND 4 = 0 \<longleftrightarrow> \<not> bit e 2"
  "e AND 8 = 0 \<longleftrightarrow> \<not> bit e 3" "e AND 0x10 = 0 \<longleftrightarrow> \<not> bit e 4" for e :: u32
  using and_exp_eq_0_iff_not_bit [of e 0] and_exp_eq_0_iff_not_bit [of e 1] and_exp_eq_0_iff_not_bit [of e 2]
    and_exp_eq_0_iff_not_bit [of e 3] and_exp_eq_0_iff_not_bit [of e 4] by simp_all

lemma ascii_plain: "plain (ascii ''Page fault at 0x'')" "plain (ascii '', virtual faulting address 0x'')"
    "plain (ascii ''Error code: '')" "plain [10]"
  by (simp_all add: ascii_def plain_def)

lemma texts_plain: "\<forall>t \<in> {absent_text, write_text, read_text, user_text, kernel_text, reserved_text, fetch_text}. plain t \<and> length t < 100"
  by (simp add: fault_texts ascii_def plain_def)

lemma red_line:
  assumes "cursor_ok s" "off_screen (\<lambda>m. text_at m p (t @ [0])) (mem s)" "plain t" "length t < 100"
  shows "printf_color 0 4 p [] s = Some (Inr (puts_color 0 4 t s))"
  using printf_color_pieces [where s = s and p = p and ps = "[Text t]" and bg = 0 and fg = 4] off_screenD [OF assms(2)] assms(3,4)
  by simp

text \<open>The handler's literals are in place, and stay so whatever is printed.\<close>

definition fault_ready :: "fault_strings \<Rightarrow> 'a console_scheme \<Rightarrow> bool" where
  "fault_ready l s \<longleftrightarrow> cursor_ok s \<and> off_screen (fault_strings_at l) (mem s)"

lemma fault_ready_puts: "fault_ready l s \<Longrightarrow> fault_ready l (puts_color bg fg cs s)"
  using off_screen_puts [of "fault_strings_at l" s bg fg cs] by (simp add: fault_ready_def)

lemma red_literal:
  assumes "fault_ready l s" "(p, t) \<in> {(lit_absent l, absent_text), (lit_write l, write_text), (lit_read l, read_text),
      (lit_user l, user_text), (lit_kernel l, kernel_text), (lit_reserved l, reserved_text), (lit_fetch l, fetch_text)}"
  shows "printf_color 0 4 p [] s = Some (Inr (puts_color 0 4 t s))"
proof -
  have "fault_strings_at l m \<Longrightarrow> text_at m p (t @ [0])" for m
    using assms(2) by (auto simp: fault_strings_at_def)
  then have "off_screen (\<lambda>m. text_at m p (t @ [0])) (mem s)"
    using assms(1) by (auto simp: fault_ready_def off_screen_def)
  moreover have "plain t \<and> length t < 100" using texts_plain assms(2) by blast
  ultimately show ?thesis using red_line assms(1) by (auto simp: fault_ready_def)
qed

lemma red_literals:
  assumes "fault_ready l s"
  shows "printf_color 0 4 (lit_absent l) [] s = Some (Inr (puts_color 0 4 absent_text s))"
    and "printf_color 0 4 (lit_write l) [] s = Some (Inr (puts_color 0 4 write_text s))"
    and "printf_color 0 4 (lit_read l) [] s = Some (Inr (puts_color 0 4 read_text s))"
    and "printf_color 0 4 (lit_user l) [] s = Some (Inr (puts_color 0 4 user_text s))"
    and "printf_color 0 4 (lit_kernel l) [] s = Some (Inr (puts_color 0 4 kernel_text s))"
    and "printf_color 0 4 (lit_reserved l) [] s = Some (Inr (puts_color 0 4 reserved_text s))"
    and "printf_color 0 4 (lit_fetch l) [] s = Some (Inr (puts_color 0 4 fetch_text s))"
  by (rule red_literal [OF assms], simp)+

lemma white_literals:
  assumes "fault_ready l s"
  shows "printf (lit_at l) [ip, cr2] s = Some (Inr (puts_color 0 15 (output_of (white_pieces ip cr2)) s))"
    and "printf (lit_code l) [e] s = Some (Inr (puts_color 0 15 (output_of (code_pieces e)) s))"
proof -
  have lits: "fault_strings_at l (mem s)" using assms off_screenD by (auto simp: fault_ready_def)
  have "format_of (white_pieces 0 0) = format_of (white_pieces ip cr2)" "format_of (code_pieces 0) = format_of (code_pieces e)"
    by (simp_all add: white_pieces_def code_pieces_def)
  then have f: "text_at (mem s) (lit_at l) (format_of (white_pieces ip cr2) @ [0])"
      "text_at (mem s) (lit_code l) (format_of (code_pieces e) @ [0])"
    using lits by (simp_all only: fault_strings_at_def)
  have ok: "list_all (piece_ok (mem s)) (white_pieces ip cr2)" "list_all (piece_ok (mem s)) (code_pieces e)"
    using ascii_plain by (simp_all add: white_pieces_def code_pieces_def)
  have len: "length (output_of (white_pieces ip cr2)) < 1024" "length (output_of (code_pieces e)) < 1024"
    using hexadecimal_length [of ip] hexadecimal_length [of cr2] hexadecimal_length [of e]
    by (simp_all add: white_pieces_def code_pieces_def ascii_def)
  have args: "concat (map args_of (white_pieces ip cr2)) = [ip, cr2]" "concat (map args_of (code_pieces e)) = [e]"
    by (simp_all add: white_pieces_def code_pieces_def)
  show "printf (lit_at l) [ip, cr2] s = Some (Inr (puts_color 0 15 (output_of (white_pieces ip cr2)) s))"
    using printf_color_pieces [OF f(1) ok(1), of 0 15] len(1) unfolding printf_def args(1) by simp
  show "printf (lit_code l) [e] s = Some (Inr (puts_color 0 15 (output_of (code_pieces e)) s))"
    using printf_color_pieces [OF f(2) ok(2), of 0 15] len(2) unfolding printf_def args(2) by simp
qed

lemma page_fault_report:
  assumes "fault_ready l s"
  shows "page_fault l cr2 r s =
    Some (Inr (puts_color 0 4 (red_report (err_code r)) (puts_color 0 15 (white_report (eip r) cr2 (err_code r)) s)))"
proof -
  have r: "fault_ready l (puts_color bg fg cs s)" for bg fg cs by (rule fault_ready_puts [OF assms])
  note ready = assms r fault_ready_puts
  show ?thesis
    by (simp add: page_fault_def Let_def white_literals ready red_literals and_mask_bit red_report_def white_report_def
        puts_color_append)
qed

text \<open>The page-fault handler prints the instruction pointer, the faulting address and the error code
  it is given, and spells out the five bits of the error code in red: page present, write or
  read, user or kernel mode, reserved bits, instruction fetch.\<close>

theorem page_fault_reports:
  assumes "fault_ready l s"
  shows "page_fault l cr2 r s =
    Some (Inr (puts_color 0 4 (red_report (err_code r)) (puts_color 0 15 (white_report (eip r) cr2 (err_code r)) s)))"
  by (rule page_fault_report [OF assms])

text \<open>C15: the report of a real page fault is wrong: entered through the stub of vector 14, the handler
  prints the error code as the instruction pointer, and reports error code 0, that is a read of an
  absent page in kernel mode, whatever the processor said.\<close>

theorem page_fault_misreports:
  assumes "fault_ready l s" "stub_enter 14 c (cpu_frame 14 err ip csel fl st) = (frame, c')" "registers frame = Some r"
  shows "page_fault l cr2 r s = Some (Inr (puts_color 0 4 (absent_text @ read_text @ kernel_text)
    (puts_color 0 15 (white_report err cr2 0) s)))"
proof -
  have "err_code r = 0 \<and> eip r = err"
    using assms(2,3) by (auto simp: stub_enter_def cpu_frame_def pusha_def push_byte_def Let_def)
  then show ?thesis using page_fault_report [OF assms(1)] by (simp add: red_report_def)
qed

section \<open>A concrete run\<close>

definition sample_lits :: fault_strings where
  "sample_lits = \<lparr>lit_at = 0x5000, lit_code = 0x5100, lit_absent = 0x5200, lit_write = 0x5300, lit_read = 0x5400,
     lit_user = 0x5500, lit_kernel = 0x5600, lit_reserved = 0x5700, lit_fetch = 0x5800\<rparr>"

definition fault_console :: console where
  "fault_console = blank_console\<lparr>mem := 
     poke 0x5000 (format_of (white_pieces 0 0) @ [0]) (poke 0x5100 (format_of (code_pieces 0) @ [0])
     (poke 0x5200 (absent_text @ [0]) (poke 0x5300 (write_text @ [0]) (poke 0x5400 (read_text @ [0])
     (poke 0x5500 (user_text @ [0]) (poke 0x5600 (kernel_text @ [0]) (poke 0x5700 (reserved_text @ [0])
     (poke 0x5800 (fetch_text @ [0]) (\<lambda>_. 0)))))))))\<rparr>"

lemma text_at_iff: "text_at m p cs \<longleftrightarrow> (\<forall>i < length cs. m (p + of_nat i) = cs ! i)"
proof (induction cs arbitrary: p)
  case (Cons c cs)
  show ?case by (simp add: Cons All_less_Suc2 add.assoc)
qed simp

lemma text_at_poke:
  assumes "unat p + length cs \<le> 2 ^ 16" "unat a + length bs \<le> 2 ^ 16"
  shows "a = p \<Longrightarrow> bs = cs \<Longrightarrow> text_at (poke a bs m) p cs"
    and "unat p + length cs \<le> unat a \<or> unat a + length bs \<le> unat p \<Longrightarrow> text_at (poke a bs m) p cs = text_at m p cs"
proof -
  have u: "unat (p + of_nat i) = unat p + i" if "i < length cs" for i
    using that assms(1) by (simp add: unat_word_ariths unat_of_nat)
  show "text_at (poke a bs m) p cs" if "a = p" "bs = cs"
    using that u by (simp add: text_at_iff poke_def)
  show "text_at (poke a bs m) p cs = text_at m p cs" if "unat p + length cs \<le> unat a \<or> unat a + length bs \<le> unat p"
    using that u by (auto simp: text_at_iff poke_def)
qed

lemma text_at_low:
  assumes "\<And>x. \<not> in_video x \<Longrightarrow> m' x = m x" "unat p + length cs \<le> 2 ^ 16" "text_at m p cs"
  shows "text_at m' p cs"
proof -
  have "\<not> in_video (p + of_nat i)" if "i < length cs" for i
    using that assms(2) by (simp add: in_video_def word_le_nat_alt unat_word_ariths unat_of_nat)
  then show ?thesis using assms(1,3) by (simp add: text_at_iff)
qed

lemma fault_console_ready: "fault_ready sample_lits fault_console"
proof -
  note len = white_pieces_def code_pieces_def fault_texts ascii_def
  have m: "fault_strings_at sample_lits (mem fault_console)"
    by (simp add: fault_strings_at_def sample_lits_def fault_console_def text_at_poke len del: text_at_append text_at.simps)
  have "fault_strings_at sample_lits m'" if H: "\<And>x. \<not> in_video x \<Longrightarrow> m' x = mem fault_console x" for m'
  proof -
    have low: "text_at m' p cs" if "text_at (mem fault_console) p cs" "unat p + length cs \<le> 2 ^ 16" for p cs
      by (rule text_at_low [of m' "mem fault_console" p cs, OF H that(2,1)])
    show ?thesis
      using m low by (simp add: fault_strings_at_def sample_lits_def len del: text_at_append text_at.simps)
  qed
  then show ?thesis by (simp add: fault_ready_def off_screen_def cursor_ok_def fault_console_def blank_console_def)
qed

theorem page_fault_reports_witness:
  "page_fault sample_lits 0xDEAD (timer_line\<lparr>err_code := 2\<rparr>) fault_console = Some (Inr (puts_color 0 4
     (absent_text @ write_text @ kernel_text) (puts_color 0 15 (white_report (eip timer_line) 0xDEAD 2) fault_console)))"
  using page_fault_reports [OF fault_console_ready, of "0xDEAD" "timer_line\<lparr>err_code := 2\<rparr>"]
  by (simp add: red_report_def bit_numeral_rec)

theorem page_fault_misreports_witness:
  "\<exists>r. registers (fst (stub_enter 14 some_cpu (cpu_frame 14 2 0xC0101234 8 0x202 [9]))) = Some r \<and>
     page_fault sample_lits 0xDEAD r fault_console = Some (Inr (puts_color 0 4 (absent_text @ read_text @ kernel_text)
       (puts_color 0 15 (white_report 2 0xDEAD 0) fault_console)))"
proof -
  obtain frame c' where f: "stub_enter 14 some_cpu (cpu_frame 14 2 0xC0101234 8 0x202 [9]) = (frame, c')" by fastforce
  moreover obtain r where r: "registers frame = Some r"
    using f by (auto simp: stub_enter_def cpu_frame_def pusha_def push_byte_def Let_def)
  ultimately show ?thesis using page_fault_misreports [OF fault_console_ready f r, of "0xDEAD"] by simp
qed

end
