(* ===== verification/LineBuffer.thy ===== *)
theory LineBuffer
  imports Machine
begin

text \<open>
  The input line of \<open>src/buffer.c\<close>: the array \<open>temp\<close> of 512 characters and the fill position
  \<open>p\<close>, here \<open>temp\<close> and \<open>buf_p\<close> of a state that the keyboard driver extends.
\<close>

section \<open>The code\<close>

abbreviation (input) MAX_LENGTH :: nat where "MAX_LENGTH \<equiv> 512"

record line_buffer =
  temp :: "nat \<Rightarrow> u8"
  buf_p :: nat

definition init_buffer :: "line_buffer \<Rightarrow> line_buffer" where
  "init_buffer b = b\<lparr>temp := (temp b)(buf_p b := 0), buf_p := 0\<rparr>"

text \<open>Nothing compares \<open>p\<close> with the size of the array: a store behind it is undefined.\<close>

definition put_buffer :: "u8 \<Rightarrow> line_buffer \<Rightarrow> line_buffer result" where
  "put_buffer c b =
     (let i = buf_p b; b = b\<lparr>temp := (temp b)(i := c), buf_p := i + 1\<rparr>
      in if buf_p b < MAX_LENGTH then Inr (b\<lparr>temp := (temp b)(buf_p b := 0)\<rparr>) else Inl Undefined)"

text \<open>On an empty line \<open>getLast\<close> returns the address of the literal \<open>""\<close>, cut to a \<open>char\<close>.\<close>

definition getLast :: "u32 \<Rightarrow> line_buffer \<Rightarrow> u8" where
  "getLast empty_literal b = (if buf_p b \<noteq> 0 then temp b (buf_p b - 1) else ucast empty_literal)"

text \<open>What a reader of the string \<open>getline ()\<close> sees: the characters up to the first NUL.\<close>

definition getline :: "line_buffer \<Rightarrow> u8 list" where
  "getline b = takeWhile (\<lambda>c. c \<noteq> 0) (map (temp b) [0..<MAX_LENGTH])"

section \<open>The line as a list\<close>

text \<open>The buffer holds the NUL-terminated line \<open>cs\<close>.\<close>

definition holds :: "line_buffer \<Rightarrow> u8 list \<Rightarrow> bool" where
  "holds b cs \<longleftrightarrow> buf_p b = length cs \<and> length cs < MAX_LENGTH \<and> 0 \<notin> set cs \<and>
     (\<forall>i < length cs. temp b i = cs ! i) \<and> temp b (length cs) = 0"

lemma put_buffer_holds:
  assumes "holds b cs" "c \<noteq> 0" "length cs < 511"
  shows "\<exists>b'. put_buffer c b = Inr b' \<and> holds b' (cs @ [c])"
  using assms by (auto simp: put_buffer_def holds_def nth_append Let_def)

lemma getline_holds:
  assumes "holds b cs" shows "getline b = cs"
proof -
  let ?xs = "map (temp b) [0..<MAX_LENGTH]"
  have "cs = take (length cs) ?xs"
    using assms by (intro nth_equalityI) (auto simp: holds_def)
  moreover have "?xs = take (length cs) ?xs @ 0 # drop (Suc (length cs)) ?xs"
    using assms id_take_nth_drop [of "length cs" ?xs] by (simp add: holds_def)
  ultimately have "?xs = cs @ 0 # drop (Suc (length cs)) ?xs" by metis
  moreover have "takeWhile (\<lambda>c. c \<noteq> 0) (cs @ 0 # ys) = cs" for ys
    using assms by (auto simp: holds_def intro!: takeWhile_append2 [THEN trans])
  ultimately show ?thesis unfolding getline_def by metis
qed

text \<open>Storing characters one after the other.\<close>

fun put_all :: "u8 list \<Rightarrow> line_buffer \<Rightarrow> line_buffer result" where
  "put_all [] b = Inr b"
| "put_all (c # cs) b = bindE (put_buffer c b) (put_all cs)"

lemma put_all_holds:
  "holds b xs \<Longrightarrow> 0 \<notin> set cs \<Longrightarrow> length xs + length cs < MAX_LENGTH \<Longrightarrow>
     \<exists>b'. put_all cs b = Inr b' \<and> holds b' (xs @ cs)"
proof (induction cs arbitrary: b xs)
  case (Cons c cs)
  then obtain b1 where b1: "put_buffer c b = Inr b1" "holds b1 (xs @ [c])"
    using put_buffer_holds [of b xs c] by auto
  then show ?case using Cons.IH [OF b1(2)] Cons.prems by auto
qed auto

text \<open>
  The line while it is typed: as \<open>holds\<close>, but the text may still be empty with an older line
  behind the fill position, as \<open>init_buffer\<close> leaves it.
\<close>

definition filled :: "line_buffer \<Rightarrow> u8 list \<Rightarrow> bool" where
  "filled b cs \<longleftrightarrow> buf_p b = length cs \<and> (cs = [] \<or> holds b cs)"

lemma filled_init [simp]: "filled (init_buffer b) []"
  by (simp add: filled_def init_buffer_def)

lemma filled_holds: "filled b cs \<Longrightarrow> cs \<noteq> [] \<Longrightarrow> holds b cs"
  by (simp add: filled_def)

lemma put_buffer_filled:
  assumes "filled b cs" "c \<noteq> 0" "length cs < 511"
  shows "\<exists>b'. put_buffer c b = Inr b' \<and> filled b' (cs @ [c])"
proof (cases "cs = []")
  case True
  then show ?thesis using assms by (simp add: filled_def holds_def put_buffer_def Let_def)
next
  case False
  then show ?thesis using assms put_buffer_holds [of b cs c] by (auto simp: filled_def holds_def)
qed

lemma getLast_filled:
  assumes "filled b cs"
  shows "getLast lit b = (if cs = [] then ucast lit else last cs)"
  using assms by (auto simp: filled_def getLast_def holds_def last_conv_nth)

text \<open>What \<open>put_buffer\<close> does with the character that fills the array.\<close>

lemma put_buffer_full: "holds b zs \<Longrightarrow> length zs = 511 \<Longrightarrow> put_buffer d b = Inl Undefined"
  by (simp add: put_buffer_def holds_def Let_def)

lemma put_all_append: "put_all (us @ vs) b = bindE (put_all us b) (put_all vs)"
proof (induction us arbitrary: b)
  case (Cons u us)
  then show ?case by (cases "put_buffer u b") auto
qed simp

lemma put_all_init:
  assumes "0 \<notin> set cs" "cs \<noteq> []" "length cs < 512"
  shows "\<exists>b'. put_all cs (init_buffer b) = Inr b' \<and> holds b' cs"
proof -
  obtain c ds where cs: "cs = c # ds" using assms(2) by (cases cs) auto
  obtain b1 where b1: "put_buffer c (init_buffer b) = Inr b1" "holds b1 [c]"
    using assms(1) cs by (simp add: put_buffer_def init_buffer_def holds_def Let_def)
  then show ?thesis using put_all_holds [OF b1(2), of ds] assms cs by auto
qed

text \<open>C39: characters other than NUL that are stored after \<open>init_buffer\<close> come back from \<open>getline\<close> in the
  order they were stored, as long as they are at most 511; when none is stored, \<open>getline\<close> still returns the
  line before. With 511 characters the line is full: the next one still fits into \<open>temp[511]\<close>, but the NUL
  that \<open>put_buffer\<close> stores after it goes to \<open>temp[512]\<close>, behind the end of the array, and is undefined.\<close>

theorem line_roundtrip:
  assumes "holds b xs" "0 \<notin> set cs"
  shows "if length cs < 512
    then \<exists>b'. put_all cs (init_buffer b) = Inr b' \<and> buf_p b' = length cs \<and> getline b' = (if cs = [] then xs else cs)
    else (\<exists>b'. put_all (take 511 cs) (init_buffer b) = Inr b' \<and> buf_p b' = 511 \<and> getline b' = take 511 cs \<and>
           put_buffer (cs ! 511) b' = Inl Undefined) \<and>
         put_all cs (init_buffer b) = Inl Undefined"
proof (cases "length cs < 512")
  case True
  show ?thesis
  proof (cases "cs = []")
    case True
    have "temp (init_buffer b) = temp b" using assms(1) by (auto simp: init_buffer_def holds_def)
    then have "getline (init_buffer b) = xs" using getline_holds [OF assms(1)] by (simp add: getline_def)
    then show ?thesis using True by (simp add: init_buffer_def)
  next
    case False
    obtain b' where b': "put_all cs (init_buffer b) = Inr b'" "holds b' cs" using put_all_init [OF assms(2) False True] by blast
    then have "buf_p b' = length cs" by (simp add: holds_def)
    then show ?thesis using b' getline_holds [OF b'(2)] True False by auto
  qed
next
  case False
  let ?us = "take 511 cs"
  have us: "0 \<notin> set ?us" "?us \<noteq> []" "length ?us = 511" using assms(2) False by (auto dest: in_set_takeD)
  then obtain b' where b': "put_all ?us (init_buffer b) = Inr b'" "holds b' ?us"
    using put_all_init [of ?us b] by auto
  have cs: "cs = ?us @ cs ! 511 # drop 512 cs" using id_take_nth_drop [of 511 cs] False by simp
  have full: "put_buffer d b' = Inl Undefined" for d by (rule put_buffer_full [OF b'(2) us(3)])
  have "put_all cs (init_buffer b) = Inl Undefined"
    using b'(1) full by (subst cs) (simp add: put_all_append)
  moreover have "buf_p b' = 511" using b'(2) us(3) by (simp add: holds_def)
  ultimately show ?thesis using False b'(1) getline_holds [OF b'(2)] full by auto
qed

text \<open>\<open>init_buffer\<close> empties the line only for \<open>put_buffer\<close>: the NUL goes behind the old text, not
  in front of it, so until the next character is stored \<open>getline\<close> still returns the old line.\<close>

theorem init_buffer_stale:
  assumes "holds b cs"
  shows "buf_p (init_buffer b) = 0 \<and> getline (init_buffer b) = cs"
proof -
  have "temp (init_buffer b) = temp b"
    using assms by (auto simp: init_buffer_def holds_def)
  then have "getline (init_buffer b) = getline b" by (simp add: getline_def)
  then show ?thesis using getline_holds [OF assms] by (simp add: init_buffer_def)
qed

definition empty_line :: line_buffer where
  "empty_line = \<lparr>temp = (\<lambda>_. 0), buf_p = 0\<rparr>"

lemma empty_line_holds: "holds empty_line []"
  by (simp add: holds_def empty_line_def)

theorem line_roundtrip_witness:
  "\<exists>b. put_all [104, 105] (init_buffer empty_line) = Inr b \<and> getline b = [104, 105]"
  using line_roundtrip [OF empty_line_holds, of "[104, 105]"] by auto

theorem init_buffer_stale_witness:
  "\<exists>b. holds b [104] \<and> getline (init_buffer b) = [104]"
proof -
  obtain b where "holds b [104]"
    using put_buffer_holds [OF empty_line_holds, of 104] by auto
  with init_buffer_stale [of b "[104]"] show ?thesis by blast
qed

end
