(* ===== verification/Keyboard.thy ===== *)
theory Keyboard
  imports Printf LineBuffer
begin

text \<open>
  The keyboard driver \<open>src/keyboard.c\<close>: a state machine over scan codes with three bytes of state
  (\<open>mode\<close>: which modifiers are down and whether caps lock is on; \<open>leds\<close>; \<open>e0\<close>: the prefix byte
  seen last), that echoes characters on the console and stores them in the input line. The bytes
  that \<open>inb\<close> delivers are the list \<open>reads\<close>, in the order of the reads; when it is used up
  the device does not answer any more, and a driver that waits for it hangs.
\<close>

section \<open>Tables\<close>

definition shift_map :: "u8 list" where
  "shift_map =
   [0, 27, 33, 64, 35, 36, 37, 94, 38, 42, 40, 41, 95, 43, 127, 9,
    81, 87, 69, 82, 84, 89, 85, 73, 79, 80, 123, 125, 10, 0, 65, 83,
    68, 70, 71, 72, 74, 75, 76, 58, 34, 126, 0, 124, 90, 88, 67, 86,
    66, 78, 77, 60, 62, 63, 0, 42, 0, 0, 32, 0, 0, 0, 0, 0,
    0, 0, 0, 0, 0, 0, 0, 0, 0, 0, 45, 0, 0, 0, 43, 0,
    0, 0, 0, 0, 0, 0, 0, 62, 0, 0, 0, 0, 0, 0, 0, 0,
    0, 0]"

definition key_map :: "u8 list" where
  "key_map =
   [0, 27, 49, 50, 51, 52, 53, 54, 55, 56, 57, 48, 45, 61, 127, 9,
    113, 119, 101, 114, 116, 121, 117, 105, 111, 112, 91, 93, 10, 0, 97, 115,
    100, 102, 103, 104, 106, 107, 108, 59, 39, 96, 0, 92, 122, 120, 99, 118,
    98, 110, 109, 44, 46, 47, 0, 42, 0, 32, 16, 1, 0, 45, 0, 0,
    0, 43, 0, 0, 0, 0, 0, 0, 0, 60, 45, 1, 0, 0, 43]"

definition alt_map :: "u8 list" where
  "alt_map =
   [0, 0, 0, 64, 0, 36, 0, 0, 123, 91, 93, 125, 92, 0, 0, 0, 0, 0, 0, 0, 0,
    0, 0, 0, 0, 0, 0, 126, 10, 0, 0, 0, 0, 0, 0, 0, 0, 0, 0, 0, 0, 0,
    0, 0, 0, 0, 0, 0, 0, 0, 0, 0, 0, 0, 0, 0, 0, 0, 16, 1, 0, 0, 0,
    0, 0, 0, 0, 0, 0, 0, 0, 0, 0, 124, 0, 0, 0, 0, 0, 0, 0, 0, 0, 0]"

definition number_tab :: "u8 list" where
  "number_tab = [55, 56, 57, 32, 52, 53, 54, 32, 49, 50, 51, 48, 46]"

text \<open>\<open>"HA5 DGC YB623"\<close>\<close>

definition cursos_tab :: "u8 list" where
  "cursos_tab = [72, 65, 53, 32, 68, 71, 67, 32, 89, 66, 54, 50, 51]"

datatype keyfn = K_none | K_do_self | K_uncaps | K_caps | K_lshift | K_rshift | K_unctrl | K_ctrl
  | K_num | K_minus | K_cursor | K_func | K_scroll | K_alt | K_unalt | K_unlshift | K_unrshift

definition key_tab :: "keyfn list" where
  "key_tab =
   [K_none, K_do_self, K_do_self, K_do_self, K_do_self, K_do_self, K_do_self, K_do_self,
    K_do_self, K_do_self, K_do_self, K_do_self, K_do_self, K_do_self, K_do_self, K_do_self,
    K_do_self, K_do_self, K_do_self, K_do_self, K_do_self, K_do_self, K_do_self, K_do_self,
    K_do_self, K_do_self, K_do_self, K_do_self, K_do_self, K_ctrl, K_do_self, K_do_self,
    K_do_self, K_do_self, K_do_self, K_do_self, K_do_self, K_do_self, K_do_self, K_do_self,
    K_do_self, K_do_self, K_lshift, K_do_self, K_do_self, K_do_self, K_do_self, K_do_self,
    K_do_self, K_do_self, K_do_self, K_do_self, K_do_self, K_minus, K_rshift, K_do_self,
    K_alt, K_do_self, K_caps, K_func, K_func, K_func, K_func, K_func,
    K_func, K_func, K_func, K_func, K_func, K_num, K_scroll, K_cursor,
    K_cursor, K_cursor, K_do_self, K_cursor, K_cursor, K_cursor, K_do_self, K_cursor,
    K_cursor, K_cursor, K_cursor, K_cursor, K_none, K_none, K_do_self, K_func,
    K_func, K_none, K_none, K_none, K_none, K_none, K_none, K_none,
    K_none, K_none, K_none, K_none, K_none, K_none, K_none, K_none,
    K_none, K_none, K_none, K_none, K_none, K_none, K_none, K_none,
    K_none, K_none, K_none, K_none, K_none, K_none, K_none, K_none,
    K_none, K_none, K_none, K_none, K_none, K_none, K_none, K_none,
    K_none, K_none, K_none, K_none, K_none, K_none, K_none, K_none,
    K_none, K_none, K_none, K_none, K_none, K_none, K_none, K_none,
    K_none, K_none, K_none, K_none, K_none, K_none, K_none, K_none,
    K_none, K_none, K_none, K_none, K_none, K_unctrl, K_none, K_none,
    K_none, K_none, K_none, K_none, K_none, K_none, K_none, K_none,
    K_none, K_none, K_unlshift, K_none, K_none, K_none, K_none, K_none,
    K_none, K_none, K_none, K_none, K_none, K_none, K_unrshift, K_none,
    K_unalt, K_none, K_uncaps, K_none, K_none, K_none, K_none, K_none,
    K_none, K_none, K_none, K_none, K_none, K_none, K_none, K_none,
    K_none, K_none, K_none, K_none, K_none, K_none, K_none, K_none,
    K_none, K_none, K_none, K_none, K_none, K_none, K_none, K_none,
    K_none, K_none, K_none, K_none, K_none, K_none, K_none, K_none,
    K_none, K_none, K_none, K_none, K_none, K_none, K_none, K_none,
    K_none, K_none, K_none, K_none, K_none, K_none, K_none, K_none,
    K_none, K_none, K_none, K_none, K_none, K_none, K_none, K_none,
    K_none, K_none, K_none, K_none, K_none, K_none, K_none, K_none]"

section \<open>State and port input\<close>

record kbd_state = console +
  reads :: "u8 list"
  mode :: u8
  leds :: u8
  e0 :: u8
  line :: line_buffer

text \<open>\<open>include/io.h\<close>: \<open>inb\<close>, and the versions that delay by a write to port 0x80.\<close>

definition inb :: "'a kbd_state_scheme \<Rightarrow> (u8 \<times> 'a kbd_state_scheme) result" where
  "inb s = (case reads s of [] \<Rightarrow> Inl Hang | b # bs \<Rightarrow> Inr (b, s\<lparr>reads := bs\<rparr>))"

definition inb_p :: "'a kbd_state_scheme \<Rightarrow> (u8 \<times> 'a kbd_state_scheme) result" where
  "inb_p s = bindE (inb s) (\<lambda>(b, s). Inr (b, outb 0x80 b s))"

definition outb_p :: "u16 \<Rightarrow> u8 \<Rightarrow> 'a kbd_state_scheme \<Rightarrow> 'a kbd_state_scheme" where
  "outb_p port data s = outb 0x80 data (outb port data s)"

text \<open>\<open>kbd_wait\<close>: the status port is polled until bit 1 is clear; \<open>bs\<close> are the answers to come.\<close>

primrec kbd_wait_loop :: "u8 list \<Rightarrow> 'a kbd_state_scheme \<Rightarrow> 'a kbd_state_scheme result" where
  "kbd_wait_loop [] s = Inl Hang"
| "kbd_wait_loop (b # bs) s =
     (let s = outb 0x80 b (s\<lparr>reads := bs\<rparr>) in if b AND 2 \<noteq> 0 then kbd_wait_loop bs s else Inr s)"

definition kbd_wait :: "'a kbd_state_scheme \<Rightarrow> 'a kbd_state_scheme result" where
  "kbd_wait s = kbd_wait_loop (reads s) s"

definition setleds :: "'a kbd_state_scheme \<Rightarrow> 'a kbd_state_scheme result" where
  "setleds s = bindE (kbd_wait s) (\<lambda>s. bindE (kbd_wait (outb 0x60 0xED s)) (\<lambda>s. Inr (outb 0x60 (leds s) s)))"

section \<open>Keys\<close>

text \<open>
  The first half of \<open>do_self\<close>: the character for a scan code. \<open>None\<close> is the early return for a
  0 in the table; the tables differ in length, and a code behind the end reads out of bounds.
\<close>

definition translate :: "u8 \<Rightarrow> u8 \<Rightarrow> u8 option result" where
  "translate md scan_code =
     (let map = (if md AND 0x20 \<noteq> 0 then alt_map else if md AND 0x3 \<noteq> 0 then shift_map else key_map)
      in if unat (scan_code AND 0xFF) \<ge> length map then Inl Undefined
         else
           let ch = map ! unat (scan_code AND 0xFF)
           in if ch = 0 then Inr None
              else
                let ch = (if md AND 0x4C \<noteq> 0 then
                      let ch = (if md AND 0x41 = 0x41 \<or> md AND 0x42 = 0x42 \<or> md AND 0x43 = 0x43
                                then if ch \<le> 90 \<and> ch \<ge> 65 then ch + 0x20 else ch
                                else if ch \<le> 122 \<and> ch \<ge> 97 then ch - 0x20 else ch)
                      in if md AND 0xC \<noteq> 0 then ch - 0x40 else ch
                    else ch);
                    ch = (if md AND 0x10 \<noteq> 0 then ch OR 0x80 else ch)
                in Inr (Some (ch AND 0xFF)))"

text \<open>\<open>printf("%c", ch)\<close>: the buffer is printed up to its first NUL (see \<open>printf_char\<close> below).\<close>

definition echo :: "u8 \<Rightarrow> 'a console_scheme \<Rightarrow> 'a console_scheme" where
  "echo ch s = puts_color 0 15 (takeWhile (\<lambda>c. c \<noteq> 0) [ch]) s"

definition do_self :: "u8 \<Rightarrow> 'a kbd_state_scheme \<Rightarrow> 'a kbd_state_scheme result" where
  "do_self scan_code s =
     bindE (translate (mode s) scan_code) (\<lambda>c.
       case c of
         None \<Rightarrow> Inr s
       | Some ch \<Rightarrow>
           let s = echo ch s
           in bindE (put_buffer ch (line s)) (\<lambda>b. Inr (s\<lparr>line := b\<rparr>)))"

definition alt :: "'a kbd_state_scheme \<Rightarrow> 'a kbd_state_scheme" where
  "alt s = (if e0 s \<noteq> 0 then s\<lparr>mode := mode s OR 0x20\<rparr> else s\<lparr>mode := mode s OR 0x10\<rparr>)"

definition unalt :: "'a kbd_state_scheme \<Rightarrow> 'a kbd_state_scheme" where
  "unalt s = (if e0 s \<noteq> 0 then s\<lparr>mode := mode s AND 0xDF\<rparr> else s\<lparr>mode := mode s AND 0xEF\<rparr>)"

definition ctrl :: "'a kbd_state_scheme \<Rightarrow> 'a kbd_state_scheme" where
  "ctrl s = (if e0 s \<noteq> 0 then s\<lparr>mode := mode s OR 0x8\<rparr> else s\<lparr>mode := mode s OR 0x4\<rparr>)"

definition unctrl :: "'a kbd_state_scheme \<Rightarrow> 'a kbd_state_scheme" where
  "unctrl s = (if e0 s \<noteq> 0 then s\<lparr>mode := mode s AND 0xF7\<rparr> else s\<lparr>mode := mode s AND 0xFB\<rparr>)"

definition lshift :: "'a kbd_state_scheme \<Rightarrow> 'a kbd_state_scheme" where
  "lshift s = s\<lparr>mode := mode s OR 0x1\<rparr>"

definition unlshift :: "'a kbd_state_scheme \<Rightarrow> 'a kbd_state_scheme" where
  "unlshift s = s\<lparr>mode := mode s AND 0xFE\<rparr>"

definition rshift :: "'a kbd_state_scheme \<Rightarrow> 'a kbd_state_scheme" where
  "rshift s = s\<lparr>mode := mode s OR 0x2\<rparr>"

definition unrshift :: "'a kbd_state_scheme \<Rightarrow> 'a kbd_state_scheme" where
  "unrshift s = s\<lparr>mode := mode s AND 0xFD\<rparr>"

definition caps :: "'a kbd_state_scheme \<Rightarrow> 'a kbd_state_scheme result" where
  "caps s =
     (if mode s AND 0x80 = 0
      then setleds (s\<lparr>leds := leds s XOR 0x4, mode := (mode s XOR 0x40) OR 0x80\<rparr>)
      else Inr s)"

definition uncaps :: "'a kbd_state_scheme \<Rightarrow> 'a kbd_state_scheme" where
  "uncaps s = s\<lparr>mode := mode s AND 0x7F\<rparr>"

definition scroll :: "'a kbd_state_scheme \<Rightarrow> 'a kbd_state_scheme result" where
  "scroll s = setleds (s\<lparr>leds := leds s XOR 0x1\<rparr>)"

definition num :: "'a kbd_state_scheme \<Rightarrow> 'a kbd_state_scheme result" where
  "num s = setleds (s\<lparr>leds := leds s XOR 0x2\<rparr>)"

text \<open>
  \<open>cursor\<close> computes a character (\<open>cursor_char\<close>, \<open>None\<close> for its early return) in a local
  variable and drops it: the key has no effect.
\<close>

definition cursor_char :: "u8 \<Rightarrow> 'a kbd_state_scheme \<Rightarrow> u8 option" where
  "cursor_char scan_code s =
     (let i = scan_code - 0x47
      in if i > 12 then None
         else if e0 s = 1 \<or> leds s AND 0x2 = 0 \<or> mode s AND 0x3 \<noteq> 0
         then let ch = cursos_tab ! unat i; ch = (if ch \<le> 57 then 126 else ch)
              in Some (ucast (push_bit 16 (ucast ch :: u32) OR 0x5B1B))
         else Some (number_tab ! unat i))"

definition cursor :: "u8 \<Rightarrow> 'a kbd_state_scheme \<Rightarrow> 'a kbd_state_scheme" where
  "cursor scan_code s = (let ch = cursor_char scan_code s in s)"

text \<open>
  \<open>func\<close> prints \<open>func :%d\<close> and runs a demonstration of \<open>src/test.c\<close> for F1 and F2. The
  demonstrations are not modelled; they are the argument \<open>run_test\<close>.
\<close>

definition func ::
    "(u8 \<Rightarrow> 'a kbd_state_scheme \<Rightarrow> 'a kbd_state_scheme result) \<Rightarrow> u8 \<Rightarrow> 'a kbd_state_scheme \<Rightarrow> 'a kbd_state_scheme result" where
  "func run_test scan_code s =
     (let i = scan_code - 58;
          s = puts_color 0 15 ([102, 117, 110, 99, 32, 58] @ decimal (ucast i) @ [10]) s
      in if i = 1 \<or> i = 2 then run_test i s else Inr s)"

definition minus :: "u8 \<Rightarrow> 'a kbd_state_scheme \<Rightarrow> 'a kbd_state_scheme result" where
  "minus scan_code s = (if e0 s \<noteq> 1 then do_self scan_code s else Inr s)"

definition key_fn ::
    "(u8 \<Rightarrow> 'a kbd_state_scheme \<Rightarrow> 'a kbd_state_scheme result) \<Rightarrow> keyfn \<Rightarrow> u8 \<Rightarrow> 'a kbd_state_scheme \<Rightarrow> 'a kbd_state_scheme result" where
  "key_fn run_test k scan_code s =
     (case k of
        K_none \<Rightarrow> Inr s | K_do_self \<Rightarrow> do_self scan_code s | K_uncaps \<Rightarrow> Inr (uncaps s) | K_caps \<Rightarrow> caps s
      | K_lshift \<Rightarrow> Inr (lshift s) | K_rshift \<Rightarrow> Inr (rshift s) | K_unctrl \<Rightarrow> Inr (unctrl s)
      | K_ctrl \<Rightarrow> Inr (ctrl s) | K_num \<Rightarrow> num s | K_minus \<Rightarrow> minus scan_code s
      | K_cursor \<Rightarrow> Inr (cursor scan_code s) | K_func \<Rightarrow> func run_test scan_code s | K_scroll \<Rightarrow> scroll s
      | K_alt \<Rightarrow> Inr (alt s) | K_unalt \<Rightarrow> Inr (unalt s) | K_unlshift \<Rightarrow> Inr (unlshift s)
      | K_unrshift \<Rightarrow> Inr (unrshift s))"

section \<open>The interrupt handler\<close>

definition handle_code ::
    "(u8 \<Rightarrow> 'a kbd_state_scheme \<Rightarrow> 'a kbd_state_scheme result) \<Rightarrow> u8 \<Rightarrow> 'a kbd_state_scheme \<Rightarrow> 'a kbd_state_scheme result" where
  "handle_code run_test scan_code s =
     (if scan_code = 0xE0 then Inr (s\<lparr>e0 := 1\<rparr>)
      else if scan_code = 0xE1 then Inr (s\<lparr>e0 := 2\<rparr>)
      else bindE (key_fn run_test (key_tab ! unat scan_code) scan_code s) (\<lambda>s. Inr (s\<lparr>e0 := 0\<rparr>)))"

definition keyboard_handler ::
    "(u8 \<Rightarrow> 'a kbd_state_scheme \<Rightarrow> 'a kbd_state_scheme result) \<Rightarrow> 'a kbd_state_scheme \<Rightarrow> 'a kbd_state_scheme result" where
  "keyboard_handler run_test s =
     bindE (inb s) (\<lambda>(scan_code, s).
       let s = (if scan_code = 0x53 \<and> mode s AND 4 \<noteq> 0 \<and> mode s AND 16 \<noteq> 0 then outb 0x64 0xFE s else s)
       in bindE (handle_code run_test scan_code s) (\<lambda>s.
            bindE (inb_p s) (\<lambda>(b, s).
              let s = outb_p 0x61 (b OR 0x80) s
              in bindE (inb_p s) (\<lambda>(b, s). Inr (outb_p 0x61 (b AND 0x7F) s)))))"

definition init_kbd :: "'a kbd_state_scheme \<Rightarrow> 'a kbd_state_scheme result" where
  "init_kbd s = setleds (s\<lparr>mode := 0, leds := 2\<rparr>)"

definition init_keyboard :: "'a kbd_state_scheme \<Rightarrow> 'a kbd_state_scheme result" where
  "init_keyboard s = bindE (init_kbd s) (\<lambda>s. Inr (register_interrupt_handler 33 Keyboard_handler s))"

section \<open>What printing and the LED commands leave alone\<close>

text \<open>The driver's own fields.\<close>

definition same_keys :: "'a kbd_state_scheme \<Rightarrow> 'a kbd_state_scheme \<Rightarrow> bool" where
  "same_keys s t \<longleftrightarrow> mode t = mode s \<and> leds t = leds s \<and> e0 t = e0 s \<and> line t = line s"

lemma same_keys_refl [simp]: "same_keys s s"
  by (simp add: same_keys_def)

lemma same_keys_outb [simp]: "same_keys (outb p d s) t = same_keys s t" "same_keys s (outb p d t) = same_keys s t"
  by (simp_all add: same_keys_def outb_def)

lemma same_keys_reads [simp]:
  "same_keys (s\<lparr>reads := bs\<rparr>) t = same_keys s t" "same_keys s (t\<lparr>reads := bs\<rparr>) = same_keys s t"
  by (simp_all add: same_keys_def)

lemma same_keys_trans: "same_keys s t \<Longrightarrow> same_keys t u \<Longrightarrow> same_keys s u"
  by (simp add: same_keys_def)

lemma same_keys_putc: "same_keys s (monitor_putc_color c bg fg s)"
  by (simp add: same_keys_def monitor_putc_color_def screen_scroll_def move_cursor_def outb_def Let_def)

lemma same_keys_puts: "same_keys s (puts_color bg fg cs s)"
proof (induction cs arbitrary: s)
  case (Cons c cs)
  from same_keys_trans [OF same_keys_putc Cons] show ?case by (simp add: puts_color_def)
qed (simp add: puts_color_def)

lemma kbd_wait_loop_keys: "kbd_wait_loop bs s = Inr s' \<Longrightarrow> same_keys s s'"
proof (induction bs arbitrary: s)
  case (Cons b bs)
  show ?case
  proof (cases "b AND 2 \<noteq> 0")
    case True
    then have "kbd_wait_loop bs (outb 0x80 b (s\<lparr>reads := bs\<rparr>)) = Inr s'" using Cons.prems by (simp add: Let_def)
    from Cons.IH [OF this] show ?thesis by simp
  next
    case False
    then show ?thesis using Cons.prems by (auto simp: Let_def)
  qed
qed simp

lemma setleds_keys: "setleds s = Inr s' \<Longrightarrow> same_keys s s'"
proof -
  assume "setleds s = Inr s'"
  then obtain s1 s2 where st: "kbd_wait s = Inr s1" "kbd_wait (outb 0x60 0xED s1) = Inr s2"
      "s' = outb 0x60 (leds s2) s2"
    by (auto simp: setleds_def bindE_eq_Inr)
  from kbd_wait_loop_keys [OF st(1) [unfolded kbd_wait_def]] kbd_wait_loop_keys [OF st(2) [unfolded kbd_wait_def]]
  show ?thesis using st(3) by (simp add: same_keys_def outb_def)
qed

lemmas setleds_fields = setleds_keys [unfolded same_keys_def]

section \<open>Bits of the state bytes\<close>

lemma all8: "(\<forall>n < 8. P n) \<longleftrightarrow> P 0 \<and> P 1 \<and> P 2 \<and> P 3 \<and> P 4 \<and> P 5 \<and> P 6 \<and> P (7 :: nat)"
proof -
  have "n < 8 \<longleftrightarrow> n = 0 \<or> n = 1 \<or> n = 2 \<or> n = 3 \<or> n = 4 \<or> n = 5 \<or> n = 6 \<or> n = 7" for n :: nat
    by arith
  then show ?thesis by auto
qed

lemma u8_eq_iff: "(x :: u8) = y \<longleftrightarrow> (\<forall>n < 8. bit x n = bit y n)"
  by (auto intro: bit_word_eqI)

lemma mask_bits:
  "(m :: u8) AND 0x20 = 0 \<longleftrightarrow> \<not> bit m 5" "m AND 0x10 = 0 \<longleftrightarrow> \<not> bit m 4" "m AND 0x80 = 0 \<longleftrightarrow> \<not> bit m 7"
  "m AND 3 = 0 \<longleftrightarrow> \<not> bit m 0 \<and> \<not> bit m 1" "m AND 0xC = 0 \<longleftrightarrow> \<not> bit m 2 \<and> \<not> bit m 3"
  "m AND 0x4C = 0 \<longleftrightarrow> \<not> bit m 2 \<and> \<not> bit m 3 \<and> \<not> bit m 6"
  "m AND 0x41 = 0x41 \<longleftrightarrow> bit m 0 \<and> bit m 6" "m AND 0x42 = 0x42 \<longleftrightarrow> bit m 1 \<and> bit m 6"
  "m AND 0x43 = 0x43 \<longleftrightarrow> bit m 0 \<and> bit m 1 \<and> bit m 6"
  by (simp_all add: u8_eq_iff bit_and_iff all8 del: bit_0)


lemma mask_3C: "(m :: u8) AND 0x3C = 0 \<longleftrightarrow> \<not> bit m 2 \<and> \<not> bit m 3 \<and> \<not> bit m 4 \<and> \<not> bit m 5"
  by (simp add: u8_eq_iff bit_and_iff all8 del: bit_0)

lemma and_FF: "(m :: u8) AND 0xFF = m"
  by (simp add: u8_eq_iff bit_and_iff all8 del: bit_0)

section \<open>Letters\<close>

text \<open>The scan codes of the 26 letters, with the lower-case letter on each.\<close>

definition letter_keys :: "(u8 \<times> u8) list" where
  "letter_keys =
    [(0x10, 113), (0x11, 119), (0x12, 101), (0x13, 114), (0x14, 116), (0x15, 121), (0x16, 117), (0x17, 105),
     (0x18, 111), (0x19, 112), (0x1E, 97), (0x1F, 115), (0x20, 100), (0x21, 102), (0x22, 103), (0x23, 104),
     (0x24, 106), (0x25, 107), (0x26, 108), (0x2C, 122), (0x2D, 120), (0x2E, 99), (0x2F, 118), (0x30, 98),
     (0x31, 110), (0x32, 109)]"

lemma letter_maps:
  "\<forall>(k, l) \<in> set letter_keys. unat k < 79 \<and> key_map ! unat k = l \<and> shift_map ! unat k = l - 0x20 \<and>
     97 \<le> l \<and> l \<le> 122"
  by (simp add: letter_keys_def key_map_def shift_map_def)

lemma letter_key_tab: "\<forall>(k, l) \<in> set letter_keys. key_tab ! unat k = K_do_self \<and> k \<noteq> 0xE0 \<and> k \<noteq> 0xE1"
  by (simp add: letter_keys_def key_tab_def)

lemma map_lengths: "length key_map = 79" "length shift_map = 98" "length alt_map = 84"
  by (simp_all add: key_map_def shift_map_def alt_map_def)

lemma letter_translate:
  assumes "(k, l) \<in> set letter_keys" "m AND 0x3C = 0"
  shows "translate m k = Inr (Some (if (m AND 3 \<noteq> 0) \<noteq> (bit m 6) then l - 0x20 else l))"
proof -
  have k: "unat k < 79" "key_map ! unat k = l" "shift_map ! unat k = l - 0x20" "97 \<le> l" "l \<le> 122"
    using letter_maps assms(1) by auto
  have l: "97 \<le> unat l" "unat l \<le> 122" using k by (simp_all add: word_le_nat_alt)
  then have u: "unat (l - 0x20) = unat l - 0x20" by (simp add: unat_sub_if')
  have nz: "l \<noteq> 0" "l \<noteq> 0x20" using l by (auto simp: word_unat_eq_iff)
  have up: "l - 0x20 \<le> 90" "65 \<le> l - 0x20" "\<not> l \<le> 90" "\<not> (97 \<le> l - 0x20)"
    using l u by (simp_all add: word_le_nat_alt)
  show ?thesis
    using assms(2) k(1)
    by (simp add: translate_def mask_bits mask_3C and_FF map_lengths k(2-5) nz up Let_def)
qed


text \<open>With no control or alt key down, typing a letter key puts that letter on the console and
  at the end of the input line: the capital one when exactly one of shift and caps lock is on,
  and nothing else of the driver's state changes.\<close>

theorem letter_key_types:
  assumes "(k, l) \<in> set letter_keys" "mode s AND 0x3C = 0" "holds (line s) cs" "length cs < 511"
  defines "c \<equiv> (if (mode s AND 3 \<noteq> 0) \<noteq> bit (mode s) 6 then l - 0x20 else l)"
  shows "\<exists>s'. handle_code run_test k s = Inr s' \<and> holds (line s') (cs @ [c]) \<and> mode s' = mode s \<and>
    leds s' = leds s \<and> e0 s' = 0 \<and> screen_of s' = screen_of (puts_color 0 15 [c] s)"
proof -
  have l: "97 \<le> unat l" using letter_maps assms(1) by (auto simp: word_le_nat_alt)
  then have "unat (l - 0x20) = unat l - 0x20" by (simp add: unat_sub_if')
  then have c: "c \<noteq> 0" using l unfolding c_def by (auto simp: word_unat_eq_iff)
  have t: "translate (mode s) k = Inr (Some c)"
    using letter_translate [OF assms(1,2)] by (simp add: c_def)
  have tab: "key_tab ! unat k = K_do_self" "k \<noteq> 0xE0" "k \<noteq> 0xE1" using letter_key_tab assms(1) by auto
  have e: "echo c s = puts_color 0 15 [c] s" using c by (simp add: echo_def)
  have f: "same_keys s (puts_color 0 15 [c] s)" by (rule same_keys_puts)
  obtain b where b: "put_buffer c (line s) = Inr b" "holds b (cs @ [c])"
    using put_buffer_holds [OF assms(3) c assms(4)] by blast
  have "handle_code run_test k s = Inr ((puts_color 0 15 [c] s)\<lparr>line := b, e0 := 0\<rparr>)"
    using t e f b(1) by (simp add: handle_code_def tab key_fn_def do_self_def same_keys_def)
  then show ?thesis using b(2) f by (simp add: same_keys_def screen_of_def)
qed

section \<open>Modifiers\<close>

text \<open>
  The bit of \<open>mode\<close> that a scan code stands for, and whether it says pressed or released; for
  control and alt the prefix decides between the left and the right key.
\<close>

definition modifier_of :: "u8 \<Rightarrow> u8 \<Rightarrow> (nat \<times> bool) option" where
  "modifier_of prefix scan_code =
     (if scan_code = 0x2A then Some (0, True) else if scan_code = 0xAA then Some (0, False)
      else if scan_code = 0x36 then Some (1, True) else if scan_code = 0xB6 then Some (1, False)
      else if scan_code = 0x1D then Some (if prefix = 0 then 2 else 3, True)
      else if scan_code = 0x9D then Some (if prefix = 0 then 2 else 3, False)
      else if scan_code = 0x38 then Some (if prefix = 0 then 4 else 5, True)
      else if scan_code = 0xB8 then Some (if prefix = 0 then 4 else 5, False)
      else if scan_code = 0xBA then Some (7, False)
      else None)"

lemma modifier_key_tab:
  "key_tab ! 0x2A = K_lshift" "key_tab ! 0xAA = K_unlshift" "key_tab ! 0x36 = K_rshift" "key_tab ! 0xB6 = K_unrshift"
  "key_tab ! 0x1D = K_ctrl" "key_tab ! 0x9D = K_unctrl" "key_tab ! 0x38 = K_alt" "key_tab ! 0xB8 = K_unalt"
  "key_tab ! 0xBA = K_uncaps" "key_tab ! 0x3A = K_caps"
  by (simp_all add: key_tab_def)

lemma modifier_effect:
  assumes "modifier_of (e0 s) scan_code = Some (i, down)"
  shows "handle_code run_test scan_code s = Inr (s\<lparr>mode := (if down then mode s OR push_bit i 1
      else mode s AND NOT (push_bit i 1)), e0 := 0\<rparr>)" and "i < 8"
proof -
  have m: "NOT 1 = (0xFE :: u8)" "NOT 2 = (0xFD :: u8)" "NOT 4 = (0xFB :: u8)" "NOT 8 = (0xF7 :: u8)"
    "NOT 0x10 = (0xEF :: u8)" "NOT 0x20 = (0xDF :: u8)" "NOT 0x80 = (0x7F :: u8)"
    and p: "push_bit 0 1 = (1 :: u8)" "push_bit 1 1 = (2 :: u8)" "push_bit 2 1 = (4 :: u8)" "push_bit 3 1 = (8 :: u8)"
      "push_bit 4 1 = (0x10 :: u8)" "push_bit 5 1 = (0x20 :: u8)" "push_bit 7 1 = (0x80 :: u8)" by simp_all
  note defs = handle_code_def modifier_key_tab key_fn_def lshift_def unlshift_def rshift_def unrshift_def
    ctrl_def unctrl_def alt_def unalt_def uncaps_def
  have "handle_code run_test 0x2A s = Inr (s\<lparr>mode := mode s OR 1, e0 := 0\<rparr>)"
    "handle_code run_test 0xAA s = Inr (s\<lparr>mode := mode s AND 0xFE, e0 := 0\<rparr>)"
    "handle_code run_test 0x36 s = Inr (s\<lparr>mode := mode s OR 2, e0 := 0\<rparr>)"
    "handle_code run_test 0xB6 s = Inr (s\<lparr>mode := mode s AND 0xFD, e0 := 0\<rparr>)"
    "handle_code run_test 0x1D s = Inr (s\<lparr>mode := mode s OR (if e0 s = 0 then 4 else 8), e0 := 0\<rparr>)"
    "handle_code run_test 0x9D s = Inr (s\<lparr>mode := mode s AND (if e0 s = 0 then 0xFB else 0xF7), e0 := 0\<rparr>)"
    "handle_code run_test 0x38 s = Inr (s\<lparr>mode := mode s OR (if e0 s = 0 then 0x10 else 0x20), e0 := 0\<rparr>)"
    "handle_code run_test 0xB8 s = Inr (s\<lparr>mode := mode s AND (if e0 s = 0 then 0xEF else 0xDF), e0 := 0\<rparr>)"
    "handle_code run_test 0xBA s = Inr (s\<lparr>mode := mode s AND 0x7F, e0 := 0\<rparr>)"
    by (simp_all add: defs)
  note cases = this
  show "i < 8" using assms by (auto simp: modifier_of_def split: if_splits)
  show "handle_code run_test scan_code s = Inr (s\<lparr>mode := (if down then mode s OR push_bit i 1
      else mode s AND NOT (push_bit i 1)), e0 := 0\<rparr>)"
    using assms unfolding modifier_of_def
    by (simp only: split: if_splits) (simp_all only: option.inject prod.inject, auto simp only: cases p m if_True if_False simp_thms)
qed


text \<open>Pressing or releasing a modifier key sets or clears exactly its own bit of \<open>mode\<close>, left and
  right keys told apart by the prefix byte, and changes nothing else.\<close>

theorem modifier_keys:
  assumes "modifier_of (e0 s) scan_code = Some (i, down)"
  shows "\<exists>md. handle_code run_test scan_code s = Inr (s\<lparr>mode := md, e0 := 0\<rparr>) \<and>
    (\<forall>j < 8. bit md j = (if j = i then down else bit (mode s) j))"
proof -
  let ?md = "if down then mode s OR push_bit i 1 else mode s AND NOT (push_bit i 1)"
  have "\<forall>j < 8. bit ?md j = (if j = i then down else bit (mode s) j)"
    using modifier_effect(2) [OF assms]
    by (auto simp: bit_or_iff bit_and_iff bit_not_iff bit_push_bit_iff bit_1_iff bit_exp_iff simp del: bit_0)
  then show ?thesis using modifier_effect(1) [OF assms] by blast
qed

section \<open>Caps lock\<close>

lemma caps_bits:
  "bit ((m XOR 0x40) OR 0x80 :: u8) 6 \<longleftrightarrow> \<not> bit m 6" "bit ((m XOR 0x40) OR 0x80 :: u8) 7"
  "bit (l XOR 4 :: u8) 2 \<longleftrightarrow> \<not> bit l 2"
  by (simp_all add: bit_or_iff bit_xor_iff)

text \<open>Caps lock toggles once per press: the first code turns the state and the LED over and
  sends the new LEDs; the codes the keyboard repeats while the key is held change nothing.\<close>

theorem caps_toggles_once:
  assumes "handle_code run_test 0x3A s = Inr s'"
  shows "if bit (mode s) 7 then s' = s\<lparr>e0 := 0\<rparr>
    else bit (mode s') 6 = (\<not> bit (mode s) 6) \<and> bit (leds s') 2 = (\<not> bit (leds s) 2) \<and>
      handle_code run_test 0x3A s' = Inr s'"
proof -
  have k: "handle_code run_test 0x3A s = bindE (caps s) (\<lambda>s. Inr (s\<lparr>e0 := 0\<rparr>))" for s
    by (simp add: handle_code_def modifier_key_tab key_fn_def)
  show ?thesis
  proof (cases "bit (mode s) 7")
    case True
    then show ?thesis using assms by (simp add: k caps_def mask_bits)
  next
    case False
    let ?t = "s\<lparr>leds := leds s XOR 0x4, mode := (mode s XOR 0x40) OR 0x80\<rparr>"
    obtain t where t: "setleds ?t = Inr t" "s' = t\<lparr>e0 := 0\<rparr>"
      using assms False by (auto simp: k caps_def mask_bits bindE_eq_Inr)
    have f: "mode t = (mode s XOR 0x40) OR 0x80" "leds t = leds s XOR 0x4"
      using setleds_fields [OF t(1)] by simp_all
    then have "handle_code run_test 0x3A s' = Inr s'"
      using t(2) caps_bits(2) [of "mode s"] by (simp add: k caps_def mask_bits)
    then show ?thesis using False f t(2) caps_bits by simp
  qed
qed

text \<open>The driver from \<open>init_keyboard\<close> on, one interrupt after the other, with whatever the device
  delivers.\<close>

inductive kbd_reachable :: "(u8 \<Rightarrow> kbd_state \<Rightarrow> kbd_state result) \<Rightarrow> kbd_state \<Rightarrow> bool" for run_test where
  start: "init_keyboard s = Inr s' \<Longrightarrow> kbd_reachable run_test s'"
| interrupt: "kbd_reachable run_test s \<Longrightarrow> keyboard_handler run_test (s\<lparr>reads := bs\<rparr>) = Inr s' \<Longrightarrow>
    kbd_reachable run_test s'"

definition caps_led :: "'a kbd_state_scheme \<Rightarrow> bool" where
  "caps_led s \<longleftrightarrow> (bit (mode s) 6 \<longleftrightarrow> bit (leds s) 2)"

lemma caps_led_same: "same_keys s t \<Longrightarrow> caps_led t = caps_led s"
  by (simp add: caps_led_def same_keys_def)

lemma do_self_keys:
  "do_self k s = Inr s' \<Longrightarrow> mode s' = mode s \<and> leds s' = leds s"
  using same_keys_puts [of s]
  by (auto simp: do_self_def bindE_eq_Inr echo_def same_keys_def Let_def split: option.splits)

lemma key_fn_caps_led:
  assumes "caps_led s" "key_fn run_test k scan_code s = Inr s'"
    and "\<And>i t t'. run_test i t = Inr t' \<Longrightarrow> mode t' = mode t \<and> leds t' = leds t"
  shows "caps_led s'"
proof (cases k)
  case K_func
  let ?t = "puts_color 0 15 ([102, 117, 110, 99, 32, 58] @ decimal (ucast (scan_code - 58)) @ [10]) s"
  have "mode s' = mode ?t \<and> leds s' = leds ?t"
    using assms(2,3) K_func by (auto simp: key_fn_def func_def Let_def split: if_splits)
  then show ?thesis using assms(1) same_keys_puts [of s] by (simp add: caps_led_def same_keys_def)
next
  case K_caps
  then show ?thesis
    using assms(1,2) setleds_fields caps_bits by (force simp: key_fn_def caps_def caps_led_def split: if_splits)
next
  case K_do_self
  then show ?thesis using assms(1,2) do_self_keys by (force simp: key_fn_def caps_led_def)
next
  case K_minus
  then show ?thesis using assms(1,2) do_self_keys by (force simp: key_fn_def minus_def caps_led_def split: if_splits)
next
  case K_num
  then show ?thesis using assms(1,2) setleds_fields
    by (force simp: key_fn_def num_def caps_led_def bit_xor_iff)
next
  case K_scroll
  then show ?thesis using assms(1,2) setleds_fields
    by (force simp: key_fn_def scroll_def caps_led_def bit_xor_iff)
qed (use assms(1,2) in \<open>auto simp: key_fn_def caps_led_def uncaps_def lshift_def rshift_def unlshift_def
      unrshift_def ctrl_def unctrl_def alt_def unalt_def cursor_def bit_or_iff bit_and_iff split: if_splits\<close>)


lemma handler_caps_led:
  assumes "caps_led s" "keyboard_handler run_test s = Inr s'"
    and "\<And>i t t'. run_test i t = Inr t' \<Longrightarrow> mode t' = mode t \<and> leds t' = leds t"
  shows "caps_led s'"
proof -
  have io: "same_keys t u" if "inb t = Inr (b, u)" for t u :: "'a kbd_state_scheme" and b
    using that by (auto simp: inb_def split: list.splits)
  have iop: "same_keys t u" if "inb_p t = Inr (b, u)" for t u :: "'a kbd_state_scheme" and b
    using that io by (auto simp: inb_p_def bindE_eq_Inr)
  obtain sc s1 s2 s3 b where st: "inb s = Inr (sc, s1)"
      "handle_code run_test sc (if sc = 0x53 \<and> mode s1 AND 4 \<noteq> 0 \<and> mode s1 AND 16 \<noteq> 0 then outb 0x64 0xFE s1 else s1) = Inr s2"
      "inb_p s2 = Inr (b, s3)"
      "\<exists>s4 b'. inb_p (outb_p 0x61 (b OR 0x80) s3) = Inr (b', s4) \<and> s' = outb_p 0x61 (b' AND 0x7F) s4"
    using assms(2) by (force simp: keyboard_handler_def bindE_eq_Inr Let_def)
  let ?s1 = "if sc = 0x53 \<and> mode s1 AND 4 \<noteq> 0 \<and> mode s1 AND 16 \<noteq> 0 then outb 0x64 0xFE s1 else s1"
  have "same_keys s ?s1" using io [OF st(1)] by simp
  then have c1: "caps_led ?s1" using caps_led_same assms(1) by blast
  have c2: "caps_led s2"
  proof (cases "sc = 0xE0 \<or> sc = 0xE1")
    case True
    then show ?thesis using st(2) c1 by (auto simp: handle_code_def caps_led_def split: if_splits)
  next
    case False
    then obtain t where "key_fn run_test (key_tab ! unat sc) sc ?s1 = Inr t" "s2 = t\<lparr>e0 := 0\<rparr>"
      using st(2) by (auto simp: handle_code_def bindE_eq_Inr simp del: if_split)
    then show ?thesis using key_fn_caps_led [OF c1 _ assms(3)] by (simp add: caps_led_def)
  qed
  have "same_keys s2 s'"
    using iop [OF st(3)] st(4) iop by (fastforce simp: outb_p_def dest: same_keys_trans)
  then show ?thesis using caps_led_same c2 by blast
qed

text \<open>From \<open>init_keyboard\<close> on, after any sequence of interrupts and whatever codes arrive, the
  caps-lock LED shows the caps-lock state, as long as the demonstrations leave both alone.\<close>

theorem caps_led_invariant:
  assumes "kbd_reachable run_test s"
    and "\<And>i t t'. run_test i t = Inr t' \<Longrightarrow> mode t' = mode t \<and> leds t' = leds t"
  shows "bit (mode s) 6 \<longleftrightarrow> bit (leds s) 2"
  using assms(1)
proof induction
  case (start s s')
  then obtain t where t: "setleds (s\<lparr>mode := 0, leds := 2\<rparr>) = Inr t" "s' = register_interrupt_handler 33 Keyboard_handler t"
    by (auto simp: init_keyboard_def init_kbd_def bindE_eq_Inr)
  have "\<not> bit (2 :: u8) 2" by simp
  then show ?case using setleds_fields [OF t(1)] t(2) by (simp add: register_interrupt_handler_def)
next
  case (interrupt s bs s')
  then have "caps_led (s\<lparr>reads := bs\<rparr>)" by (simp add: caps_led_def)
  from handler_caps_led [OF this interrupt.hyps(2) assms(2)] show ?case by (simp add: caps_led_def)
qed

section \<open>The prefix byte and the tables' ends\<close>

text \<open>A prefix byte counts for exactly the next code: 0xE0 and 0xE1 are only noted, and every
  other code that is handled leaves the note cleared.\<close>

theorem prefix_is_one_shot:
  assumes "handle_code run_test scan_code s = Inr s'"
  shows "e0 s' = (if scan_code = 0xE0 then 1 else if scan_code = 0xE1 then 2 else 0) \<and>
    (scan_code = 0xE0 \<or> scan_code = 0xE1 \<longrightarrow> s' = s\<lparr>e0 := e0 s'\<rparr>)"
  using assms by (auto simp: handle_code_def bindE_eq_Inr split: if_splits)

text \<open>The character tables are shorter than the key table: the key with code 0x56 is sent to
  \<open>do_self\<close>, but without shift it lies behind the end of \<open>key_map\<close> (and with the right alt key
  behind the end of \<open>alt_map\<close>), so the driver reads out of bounds. No code below 79 does.\<close>

theorem translate_bounds:
  "(unat k < 79 \<longrightarrow> (\<exists>c. translate m k = Inr c)) \<and>
   (\<not> bit m 0 \<and> \<not> bit m 1 \<or> bit m 5 \<longrightarrow> translate m 0x56 = Inl Undefined) \<and> key_tab ! 0x56 = K_do_self"
proof -
  have "key_tab ! 0x56 = K_do_self" by (simp add: key_tab_def)
  moreover have "translate m 0x56 = Inl Undefined" if "\<not> bit m 0 \<and> \<not> bit m 1 \<or> bit m 5"
    using that by (auto simp: translate_def Let_def mask_bits map_lengths simp del: bit_0)
  moreover have "\<exists>c. translate m k = Inr c" if "unat k < 79"
    using that by (auto simp: translate_def Let_def map_lengths and_FF)
  ultimately show ?thesis by blast
qed

text \<open>What \<open>echo\<close> stands for: the \<open>printf\<close> of \<open>src/printf.c\<close> called with the format \<open>%c\<close>.\<close>

lemma printf_char:
  assumes "text_at (mem s) p [37, 99, 0]"
  shows "printf p [ucast c] s = Some (Inr (echo c s))"
proof -
  have t: "mem s p = 37" "mem s (p + 1) = 99" "mem s (p + 2) = 0" using assms by (simp_all add: add.assoc)
  have cc: "ucast (ucast c :: u32) = c" by (rule ucast_up_ucast_id) (simp add: is_up)
  have "vsprintf (mem s) p [ucast c] [] = Some (Inr ([c], mem s))"
    using t directive_bare [of "mem s" p 99] vsprintf_end [of "mem s" "p + 2"]
    by (simp add: vsprintf_directive convert_def next_arg_def pre_pad_loop_eq add.assoc cc)
  moreover have "write_local (buff_bytes [c]) 0 0 15 s = Some (echo c s)"
  proof (cases "c = 0")
    case True
    then show ?thesis by (simp add: write_local.simps [of _ 0] echo_def buff_bytes_def puts_color_def)
  next
    case False
    then show ?thesis using write_local_string [of "[c]" "buff_bytes [c]" 0 0 15 s]
      by (simp add: echo_def buff_bytes_def)
  qed
  ultimately show ?thesis by (simp add: printf_def printf_color_def)
qed


section \<open>What every key leaves alone\<close>

text \<open>
  A relation between two states that holds across each elementary effect of the driver (a port
  access, a change of its own fields, a character printed) holds across a whole interrupt, if the
  demonstrations keep it too.
\<close>

locale kept =
  fixes K :: "'a kbd_state_scheme \<Rightarrow> 'a kbd_state_scheme \<Rightarrow> bool"
  assumes kept_refl: "K s s"
    and kept_trans: "K s t \<Longrightarrow> K t u \<Longrightarrow> K s u"
    and kept_outb: "K s (outb p d s)"
    and kept_reads: "K s (s\<lparr>reads := bs\<rparr>)"
    and kept_mode: "K s (s\<lparr>mode := x\<rparr>)"
    and kept_leds: "K s (s\<lparr>leds := x\<rparr>)"
    and kept_e0: "K s (s\<lparr>e0 := x\<rparr>)"
    and kept_line: "K s (s\<lparr>line := l\<rparr>)"
    and kept_putc: "K s (monitor_putc_color c bg fg s)"
begin

lemma kept_io:
  "K s t \<Longrightarrow> K s (outb p d t)" "K s t \<Longrightarrow> K s (t\<lparr>reads := bs\<rparr>)" "K s t \<Longrightarrow> K s (t\<lparr>mode := x\<rparr>)"
  "K s t \<Longrightarrow> K s (t\<lparr>leds := x\<rparr>)" "K s t \<Longrightarrow> K s (t\<lparr>e0 := x\<rparr>)" "K s t \<Longrightarrow> K s (t\<lparr>line := l\<rparr>)"
  by (blast intro: kept_trans kept_outb kept_reads kept_mode kept_leds kept_e0 kept_line)+

lemma kept_puts: "K s t \<Longrightarrow> K s (puts_color bg fg xs t)"
proof (induction xs arbitrary: t)
  case (Cons c xs)
  show ?case using Cons.IH [OF kept_trans [OF Cons.prems kept_putc]] by (simp add: puts_color_def)
qed (simp add: puts_color_def)

lemma kept_wait: "kbd_wait_loop bs t = Inr t' \<Longrightarrow> K s t \<Longrightarrow> K s t'"
proof (induction bs arbitrary: t)
  case (Cons b bs)
  have "K s (outb 0x80 b (t\<lparr>reads := bs\<rparr>))" by (intro kept_io Cons.prems)
  then show ?case using Cons by (auto simp: Let_def split: if_splits)
qed simp

lemma kept_setleds: "setleds t = Inr t' \<Longrightarrow> K s t \<Longrightarrow> K s t'"
proof -
  assume "setleds t = Inr t'" "K s t"
  then obtain t1 t2 where t: "kbd_wait_loop (reads t) t = Inr t1" "kbd_wait_loop (reads (outb 0x60 0xED t1)) (outb 0x60 0xED t1) = Inr t2"
      "t' = outb 0x60 (leds t2) t2" "K s t"
    by (auto simp: setleds_def kbd_wait_def bindE_eq_Inr)
  have "K s (outb 0x60 0xED t1)" by (intro kept_io kept_wait [OF t(1,4)])
  from kept_wait [OF t(2) this] show ?thesis unfolding t(3) by (rule kept_io)
qed

lemma kept_do_self: "do_self k t = Inr t' \<Longrightarrow> K s t \<Longrightarrow> K s t'"
  by (auto simp: do_self_def bindE_eq_Inr echo_def Let_def split: option.splits intro: kept_io kept_puts)

lemma kept_inb: "inb t = Inr (b, t') \<Longrightarrow> K s t \<Longrightarrow> K s t'"
  by (auto simp: inb_def split: list.splits intro: kept_io)

lemma kept_inb_p: "inb_p t = Inr (b, t') \<Longrightarrow> K s t \<Longrightarrow> K s t'"
  by (auto simp: inb_p_def bindE_eq_Inr intro: kept_io kept_inb)

lemma kept_key_fn:
  assumes "key_fn run_test k sc t = Inr t'" "K s t" "\<And>i u u'. run_test i u = Inr u' \<Longrightarrow> K u u'"
  shows "K s t'"
proof (cases k)
  case K_func
  let ?u = "puts_color 0 15 ([102, 117, 110, 99, 32, 58] @ decimal (ucast (sc - 58)) @ [10]) t"
  have "K s ?u" using assms(2) by (rule kept_puts)
  moreover have "t' = ?u \<or> K ?u t'" using assms K_func by (auto simp: key_fn_def func_def Let_def split: if_splits)
  ultimately show ?thesis using kept_trans by blast
qed (use assms(1,2) kept_refl in \<open>auto simp: key_fn_def minus_def caps_def num_def scroll_def uncaps_def lshift_def rshift_def
      unlshift_def unrshift_def ctrl_def unctrl_def alt_def unalt_def cursor_def split: if_splits
      intro: kept_io dest: kept_do_self dest!: kept_setleds [where s = s, OF _ kept_io(3) [OF kept_io(4)]]
        kept_setleds [where s = s, OF _ kept_io(4)]\<close>)

lemma kept_handle_code:
  assumes "handle_code run_test sc t = Inr t'" "K s t" "\<And>i u u'. run_test i u = Inr u' \<Longrightarrow> K u u'"
  shows "K s t'"
  using assms kept_key_fn by (fastforce simp: handle_code_def bindE_eq_Inr split: if_splits intro: kept_io)

lemma kept_handler:
  assumes "keyboard_handler run_test s = Inr s'" "\<And>i u u'. run_test i u = Inr u' \<Longrightarrow> K u u'"
  shows "K s s'"
proof -
  obtain sc s1 s2 b s3 b' s4 where st: "inb s = Inr (sc, s1)"
      "handle_code run_test sc (if sc = 0x53 \<and> mode s1 AND 4 \<noteq> 0 \<and> mode s1 AND 16 \<noteq> 0 then outb 0x64 0xFE s1 else s1) = Inr s2"
      "inb_p s2 = Inr (b, s3)" "inb_p (outb_p 0x61 (b OR 0x80) s3) = Inr (b', s4)" "s' = outb_p 0x61 (b' AND 0x7F) s4"
    using assms(1) by (force simp: keyboard_handler_def bindE_eq_Inr Let_def)
  have "K s s1" using kept_inb [OF st(1) kept_refl] .
  then have "K s (if sc = 0x53 \<and> mode s1 AND 4 \<noteq> 0 \<and> mode s1 AND 16 \<noteq> 0 then outb 0x64 0xFE s1 else s1)"
    by (simp add: kept_io(1))
  from kept_handle_code [OF st(2) this assms(2)] have "K s s2" .
  from kept_inb_p [OF st(3) this] have "K s (outb_p 0x61 (b OR 0x80) s3)" by (simp add: outb_p_def kept_io(1))
  from kept_inb_p [OF st(4) this] show ?thesis by (simp add: st(5) outb_p_def kept_io(1))
qed

end

text \<open>The first instance: the fields of a record that extends the driver's.\<close>

lemma more_putc: "kbd_state.more (monitor_putc_color c bg fg s) = kbd_state.more s"
  by (simp add: monitor_putc_color_def screen_scroll_def move_cursor_def outb_def Let_def)

interpretation more_kept: kept "\<lambda>s t. kbd_state.more t = kbd_state.more s"
  by unfold_locales (simp_all add: outb_def more_putc)

lemmas handler_more = more_kept.kept_handler

text \<open>The second instance: handlers and page directory, and all memory but the screen.\<close>

definition quiet :: "'a kbd_state_scheme \<Rightarrow> 'a kbd_state_scheme \<Rightarrow> bool" where
  "quiet s t \<longleftrightarrow> handlers t = handlers s \<and> cr3 t = cr3 s \<and> (cursor_ok s \<longrightarrow> cursor_ok t \<and> same_outside s t)"

lemma quiet_putc: "quiet s (monitor_putc_color c bg fg s)"
proof -
  have "handlers (monitor_putc_color c bg fg s) = handlers s \<and> cr3 (monitor_putc_color c bg fg s) = cr3 s"
    by (simp add: monitor_putc_color_def screen_scroll_def move_cursor_def outb_def Let_def)
  then show ?thesis using putc_spec(2,3) [of s] by (simp add: quiet_def same_outside_def)
qed

interpretation quiet: kept quiet
  by unfold_locales (simp_all add: quiet_putc, simp_all add: quiet_def same_outside_def cursor_ok_def outb_def)

section \<open>Typing\<close>

text \<open>
  What a scan code types while no modifier is down and caps lock is off: the character of an
  ordinary key, nothing for a code without function (the releases of ordinary keys and the prefix
  bytes are such codes), \<open>None\<close> for the keys that do something else.
\<close>

definition typed_by :: "u8 \<Rightarrow> u8 list option" where
  "typed_by k =
     (if key_tab ! unat k = K_none then Some []
      else if key_tab ! unat k = K_do_self \<and> unat k < 79 then Some (if key_map ! unat k = 0 then [] else [key_map ! unat k])
      else None)"

lemma translate_plain: "unat k < 79 \<Longrightarrow> translate 0 k = Inr (if key_map ! unat k = 0 then None else Some (key_map ! unat k))"
  by (simp add: translate_def and_FF map_lengths Let_def)

lemma typed_by_chars: "typed_by k = Some cs \<Longrightarrow> length cs \<le> 1 \<and> 0 \<notin> set cs"
  by (auto simp: typed_by_def split: if_splits)

lemma typed_by_prefix: "key_tab ! 0xE0 = K_none" "key_tab ! 0xE1 = K_none"
  by (simp_all add: key_tab_def)

lemma handle_code_types:
  assumes "typed_by k = Some cs" "mode s = 0" "filled (line s) ls" "length ls < 511"
  shows "\<exists>b x. handle_code run_test k s = Inr ((puts_color 0 15 cs s)\<lparr>line := b, e0 := x\<rparr>) \<and> filled b (ls @ cs)"
proof (cases "key_tab ! unat k = K_none")
  case True
  then have "handle_code run_test k s = Inr (s\<lparr>line := line s, e0 := if k = 0xE0 then 1 else if k = 0xE1 then 2 else 0\<rparr>)"
    by (simp add: handle_code_def key_fn_def)
  moreover have "cs = []" using True assms(1) by (simp add: typed_by_def)
  ultimately show ?thesis using assms(3)
    by (intro exI [of _ "line s"] exI [of _ "if k = 0xE0 then 1 else if k = 0xE1 then 2 else 0"]) (simp add: puts_color_def)
next
  case False
  then have k: "key_tab ! unat k = K_do_self" "unat k < 79" "k \<noteq> 0xE0" "k \<noteq> 0xE1"
      "cs = (if key_map ! unat k = 0 then [] else [key_map ! unat k])"
    using assms(1) typed_by_prefix by (auto simp: typed_by_def split: if_splits)
  note t = translate_plain [OF k(2)]
  have h: "handle_code run_test k s = bindE (do_self k s) (\<lambda>s. Inr (s\<lparr>e0 := 0\<rparr>))"
    using k by (simp add: handle_code_def key_fn_def)
  show ?thesis
  proof (cases "key_map ! unat k = 0")
    case True
    then have "handle_code run_test k s = Inr (s\<lparr>line := line s, e0 := 0\<rparr>)" using h t assms(2) by (simp add: do_self_def)
    then show ?thesis using True k(5) assms(3) by (intro exI [of _ "line s"] exI [of _ 0]) (simp add: puts_color_def)
  next
    case nz: False
    obtain b where b: "put_buffer (key_map ! unat k) (line s) = Inr b" "filled b (ls @ [key_map ! unat k])"
      using put_buffer_filled [OF assms(3) nz assms(4)] by blast
    have "line (puts_color 0 15 cs s) = line s" using same_keys_puts [of s] by (simp add: same_keys_def)
    then have "do_self k s = Inr ((puts_color 0 15 cs s)\<lparr>line := b\<rparr>)"
      using nz t b(1) assms(2) k(5) by (simp add: do_self_def echo_def)
    then show ?thesis using h b(2) nz k(5) by auto
  qed
qed

text \<open>A whole interrupt: the scan code and the two reads of the control port.\<close>

lemma screen_of_io [simp]:
  "screen_of (outb p d s) = screen_of s" "screen_of (s\<lparr>reads := bs\<rparr>) = screen_of s" "screen_of (s\<lparr>line := l\<rparr>) = screen_of s"
  "screen_of (s\<lparr>e0 := x\<rparr>) = screen_of s" for s :: "'a kbd_state_scheme"
  by (simp_all add: screen_of_def outb_def)

lemma screen_of_puts_cong:
  "cursor_ok s \<Longrightarrow> cursor_ok t \<Longrightarrow> screen_of s = screen_of t \<Longrightarrow>
     screen_of (puts_color bg fg cs s) = screen_of (puts_color bg fg cs t)"
  using con.puts_spec [of s bg fg cs] con.puts_spec [of t bg fg cs] by (simp add: puts_color_con)

lemma reads_puts [simp]: "reads (puts_color bg fg cs s) = reads s"
proof (induction cs arbitrary: s)
  case (Cons c cs)
  have "reads (monitor_putc_color c bg fg s) = reads s"
    by (simp add: monitor_putc_color_def screen_scroll_def move_cursor_def outb_def Let_def)
  then show ?case using Cons by (simp add: puts_color_def)
qed (simp add: puts_color_def)

lemma keyboard_handler_types:
  assumes "typed_by k = Some cs" "mode s = 0" "filled (line s) ls" "length ls < 511" "reads s = k # x # y # bs" "cursor_ok s"
  shows "\<exists>s'. keyboard_handler run_test s = Inr s' \<and> quiet s s' \<and> kbd_state.more s' = kbd_state.more s \<and>
    mode s' = 0 \<and> leds s' = leds s \<and> filled (line s') (ls @ cs) \<and> screen_of s' = screen_of (puts_color 0 15 cs s)"
proof -
  let ?s = "s\<lparr>reads := x # y # bs\<rparr>"
  obtain b z where h: "handle_code run_test k ?s = Inr ((puts_color 0 15 cs ?s)\<lparr>line := b, e0 := z\<rparr>)" "filled b (ls @ cs)"
    using handle_code_types [OF assms(1), where s = ?s and ls = ls and run_test = run_test] assms(2-4) by auto
  define u where "u = (puts_color 0 15 cs ?s)\<lparr>line := b, e0 := z\<rparr>"
  have keys: "mode u = 0" "leds u = leds s" "line u = b" "reads u = x # y # bs"
    using same_keys_puts [of ?s 0 15 cs] assms(2) by (simp_all add: u_def same_keys_def)
  have ok: "cursor_ok ?s" using assms(6) by (simp add: cursor_ok_def)
  have "screen_of u = screen_of (puts_color 0 15 cs ?s)" by (simp add: u_def)
  also have "\<dots> = screen_of (puts_color 0 15 cs s)" using ok assms(6) by (rule screen_of_puts_cong) simp
  finally have sc: "screen_of u = screen_of (puts_color 0 15 cs s)" .
  have k: "quiet s u" "kbd_state.more u = kbd_state.more s"
    unfolding u_def by (intro quiet.kept_io quiet.kept_puts quiet.kept_refl more_kept.kept_io more_kept.kept_puts refl)+
  let ?t = "outb 0x80 ((x OR 0x80)) (outb 0x61 (x OR 0x80) (outb 0x80 x (u\<lparr>reads := y # bs\<rparr>)))"
  have "keyboard_handler run_test s = Inr (outb_p 0x61 (y AND 0x7F) (outb 0x80 y (?t\<lparr>reads := bs\<rparr>)))"
    using h(1) assms(2,5) keys(4)
    by (simp add: keyboard_handler_def inb_def inb_p_def outb_p_def Let_def flip: u_def) (simp add: outb_def)
  moreover have "quiet s (outb_p 0x61 (y AND 0x7F) (outb 0x80 y (?t\<lparr>reads := bs\<rparr>)))"
    "kbd_state.more (outb_p 0x61 (y AND 0x7F) (outb 0x80 y (?t\<lparr>reads := bs\<rparr>))) = kbd_state.more s"
    unfolding outb_p_def by (intro quiet.kept_io k more_kept.kept_io)+
  ultimately show ?thesis using h(2) keys sc by (simp add: outb_p_def) (simp add: outb_def)
qed

section \<open>A keyboard at rest\<close>

definition idle_keyboard :: kbd_state where
  "idle_keyboard = \<lparr>mem = (\<lambda>_. 0), cr3 = 0, ports = [], handlers = (\<lambda>_. None), cursor_x = 0, cursor_y = 0,
     reads = [0, 0], mode = 0, leds = 2, e0 = 0, line = empty_line\<rparr>"

theorem letter_key_types_witness:
  "\<exists>s'. handle_code (\<lambda>_ t. Inr t) 0x1E idle_keyboard = Inr s' \<and> holds (line s') [97]"
  using letter_key_types [where k = "0x1E" and l = 97 and s = idle_keyboard and cs = "[]"
    and run_test = "\<lambda>_ t. Inr t"] empty_line_holds
  by (auto simp: letter_keys_def idle_keyboard_def)

theorem modifier_keys_witness:
  "\<exists>md. handle_code (\<lambda>_ t. Inr t) 0x2A idle_keyboard = Inr (idle_keyboard\<lparr>mode := md, e0 := 0\<rparr>) \<and> bit md 0"
  using modifier_keys [where s = idle_keyboard and scan_code = "0x2A" and i = 0 and down = True
    and run_test = "\<lambda>_ t. Inr t"]
  by (auto simp: modifier_of_def simp del: bit_0)

lemma idle_caps:
  "\<exists>s'. handle_code (\<lambda>_ t. Inr t) 0x3A idle_keyboard = Inr s'"
  by (simp add: handle_code_def modifier_key_tab key_fn_def caps_def setleds_def kbd_wait_def outb_def
      idle_keyboard_def Let_def)

theorem caps_toggles_once_witness:
  "\<exists>s'. handle_code (\<lambda>_ t. Inr t) 0x3A idle_keyboard = Inr s' \<and> bit (mode s') 6"
proof -
  obtain s' where s: "handle_code (\<lambda>_ t. Inr t) 0x3A idle_keyboard = Inr s'" using idle_caps by blast
  from caps_toggles_once [OF s] s show ?thesis by (auto simp: idle_keyboard_def)
qed

theorem caps_led_invariant_witness:
  "\<exists>s. kbd_reachable (\<lambda>_ t. Inr t) s \<and> (bit (mode s) 6 \<longleftrightarrow> bit (leds s) 2)"
proof -
  obtain s where "init_keyboard idle_keyboard = Inr s"
    by (auto simp: init_keyboard_def init_kbd_def setleds_def kbd_wait_def outb_def idle_keyboard_def Let_def)
  then have r: "kbd_reachable (\<lambda>_ t. Inr t) s" by (rule kbd_reachable.start)
  have "bit (mode s) 6 \<longleftrightarrow> bit (leds s) 2" by (rule caps_led_invariant [OF r]) auto
  with r show ?thesis by blast
qed

theorem prefix_is_one_shot_witness:
  "e0 (idle_keyboard\<lparr>e0 := 1\<rparr>) = 1"
  using prefix_is_one_shot [where run_test = "\<lambda>_ t. Inr t" and scan_code = "0xE0" and s = idle_keyboard
    and s' = "idle_keyboard\<lparr>e0 := 1\<rparr>"]
  by (simp add: handle_code_def)

theorem translate_bounds_witness:
  "translate 0 0x56 = Inl Undefined \<and> (\<exists>c. translate 0 0x1E = Inr c)"
  using translate_bounds [where k = "0x1E" and m = 0] by simp

end
