(* ===== verification/Kernel.thy ===== *)
theory Kernel
  imports Boot Gdt PageFault Keyboard
begin

text \<open>
  The kernel as a whole: \<open>_init\<close> of \<open>src/init.c\<close>, which calls the components' initialisations in
  order, and the interrupts that arrive afterwards, dispatched through the handler table of
  \<open>src/trap.c\<close> to the timer, the keyboard driver and the page-fault handler. The kernel's state
  holds each component's; memory, ports, directory register and handler table are shared.
\<close>

section \<open>The state\<close>

text \<open>
  The frame stack, heap, processes and interrupts are one chain of records; \<open>con\<close> (console and
  keyboard) and \<open>seg\<close> (segments) are kept beside it. Their shared part is the kernel's: a view
  takes it from there and \<open>set_con\<close>, \<open>set_seg\<close> put it back.
\<close>

datatype 'a part = Part (content: 'a)

record kernel = trap_state +
  con_part :: "kbd_state part"
  seg_part :: "gdt_state part"
  k_elf :: "elf part"
  sti_flag :: bool

definition share :: "'a machine_scheme \<Rightarrow> 'b machine_scheme \<Rightarrow> 'b machine_scheme" where
  "share a b = b\<lparr>mem := mem a, cr3 := cr3 a, ports := ports a, handlers := handlers a\<rparr>"

definition con :: "'a kernel_scheme \<Rightarrow> kbd_state" where
  "con k = share k (content (con_part k))"

definition set_con :: "'a kernel_scheme \<Rightarrow> kbd_state \<Rightarrow> 'a kernel_scheme" where
  "set_con k c = (share c k)\<lparr>con_part := Part c\<rparr>"

definition seg :: "'a kernel_scheme \<Rightarrow> gdt_state" where
  "seg k = share k (content (seg_part k))"

definition set_seg :: "'a kernel_scheme \<Rightarrow> gdt_state \<Rightarrow> 'a kernel_scheme" where
  "set_seg k g = (share g k)\<lparr>seg_part := Part g\<rparr>"

definition on_con :: "(kbd_state \<Rightarrow> kbd_state result) \<Rightarrow> 'a kernel_scheme \<Rightarrow> 'a kernel_scheme result" where
  "on_con f k = bindE (f (con k)) (\<lambda>c. Inr (set_con k c))"

text \<open>
  The keyboard driver calls back into the kernel when it starts a demonstration, so it runs on its
  own view extended by the whole kernel: \<open>keys\<close> makes that state, and \<open>kernel_of\<close> takes the
  kernel out of it again, with what the driver has done so far.
\<close>

record 'k keys_state = kbd_state +
  owner :: "'k part"

definition keys :: "'a kernel_scheme \<Rightarrow> 'a kernel_scheme keys_state" where
  "keys k = kbd_state.extend (con k) (keys_state.fields (Part k))"

definition kernel_of :: "'a kernel_scheme keys_state \<Rightarrow> 'a kernel_scheme" where
  "kernel_of c = set_con (content (owner c)) (kbd_state.truncate c)"

definition on_keys ::
    "('a kernel_scheme keys_state \<Rightarrow> 'a kernel_scheme keys_state result) \<Rightarrow> 'a kernel_scheme \<Rightarrow> 'a kernel_scheme result" where
  "on_keys f k = bindE (f (keys k)) (\<lambda>c. Inr (kernel_of c))"

definition from_keys ::
    "('a kernel_scheme \<Rightarrow> 'a kernel_scheme result) \<Rightarrow> 'a kernel_scheme keys_state \<Rightarrow> 'a kernel_scheme keys_state result" where
  "from_keys f c = bindE (f (kernel_of c)) (\<lambda>k. Inr (keys k))"

section \<open>The code\<close>

text \<open>
  What the linker and the boot leave: addresses of literals, tables, stubs and stack, the size of
  the image, the multiboot pointer, and what the uninitialised \<open>elf_t\<close> holds.
\<close>

record image =
  lit_strtab :: u32
  lit_symtab :: u32
  stack_elf :: elf
  mboot :: u32
  gdt_addr :: u32
  idts_addr :: u32
  isr_stub :: "nat \<Rightarrow> u32"
  irq_stub :: "nat \<Rightarrow> u32"
  isr255_stub :: u32
  image_size :: u32
  pgd_kern :: u32
  pte_kern :: u32
  stack_top :: u32

text \<open>\<open>_init\<close> up to \<open>sti\<close>; \<open>showStart\<close>, the menu of \<open>src/test.c\<close>, comes after it.\<close>

definition init_components :: "image \<Rightarrow> 'a kernel_scheme \<Rightarrow> 'a kernel_scheme result option" where
  "init_components im k =
     (case elf_from_multiboot (lit_strtab im) (lit_symtab im) (stack_elf im) (mboot im) (mem k) of
        None \<Rightarrow> None
      | Some e \<Rightarrow>
          let k = k\<lparr>k_elf := Part e\<rparr>;
              k = set_seg k (init_gdt (gdt_addr im) (seg k));
              k = init_trap (isr_stub im) (irq_stub im) (isr255_stub im) (idts_addr im) k
          in bindO (init_page (image_size im) (mboot im) k) (\<lambda>k.
               let k = init_vmm (pgd_kern im) (pte_kern im) k;
                   k = set_con k (monitor_clear (con k))
               in Some (bindE (init_timer 200 k) (\<lambda>k.
                    let k = init_proc_schedule (stack_top im) k
                    in bindE (on_con init_keyboard k) (\<lambda>k.
                         Inr (k\<lparr>sti_flag := True\<rparr>))))))"

text \<open>
  What a handler does with the kernel: the page-fault handler reports and stops; \<open>run_test\<close> is
  what the keys F1 and F2 start, the demonstrations of \<open>src/test.c\<close>.
\<close>

definition call_handler ::
    "(u8 \<Rightarrow> 'a kernel_scheme \<Rightarrow> 'a kernel_scheme result) \<Rightarrow> handler \<Rightarrow> register_info \<Rightarrow> 'a kernel_scheme \<Rightarrow>
       'a kernel_scheme result" where
  "call_handler run_test h r k =
     (case h of
        Timer_callback \<Rightarrow> Inr (timer_callback k)
      | Keyboard_handler \<Rightarrow> on_keys (keyboard_handler (\<lambda>i. from_keys (run_test i))) k
      | Page_fault \<Rightarrow> Inl Hang)"

text \<open>
  Interrupt line \<open>n\<close>, through the stub of the line to \<open>irq_handler\<close>: \<open>c\<close> and \<open>st\<close> are the
  registers and the stack that the processor interrupts. \<open>bs\<close> are the bytes the keyboard controller
  answers with. The stub turns interrupts off, and \<open>iret\<close> gives the flag back that the processor pushed.
\<close>

definition interrupt ::
    "(u8 \<Rightarrow> 'a kernel_scheme \<Rightarrow> 'a kernel_scheme result) \<Rightarrow> cpu \<Rightarrow> u8 \<Rightarrow> u32 list \<Rightarrow> u8 list \<Rightarrow> 'a kernel_scheme \<Rightarrow>
       'a kernel_scheme result" where
  "interrupt run_test c v st bs k =
     (case registers (fst (stub_enter v c st)) of
        None \<Rightarrow> Inl Undefined
      | Some r \<Rightarrow>
          bindE (irq_handler (call_handler run_test) r
              (set_con (k\<lparr>sti_flag := c_if (snd (stub_enter v c st))\<rparr>) ((con k)\<lparr>reads := bs\<rparr>))) (\<lambda>k'.
            Inr (k'\<lparr>sti_flag := sti_flag k\<rparr>)))"

text \<open>An interrupt that starts a demonstration: the keyboard's, with the scan code of F1 or F2.\<close>

definition starts_demo :: "u8 \<Rightarrow> u8 list \<Rightarrow> bool" where
  "starts_demo v bs \<longleftrightarrow> v = 33 \<and> (case bs of [] \<Rightarrow> False | b # _ \<Rightarrow> b = 59 \<or> b = 60)"

text \<open>
  The states the waiting kernel can be in between interrupts, before a demonstration is started: the
  processor takes an interrupt while interrupts are on.
\<close>

inductive idle :: "(u8 \<Rightarrow> kernel \<Rightarrow> kernel result) \<Rightarrow> image \<Rightarrow> kernel \<Rightarrow> bool" for run_test im where
  boot: "init_components im k = Some (Inr k') \<Longrightarrow> idle run_test im k'"
| step: "idle run_test im k \<Longrightarrow> sti_flag k \<Longrightarrow> v \<in> {32..47} \<Longrightarrow> \<not> starts_demo v bs \<Longrightarrow>
     interrupt run_test c v (ip # csel # fl # st) bs k = Inr k' \<Longrightarrow> idle run_test im k'"

section \<open>After booting\<close>

lemma con_fields [simp]:
  "mem (con k) = mem k" "cr3 (con k) = cr3 k" "ports (con k) = ports k" "handlers (con k) = handlers k"
  "mode (con k) = mode (content (con_part k))" "leds (con k) = leds (content (con_part k))" "cursor_ok (con k) = cursor_ok (content (con_part k))"
  "caps_led (con k) = caps_led (content (con_part k))" "reads (con k) = reads (content (con_part k))"
  by (simp_all add: con_def share_def cursor_ok_def caps_led_def)

lemma set_con_fields [simp]:
  "mem (set_con k c) = mem c" "cr3 (set_con k c) = cr3 c" "ports (set_con k c) = ports c" "handlers (set_con k c) = handlers c"
  "con_part (set_con k c) = Part c" "ticks (set_con k c) = ticks k" "idts (set_con k c) = idts k" "cpu_idtr (set_con k c) = cpu_idtr k"
  "cur_proc (set_con k c) = cur_proc k" "run_head (set_con k c) = run_head k" "sti_flag (set_con k c) = sti_flag k"
  by (simp_all add: set_con_def share_def)

lemma con_sti [simp]: "con (k\<lparr>sti_flag := b\<rparr>) = con k"
  by (simp add: con_def share_def)

lemma con_set_con [simp]: "con (set_con k c) = c"
  by (simp add: con_def set_con_def share_def)

lemma keys_fields [simp]:
  "owner (keys k) = Part k" "kbd_state.truncate (keys k) = con k" "mem (keys k) = mem k" "handlers (keys k) = handlers k"
  "cr3 (keys k) = cr3 k" "mode (keys k) = mode (con k)" "leds (keys k) = leds (con k)" "line (keys k) = line (con k)"
  "e0 (keys k) = e0 (con k)" "reads (keys k) = reads (con k)" "cursor_ok (keys k) = cursor_ok (con k)" "caps_led (keys k) = caps_led (con k)"
  by (simp_all add: keys_def kbd_state.defs keys_state.defs con_def share_def cursor_ok_def caps_led_def)

lemma con_kernel_of [simp]: "con (kernel_of c) = kbd_state.truncate c"
  by (simp add: kernel_of_def)

lemma kernel_of_fields [simp]:
  "mem (kernel_of c) = mem c" "cr3 (kernel_of c) = cr3 c" "ports (kernel_of c) = ports c" "handlers (kernel_of c) = handlers c"
  by (simp_all add: kernel_of_def kbd_state.defs)

text \<open>What the driver's own state and the part shared with it do not tell about the kernel.\<close>

definition same_rest :: "'a kernel_scheme \<Rightarrow> 'a kernel_scheme \<Rightarrow> bool" where
  "same_rest k k' \<longleftrightarrow> cur_proc k' = cur_proc k \<and> run_head k' = run_head k \<and> idts k' = idts k \<and>
     cpu_idtr k' = cpu_idtr k \<and> ticks k' = ticks k \<and> sti_flag k' = sti_flag k"

lemma same_rest_kernel_of [simp]:
  "same_rest (kernel_of c) k \<longleftrightarrow> same_rest (content (owner c)) k" "same_rest k (kernel_of c) \<longleftrightarrow> same_rest k (content (owner c))"
  by (simp_all add: same_rest_def kernel_of_def)

interpretation owner_kept: kept "\<lambda>s t. same_rest (content (owner s)) (content (owner t))"
  by unfold_locales
    (auto simp: same_rest_def outb_def monitor_putc_color_def screen_scroll_def move_cursor_def Let_def)

lemma set_seg_fields [simp]:
  "con_part (set_seg k g) = con_part k" "mem (set_seg k g) = mem g"
  by (simp_all add: set_seg_def share_def)

definition boot_thread :: "image \<Rightarrow> u32" where
  "boot_thread im = stack_top im - STACK_SIZE"

definition boot_handlers :: "u8 \<Rightarrow> handler option" where
  "boot_handlers = (\<lambda>_. None)(14 \<mapsto> Page_fault, 32 \<mapsto> Timer_callback, 33 \<mapsto> Keyboard_handler)"

definition kernel_inv :: "image \<Rightarrow> 'a kernel_scheme \<Rightarrow> bool" where
  "kernel_inv im k \<longleftrightarrow> handlers k = boot_handlers \<and> cr3 k = pgd_kern im - PAGE_OFFSET \<and>
     cursor_ok (con k) \<and> caps_led (con k) \<and> cur_proc k = boot_thread im \<and>
     ring (mem k) (run_head k) [boot_thread im] \<and>
     (\<forall>v. gate_target k v = (if unat v < 32 then stub_at (isr_stub im (unat v))
        else if unat v < 48 then stub_at (irq_stub im (unat v - 32)) else None)) \<and> sti_flag k"

lemma ring1: "ring m h [p] \<longleftrightarrow> h = p \<and> load32 m (p_next p) = p"
  by (auto simp: ring_def)

lemma schedule_alone:
  "cur_proc s = p \<Longrightarrow> ring (mem s) (run_head s) [p] \<Longrightarrow> schedule s = s"
  by (simp add: schedule_def change_proc_def ring1)

lemma free_region_keeps:
  "free_region p l s = Inr s' \<Longrightarrow> \<exists>st n. s' = s\<lparr>pg_stack := st, pg_top := n\<rparr>"
proof (induction p l s rule: free_region.induct)
  case (1 p l s)
  show ?case
  proof (cases "p < l \<and> p \<le> MEMORY_MAX_SIZE")
    case True
    then obtain u where u: "free_page p s = Inr u" "free_region (p + MEMORY_PAGE_SIZE) l u = Inr s'"
      using "1.prems" by (subst (asm) free_region.simps) (auto simp: bindE_eq_Inr)
    from "1.IH" [OF True u] obtain st n where "s' = u\<lparr>pg_stack := st, pg_top := n\<rparr>" by blast
    then have "s' = s\<lparr>pg_stack := st, pg_top := n\<rparr>" using u(1) by (auto simp: free_page_def split: if_splits)
    then show ?thesis by blast
  next
    case False
    have "s' = s" using "1.prems" unfolding free_region.simps [of p l s] if_not_P [OF False] by simp
    then show ?thesis by (intro exI [of _ "pg_stack s"] exI [of _ "pg_top s"]) simp
  qed
qed

lemma init_page_loop_keeps:
  assumes "init_page_loop ks a l s = Some r"
  shows "\<forall>s'. r = Inr s' \<longrightarrow> (\<exists>st n. s' = s\<lparr>pg_stack := st, pg_top := n\<rparr>)"
  using assms
proof (rule init_page_loop.raw_induct [rotated], goal_cases)
  case (1 f ks a l s r)
  show ?case
  proof (intro allI impI)
    fix s' assume r: "r = Inr s'"
    show "\<exists>st n. s' = s\<lparr>pg_stack := st, pg_top := n\<rparr>"
    proof (cases "a < l")
      case True
      let ?p = "load32 (mem s) (a + 4)"
      let ?c = "load32 (mem s) (a + 20) = 1 \<and> ?p = 0x100000"
      obtain u where u: "(if ?c then free_region (?p + ks) (?p + load32 (mem s) (a + 12)) s else Inr s) = Inr u"
          "f ks (a + 24) l u = Some (Inr s')"
        using 1(2) True r by (auto split: sum.splits if_splits)
      have "\<exists>st n. u = s\<lparr>pg_stack := st, pg_top := n\<rparr>"
      proof (cases ?c)
        case True
        then show ?thesis using u(1) free_region_keeps by simp
      next
        case False
        have "u = s\<lparr>pg_stack := pg_stack s, pg_top := pg_top s\<rparr>" using u(1) unfolding if_not_P [OF False] by simp
        then show ?thesis by blast
      qed
      moreover have "\<exists>st n. s' = u\<lparr>pg_stack := st, pg_top := n\<rparr>" using 1(1) [OF u(2)] by blast
      ultimately obtain st n st' n' where "u = s\<lparr>pg_stack := st, pg_top := n\<rparr>" "s' = u\<lparr>pg_stack := st', pg_top := n'\<rparr>"
        by blast
      then have "s' = s\<lparr>pg_stack := st', pg_top := n'\<rparr>" by simp
      then show ?thesis by blast
    next
      case False
      then have "s' = s\<lparr>pg_stack := pg_stack s, pg_top := pg_top s\<rparr>" using 1(2) r by simp
      then show ?thesis by blast
    qed
  qed
qed

lemma init_page_keeps: "init_page sz mb k = Some (Inr k') \<Longrightarrow> \<exists>st n. k' = k\<lparr>pg_stack := st, pg_top := n\<rparr>"
  using init_page_loop_keeps by (fastforce simp: init_page_def Let_def)

text \<open>The process block of the boot thread does not lie in the text buffer of the screen.\<close>

definition image_ok :: "image \<Rightarrow> bool" where
  "image_ok im \<longleftrightarrow> (\<forall>x. in_range (boot_thread im) 44 x \<longrightarrow> \<not> in_video x)"

lemma gate_target_cong: "idts s = idts t \<Longrightarrow> cpu_idtr s = cpu_idtr t \<Longrightarrow> gate_target s v = gate_target t v"
  by (simp add: gate_target_def)

lemma cursor_clear: "cursor_ok (monitor_clear s)" "mem (monitor_clear s) = fill_cells 0 2000 (mem s)"
    "handlers (monitor_clear s) = handlers s" "cr3 (monitor_clear s) = cr3 s"
  by (simp_all add: monitor_clear_def move_cursor_def outb_def Let_def cursor_ok_def)

lemma ring_off_screen:
  assumes "image_ok im" "same_outside s t" "ring (mem s) h [boot_thread im]"
  shows "ring (mem t) h [boot_thread im]"
proof -
  have "load32 (mem t) (p_next (boot_thread im)) = load32 (mem s) (p_next (boot_thread im))"
  proof (rule load32_cong)
    fix x assume "in_range (p_next (boot_thread im)) 4 x"
    then have "in_range (boot_thread im) 44 x" unfolding p_next_def by (rule in_range_sub) simp_all
    then show "mem t x = mem s x" using assms(1,2) by (simp add: image_ok_def same_outside_def)
  qed
  then show ?thesis using assms(3) by (simp add: ring1)
qed

text \<open>The states between the calls of \<open>_init\<close>.\<close>

lemma init_components_steps:
  assumes "init_components im k = Some (Inr k')"
  obtains e k0 k1 k2 k3 k4 k5 k6 t where
    "elf_from_multiboot (lit_strtab im) (lit_symtab im) (stack_elf im) (mboot im) (mem k) = Some e"
    "k0 = (let k = k\<lparr>k_elf := Part e\<rparr> in set_seg k (init_gdt (gdt_addr im) (seg k)))"
    "k1 = init_trap (isr_stub im) (irq_stub im) (isr255_stub im) (idts_addr im) k0"
    "init_page (image_size im) (mboot im) k1 = Some (Inr k2)"
    "k3 = init_vmm (pgd_kern im) (pte_kern im) k2" "k4 = set_con k3 (monitor_clear (con k3))"
    "init_timer 200 k4 = Inr k5" "k6 = init_proc_schedule (stack_top im) k5"
    "setleds ((con k6)\<lparr>mode := 0, leds := 2\<rparr>) = Inr t"
    "k' = (set_con k6 (register_interrupt_handler 33 Keyboard_handler t))\<lparr>sti_flag := True\<rparr>"
proof -
  obtain e where e: "elf_from_multiboot (lit_strtab im) (lit_symtab im) (stack_elf im) (mboot im) (mem k) = Some e"
    using assms by (auto simp: init_components_def split: option.splits)
  define k0 where "k0 = (let k = k\<lparr>k_elf := Part e\<rparr> in set_seg k (init_gdt (gdt_addr im) (seg k)))"
  define k1 where "k1 = init_trap (isr_stub im) (irq_stub im) (isr255_stub im) (idts_addr im) k0"
  obtain k2 where k2: "init_page (image_size im) (mboot im) k1 = Some (Inr k2)"
    using assms e by (auto simp: init_components_def Let_def k0_def k1_def bindO_def split: option.splits sum.splits)
  define k3 where "k3 = init_vmm (pgd_kern im) (pte_kern im) k2"
  define k4 where "k4 = set_con k3 (monitor_clear (con k3))"
  obtain k5 where k5: "init_timer 200 k4 = Inr k5"
    using assms e k2 by (auto simp: init_components_def Let_def k0_def k1_def k3_def k4_def bindE_eq_Inr)
  define k6 where "k6 = init_proc_schedule (stack_top im) k5"
  obtain c where c: "init_keyboard (con k6) = Inr c" "k' = (set_con k6 c)\<lparr>sti_flag := True\<rparr>"
    using assms e k2 k5
    by (auto simp: init_components_def Let_def k0_def k1_def k3_def k4_def k6_def bindE_eq_Inr on_con_def)
  obtain t where "setleds ((con k6)\<lparr>mode := 0, leds := 2\<rparr>) = Inr t" "c = register_interrupt_handler 33 Keyboard_handler t"
    using c(1) by (auto simp: init_keyboard_def init_kbd_def bindE_eq_Inr)
  with that [OF e k0_def k1_def k2 k3_def k4_def k5 k6_def] c(2) show thesis by blast
qed

lemma boot_inv:
  assumes "init_components im k = Some (Inr k')" "image_ok im"
  shows "kernel_inv im k' \<and> ticks k' = 0 \<and> sti_flag k' \<and> mode (con k') = 0"
proof -
  obtain e k0 k1 k2 k3 k4 k5 k6 t where "elf_from_multiboot (lit_strtab im) (lit_symtab im) (stack_elf im) (mboot im) (mem k) = Some e"
    and k0_def: "k0 = (let k = k\<lparr>k_elf := Part e\<rparr> in set_seg k (init_gdt (gdt_addr im) (seg k)))"
    and k1_def: "k1 = init_trap (isr_stub im) (irq_stub im) (isr255_stub im) (idts_addr im) k0"
    and k2: "init_page (image_size im) (mboot im) k1 = Some (Inr k2)"
    and k3_def: "k3 = init_vmm (pgd_kern im) (pte_kern im) k2" and k4_def: "k4 = set_con k3 (monitor_clear (con k3))"
    and k5: "init_timer 200 k4 = Inr k5" and k6_def: "k6 = init_proc_schedule (stack_top im) k5"
    and t: "setleds ((con k6)\<lparr>mode := 0, leds := 2\<rparr>) = Inr t"
    and k': "k' = (set_con k6 (register_interrupt_handler 33 Keyboard_handler t))\<lparr>sti_flag := True\<rparr>"
    by (rule init_components_steps [OF assms(1)])
  obtain st n where k2e: "k2 = k1\<lparr>pg_stack := st, pg_top := n\<rparr>" using init_page_keeps [OF k2] by blast
  have k3e: "handlers k3 = (handlers k1)(14 \<mapsto> Page_fault)" "cr3 k3 = pgd_kern im - PAGE_OFFSET" "idts k3 = idts k1"
      "cpu_idtr k3 = cpu_idtr k1"
    by (simp_all add: k3_def init_vmm_def Let_def set_cr3_def register_interrupt_handler_def k2e)
  have k4e: "handlers k4 = handlers k3" "cr3 k4 = cr3 k3" "idts k4 = idts k1" "cpu_idtr k4 = cpu_idtr k1" "cursor_ok (content (con_part k4))"
    by (simp_all add: k4_def cursor_clear k3e)
  have k5e: "handlers k5 = (handlers k4)(32 \<mapsto> Timer_callback)" "cr3 k5 = cr3 k4" "idts k5 = idts k1" "cpu_idtr k5 = cpu_idtr k1"
      "con_part k5 = con_part k4" "ticks k5 = 0"
    using k5 by (auto simp: init_timer_def Let_def register_interrupt_handler_def outb_def k4e)
  have k6e: "handlers k6 = handlers k5" "cr3 k6 = cr3 k5" "idts k6 = idts k1" "cpu_idtr k6 = cpu_idtr k1" "con_part k6 = con_part k5"
      "cur_proc k6 = boot_thread im" "ring (mem k6) (run_head k6) [boot_thread im]" "ticks k6 = 0"
    by (simp_all add: k6_def init_proc_schedule_def Let_def k5e boot_thread_def ring1 p_fields load32_store32_sep)
  have "quiet (con k6) t" by (rule quiet.kept_setleds [OF t quiet.kept_io(4) [OF quiet.kept_io(3) [OF quiet.kept_refl]]])
  then have q: "handlers t = handlers k6" "cr3 t = cr3 k6" "cursor_ok t" "same_outside (con k6) t"
    using k4e(5) by (simp_all add: quiet_def k6e k5e same_outside_def)
  have "\<not> bit (2 :: u8) 2" by simp
  then have leds: "caps_led t" using setleds_fields [OF t] by (simp add: caps_led_def)
  have ring: "ring (mem t) (run_head k6) [boot_thread im]" using ring_off_screen [OF assms(2) q(4)] k6e(7) by simp
  have h: "handlers k' = boot_handlers"
  proof -
    have "handlers k1 = (\<lambda>_. None)" by (rule ext) (simp add: k1_def init_trap_gate_targets)
    then show ?thesis by (simp add: k' register_interrupt_handler_def q k6e k5e k4e k3e boot_handlers_def)
  qed
  have "gate_target k' v = gate_target k1 v" for v
    by (rule gate_target_cong) (simp_all add: k' k6e)
  then have g: "\<forall>v. gate_target k' v = (if unat v < 32 then stub_at (isr_stub im (unat v))
      else if unat v < 48 then stub_at (irq_stub im (unat v - 32)) else None)"
    by (simp add: k1_def init_trap_gate_targets)
  have c': "content (con_part k') = register_interrupt_handler 33 Keyboard_handler t" by (simp add: k')
  have "cursor_ok (register_interrupt_handler 33 Keyboard_handler t)" "caps_led (register_interrupt_handler 33 Keyboard_handler t)"
    using q(3) leds by (simp_all add: register_interrupt_handler_def cursor_ok_def caps_led_def)
  then have "cursor_ok (con k')" "caps_led (con k')" by (simp_all add: c')
  moreover have "cr3 k' = pgd_kern im - PAGE_OFFSET" "cur_proc k' = boot_thread im" "ticks k' = 0" "sti_flag k'"
      "ring (mem k') (run_head k') [boot_thread im]"
    using ring by (simp_all add: k' register_interrupt_handler_def q k6e k5e k4e k3e)
  moreover have "mode (con k') = 0"
    using setleds_fields [OF t] by (simp add: k' register_interrupt_handler_def)
  ultimately show ?thesis using g h by (simp add: kernel_inv_def del: con_fields(5))
qed


section \<open>Interrupts while waiting\<close>

lemma truncate_fields [simp]:
  "mode (kbd_state.truncate c) = mode c" "leds (kbd_state.truncate c) = leds c" "mem (kbd_state.truncate c) = mem c"
  "line (kbd_state.truncate c) = line c" "caps_led (kbd_state.truncate c) = caps_led c" "cursor_ok (kbd_state.truncate c) = cursor_ok c"
  "handlers (kbd_state.truncate c) = handlers c" "cr3 (kbd_state.truncate c) = cr3 c"
  by (simp_all add: kbd_state.defs caps_led_def cursor_ok_def)

lemma quiet_views:
  "quiet (kbd_state.truncate c) (con k) = quiet c (keys k)" "quiet (keys k) c = quiet (con k) (kbd_state.truncate c)"
  by (simp_all add: quiet_def same_outside_def)

text \<open>The demonstrations do not matter to a key other than F1 and F2.\<close>

lemma func_no_demo: "sc \<noteq> 59 \<Longrightarrow> sc \<noteq> 60 \<Longrightarrow> func run sc s = func run' sc s"
proof -
  assume "sc \<noteq> 59" "sc \<noteq> 60"
  then have "sc - 58 \<noteq> 1" "sc - 58 \<noteq> 2" by (simp_all add: diff_eq_eq)
  then show ?thesis by (simp add: func_def Let_def)
qed

lemma handler_no_demo:
  assumes "reads s = bs" "\<not> starts_demo 33 bs"
  shows "keyboard_handler run s = keyboard_handler run' s"
proof (cases bs)
  case Nil
  then show ?thesis using assms(1) by (simp add: keyboard_handler_def inb_def)
next
  case (Cons b bs')
  then have b: "b \<noteq> 59" "b \<noteq> 60" using assms(2) by (simp_all add: starts_demo_def)
  have "key_fn run k b t = key_fn run' k b t" for k t
    using func_no_demo [OF b, of run t run'] by (simp add: key_fn_def split: keyfn.splits)
  then have "handle_code run b t = handle_code run' b t" for t by (simp add: handle_code_def)
  then show ?thesis using assms(1) Cons by (simp add: keyboard_handler_def inb_def)
qed

text \<open>The keyboard interrupt, as the kernel sees it.\<close>

lemma key_interrupt:
  assumes "on_keys (keyboard_handler (\<lambda>i. from_keys (run_test i))) k = Inr k'" "\<not> starts_demo 33 (reads (con k))"
  shows "quiet (con k) (con k')" "caps_led (con k) \<Longrightarrow> caps_led (con k')" "same_rest k k'"
proof -
  have r: "reads (keys k) = reads (con k)" by simp
  obtain c where c: "keyboard_handler (\<lambda>_. Inr) (keys k) = Inr c" "k' = kernel_of c"
    using assms(1) handler_no_demo [OF r assms(2), of "\<lambda>i. from_keys (run_test i)" "\<lambda>_. Inr"]
    by (auto simp: on_keys_def bindE_eq_Inr)
  have q: "quiet (keys k) c" by (rule quiet.kept_handler [OF c(1)]) (simp add: quiet_def same_outside_def)
  then show "quiet (con k) (con k')" by (simp add: c(2) quiet_views)
  have "same_rest (content (owner (keys k))) (content (owner c))"
    by (rule owner_kept.kept_handler [OF c(1)]) (simp add: same_rest_def)
  then show "same_rest k k'" by (simp add: c(2))
  have "caps_led c" if "caps_led (keys k)" by (rule handler_caps_led [OF that c(1)]) simp_all
  then show "caps_led (con k) \<Longrightarrow> caps_led (con k')" by (simp add: c(2))
qed

lemma line_registers:
  assumes "v \<in> {32..47}"
  shows "\<exists>r. registers (fst (stub_enter v c (ip # csel # fl # st))) = Some r \<and> int_no r = ucast v \<and>
    ucast (int_no r) = v"
proof -
  have "v < 0x80" using assms by (auto simp: word_le_nat_alt word_less_nat_alt)
  moreover have "ucast (ucast v :: u32) = v" by (rule bit_word_eqI) (simp add: bit_simps)
  ultimately show ?thesis
    using push_byte_small by (simp add: stub_enter_def pusha_def push_byte_def Let_def)
qed

lemma interrupt_dispatch:
  assumes "v \<in> {32..47}"
  shows "\<exists>r k1. interrupt run_test c v (ip # csel # fl # st) bs k =
      bindE (case handlers k v of None \<Rightarrow> Inr k1 | Some h \<Rightarrow> call_handler run_test h r k1)
        (\<lambda>k'. Inr (k'\<lparr>sti_flag := sti_flag k\<rparr>)) \<and>
    k1 = (set_con k ((con k)\<lparr>reads := bs\<rparr>))
      \<lparr>ports := ports k @ (if v \<ge> 40 then [(0xA0, 0x20)] else []) @ [(0x20, 0x20)], sti_flag := False\<rparr>"
proof -
  obtain r where r: "registers (fst (stub_enter v c (ip # csel # fl # st))) = Some r" "int_no r = ucast v" "ucast (int_no r) = v"
    using line_registers [OF assms] by blast
  have n: "int_no r \<ge> 40 \<longleftrightarrow> v \<ge> 40" "\<not> int_no r \<ge> 256"
  proof -
    have "unat v < 2 ^ LENGTH(8)" by (rule unsigned_less)
    then show "int_no r \<ge> 40 \<longleftrightarrow> v \<ge> 40" "\<not> int_no r \<ge> 256"
      by (simp_all add: r(2) word_le_nat_alt unsigned_ucast_eq take_bit_nat_def)
  qed
  have off: "c_if (snd (stub_enter v c (ip # csel # fl # st))) = False" by (simp add: stub_enter_def Let_def)
  let ?k = "set_con (k\<lparr>sti_flag := False\<rparr>) ((con k)\<lparr>reads := bs\<rparr>)"
  let ?k1 = "(set_con k ((con k)\<lparr>reads := bs\<rparr>))
    \<lparr>ports := ports k @ (if v \<ge> 40 then [(0xA0, 0x20)] else []) @ [(0x20, 0x20)], sti_flag := False\<rparr>"
  have "outb 0x20 0x20 (if int_no r \<ge> 40 then outb 0xA0 0x20 ?k else ?k) = ?k1"
    by (simp add: outb_def n(1)) (simp add: set_con_def share_def)
  moreover have "handlers ?k1 v = handlers k v" by simp
  ultimately have "interrupt run_test c v (ip # csel # fl # st) bs k =
      bindE (case handlers k v of None \<Rightarrow> Inr ?k1 | Some h \<Rightarrow> call_handler run_test h r ?k1) (\<lambda>k'. Inr (k'\<lparr>sti_flag := sti_flag k\<rparr>))"
    using r n(2) by (simp only: interrupt_def off irq_handler_def Let_def option.case if_False)
  then show ?thesis by blast
qed

text \<open>The interrupt flag apart, the state of a kernel at rest.\<close>

definition rest_inv :: "image \<Rightarrow> 'a kernel_scheme \<Rightarrow> bool" where
  "rest_inv im k \<longleftrightarrow> kernel_inv im (k\<lparr>sti_flag := True\<rparr>)"

lemma rest_inv_cong:
  assumes "rest_inv im k" "handlers k' = handlers k" "cr3 k' = cr3 k" "cursor_ok (con k')" "caps_led (con k')"
    "cur_proc k' = cur_proc k" "run_head k' = run_head k" "ring (mem k') (run_head k') [boot_thread im]"
    "idts k' = idts k" "cpu_idtr k' = cpu_idtr k"
  shows "rest_inv im k'"
  using assms gate_target_cong [of k' k] gate_target_cong [of "k\<lparr>sti_flag := True\<rparr>" k] gate_target_cong [of "k'\<lparr>sti_flag := True\<rparr>" k']
  by (simp add: kernel_inv_def rest_inv_def del: con_fields)

lemma handler_inv:
  assumes inv: "rest_inv im k" and ok: "image_ok im" and no: "h = Keyboard_handler \<Longrightarrow> \<not> starts_demo 33 (reads (con k))"
    and step: "call_handler run_test h r k = Inr k'"
  shows "rest_inv im k' \<and> ticks k' = (if h = Timer_callback then ticks k + 1 else ticks k) \<and>
    (\<forall>x. \<not> in_video x \<longrightarrow> mem k' x = mem k x)"
proof -
  have iv: "cur_proc k = boot_thread im" "ring (mem k) (run_head k) [boot_thread im]" "cursor_ok (con k)" "caps_led (con k)"
    using inv by (simp_all add: rest_inv_def kernel_inv_def del: con_fields)
  show ?thesis
  proof (cases h)
    case Timer_callback
    let ?k = "k\<lparr>ticks := ticks k + 1\<rparr>"
    have "schedule ?k = ?k" using iv by (intro schedule_alone [where p = "boot_thread im"]) simp_all
    then have k': "k' = ?k" using step Timer_callback by (simp add: call_handler_def timer_callback_def)
    have c: "con ?k = con k" by (simp add: con_def share_def)
    have "rest_inv im ?k" by (rule rest_inv_cong [OF inv]) (use iv in \<open>simp_all add: c del: con_fields\<close>)
    then show ?thesis using k' Timer_callback by simp
  next
    case Keyboard_handler
    then have st: "on_keys (keyboard_handler (\<lambda>i. from_keys (run_test i))) k = Inr k'" using step by (simp add: call_handler_def)
    note q = key_interrupt [OF st no [OF Keyboard_handler]]
    have so: "cursor_ok (con k')" "same_outside (con k) (con k')" using q(1) iv(3) by (simp_all add: quiet_def)
    have ring: "ring (mem (con k)) (run_head k) [boot_thread im]" using iv(2) by simp
    have "rest_inv im k'"
      by (rule rest_inv_cong [OF inv])
        (use q so iv ring_off_screen [OF ok so(2) ring] in \<open>simp_all add: quiet_def same_rest_def\<close>)
    then show ?thesis using Keyboard_handler so(2) q(3) by (simp add: same_outside_def same_rest_def)
  next
    case Page_fault
    then show ?thesis using step by (simp add: call_handler_def)
  qed
qed

lemma interrupt_inv:
  assumes inv: "kernel_inv im k" and ok: "image_ok im"
    and v: "v \<in> {32..47}" "\<not> starts_demo v bs" and step: "interrupt run_test c v (ip # csel # fl # st) bs k = Inr k'"
  shows "kernel_inv im k' \<and> ticks k' = (if v = 32 then ticks k + 1 else ticks k) \<and>
    (\<forall>x. \<not> in_video x \<longrightarrow> mem k' x = mem k x)"
proof -
  define k1 where "k1 = (set_con k ((con k)\<lparr>reads := bs\<rparr>))
      \<lparr>ports := ports k @ (if v \<ge> 40 then [(0xA0, 0x20)] else []) @ [(0x20, 0x20)], sti_flag := False\<rparr>"
  obtain r where "bindE (case handlers k v of None \<Rightarrow> Inr k1 | Some h \<Rightarrow> call_handler run_test h r k1)
      (\<lambda>k'. Inr (k'\<lparr>sti_flag := sti_flag k\<rparr>)) = Inr k'"
    using interrupt_dispatch [OF v(1), of run_test c ip csel fl st bs k] step unfolding k1_def by metis
  then obtain k2 where r: "(case handlers k v of None \<Rightarrow> Inr k1 | Some h \<Rightarrow> call_handler run_test h r k1) = Inr k2"
      "k' = k2\<lparr>sti_flag := sti_flag k\<rparr>" by (auto simp: bindE_eq_Inr)
  have k: "k\<lparr>sti_flag := True\<rparr> = k" using inv by (cases k) (simp add: kernel_inv_def)
  have "rest_inv im k" using inv by (simp add: rest_inv_def k)
  then have "rest_inv im k1"
    by (rule rest_inv_cong) (use inv in \<open>simp_all add: k1_def kernel_inv_def cursor_ok_def caps_led_def con_def share_def set_con_def\<close>)
  moreover have "reads (con k1) = bs" by (simp add: k1_def set_con_def share_def)
  ultimately have k1: "rest_inv im k1" "reads (con k1) = bs" "ticks k1 = ticks k" "mem k1 = mem k" by (simp_all add: k1_def)
  have "handlers k v = (if v = 32 then Some Timer_callback else if v = 33 then Some Keyboard_handler
      else if v = 14 then Some Page_fault else None)"
    using inv by (simp add: kernel_inv_def boot_handlers_def)
  then have "rest_inv im k2 \<and> ticks k2 = (if v = 32 then ticks k + 1 else ticks k) \<and> (\<forall>x. \<not> in_video x \<longrightarrow> mem k2 x = mem k x)"
    using r(1) handler_inv [OF k1(1) ok, of Timer_callback run_test r k2] handler_inv [OF k1(1) ok, of Keyboard_handler run_test r k2]
      v k1(1-4) by (auto simp del: con_fields split: if_splits)
  moreover have "sti_flag k" using inv by (simp add: kernel_inv_def)
  ultimately show ?thesis using r(2) by (simp add: rest_inv_def)
qed

lemma idle_inv:
  assumes "idle run_test im k" "image_ok im"
  shows "kernel_inv im k"
  using assms(1)
proof induction
  case (boot k k')
  then show ?case using boot_inv assms(2) by blast
next
  case (step k v bs c ip csel fl st k')
  then show ?case using interrupt_inv assms(2) by blast
qed

text \<open>\<open>_init\<close> leaves a kernel in which exactly the timer, the keyboard driver and the page-fault
  handler are registered (the order of its calls matters: \<open>init_trap\<close> forgets all handlers), the
  kernel's page directory is loaded, every exception and interrupt line goes to its stub, and
  only the boot thread runs.\<close>

theorem init_establishes:
  assumes "init_components im k = Some (Inr k')" "image_ok im"
  shows "handlers k' = (\<lambda>_. None)(14 \<mapsto> Page_fault, 32 \<mapsto> Timer_callback, 33 \<mapsto> Keyboard_handler) \<and>
    cr3 k' = pgd_kern im - PAGE_OFFSET \<and> cursor_ok (con k') \<and> ticks k' = 0 \<and> sti_flag k' \<and>
    cur_proc k' = boot_thread im \<and> ring (mem k') (run_head k') [boot_thread im] \<and>
    (\<forall>v. gate_target k' v = (if unat v < 32 then Some (0x08, 0x8E, isr_stub im (unat v))
        else if unat v < 48 then Some (0x08, 0x8E, irq_stub im (unat v - 32)) else None))"
  using boot_inv [OF assms] by (simp add: kernel_inv_def boot_handlers_def)



section \<open>The boot completes\<close>

lemma kbd_wait_ready:
  "\<forall>b \<in> set bs. b AND 2 \<noteq> 0 \<Longrightarrow> b AND 2 = 0 \<Longrightarrow> reads s = bs @ b # rest \<Longrightarrow>
     \<exists>s'. kbd_wait_loop (bs @ b # rest) s = Inr s' \<and> reads s' = rest"
  by (induction bs arbitrary: s) (auto simp: Let_def outb_def)

lemma setleds_ready:
  assumes "reads s = bs @ b # bs' @ b' # rest" "\<forall>x \<in> set (bs @ bs'). x AND 2 \<noteq> 0" "b AND 2 = 0" "b' AND 2 = 0"
  shows "\<exists>s'. setleds s = Inr s'"
proof -
  obtain s1 where s1: "kbd_wait s = Inr s1" "reads s1 = bs' @ b' # rest"
    using kbd_wait_ready [of bs b s "bs' @ b' # rest"] assms by (auto simp: kbd_wait_def)
  have "reads (outb 0x60 0xED s1) = bs' @ b' # rest" by (simp add: s1 outb_def)
  then obtain s2 where "kbd_wait (outb 0x60 0xED s1) = Inr s2"
    using kbd_wait_ready [of bs' b' "outb 0x60 0xED s1" rest] assms by (auto simp: kbd_wait_def)
  then show ?thesis using s1 by (simp add: setleds_def)
qed

lemma set_parts_frames [simp]:
  "pg_stack (set_con k c) = pg_stack k" "pg_top (set_con k c) = pg_top k"
  "pg_stack (set_seg k g) = pg_stack k" "pg_top (set_seg k g) = pg_top k"
  by (simp_all add: set_con_def set_seg_def share_def)

lemma init_trap_vm:
  "mem (init_trap i q f a s) = mem s" "pg_stack (init_trap i q f a s) = pg_stack s" "pg_top (init_trap i q f a s) = pg_top s"
    "con_part (init_trap i q f a s) = con_part s" for s :: "'a kernel_scheme"
proof -
  have isr: "mem (set_isrs i n t) = mem t \<and> pg_stack (set_isrs i n t) = pg_stack t \<and> pg_top (set_isrs i n t) = pg_top t \<and>
      con_part (set_isrs i n t) = con_part t" for n and t :: "'a kernel_scheme"
    by (induction n) (simp_all add: setIdt_def)
  have irq: "mem (set_irqs q n t) = mem t \<and> pg_stack (set_irqs q n t) = pg_stack t \<and> pg_top (set_irqs q n t) = pg_top t \<and>
      con_part (set_irqs q n t) = con_part t" for n and t :: "'a kernel_scheme"
    by (induction n) (simp_all add: setIdt_def)
  show "mem (init_trap i q f a s) = mem s" "pg_stack (init_trap i q f a s) = pg_stack s" "pg_top (init_trap i q f a s) = pg_top s"
    "con_part (init_trap i q f a s) = con_part s"
    by (simp_all add: init_trap_def Let_def idt_to_idtr_def setIdt_def isr irq init_pic_def outb_def)
qed

lemma init_trap_heap: "first (init_trap i q f a s) = first s" "mm_top (init_trap i q f a s) = mm_top s"
proof -
  have "first (set_isrs g n t) = first t" "mm_top (set_isrs g n t) = mm_top t" "first (set_irqs g n t) = first t" "mm_top (set_irqs g n t) = mm_top t"
    for g n and t :: "'a trap_state_scheme"
    by (induction n) (simp_all add: setIdt_def)
  then show "first (init_trap i q f a s) = first s" "mm_top (init_trap i q f a s) = mm_top s"
    by (simp_all add: init_trap_def Let_def idt_to_idtr_def setIdt_def init_pic_def outb_def)
qed

lemma init_runs:
  assumes "elf_from_multiboot (lit_strtab im) (lit_symtab im) (stack_elf im) (mboot im) (mem k) = Some e"
    and "stack_ok k" "frames k = []" "start = load32 (mem k) (mmap_addr (mboot im))" "count = unat (load32 (mem k) (mmap_length (mboot im)))"
    and "unat start + 24 * count < 2 ^ 32"
    and "length (map_pages (image_size im) (mem k) start count) \<le> unat PAGE_MAX_SIZE"
    and "reads (content (con_part k)) = bs @ b # bs' @ b' # rest" "\<forall>x \<in> set (bs @ bs'). x AND 2 \<noteq> 0" "b AND 2 = 0" "b' AND 2 = 0"
  shows "\<exists>k'. init_components im k = Some (Inr k') \<and> frames k' = rev (map_pages (image_size im) (mem k) start count) \<and> stack_ok k'"
proof -
  define k0 where "k0 = (let k = k\<lparr>k_elf := Part e\<rparr> in set_seg k (init_gdt (gdt_addr im) (seg k)))"
  define k1 where "k1 = init_trap (isr_stub im) (irq_stub im) (isr255_stub im) (idts_addr im) k0"
  have gdt: "mem (init_gdt g t) = mem t" for g and t :: gdt_state
    by (simp add: init_gdt_def Let_def setGdt_def gdt_to_gdtr_def)
  have k1: "mem k1 = mem k" "pg_stack k1 = pg_stack k" "pg_top k1 = pg_top k" "con_part k1 = con_part k"
    by (simp_all add: k1_def k0_def init_trap_vm gdt Let_def) (simp_all add: seg_def share_def)
  have pages: "map_pages (image_size im) (mem k1) start count = map_pages (image_size im) (mem k) start count" "stack_ok k1" "frames k1 = []"
    using assms(2,3) k1 by (simp_all add: stack_ok_def frames_def)
  have c: "load32 (mem k1) (mmap_length (mboot im)) = of_nat count" "load32 (mem k1) (mmap_addr (mboot im)) = start"
    using assms(4,5) k1 by simp_all
  obtain k2 where k2: "init_page (image_size im) (mboot im) k1 = Some (Inr k2)"
      "frames k2 = rev (map_pages (image_size im) (mem k) start count)" "stack_ok k2"
    using init_page_loop_spec [OF pages(2) assms(6) refl, of "image_size im"] assms(7) pages c
    by (auto simp: init_page_def Let_def)
  obtain stk n where k2e: "k2 = k1\<lparr>pg_stack := stk, pg_top := n\<rparr>" using init_page_keeps [OF k2(1)] by blast
  define k3 where "k3 = init_vmm (pgd_kern im) (pte_kern im) k2"
  define k4 where "k4 = set_con k3 (monitor_clear (con k3))"
  have "\<exists>k5. init_timer 200 k4 = Inr k5 \<and> con_part k5 = con_part k4 \<and> pg_stack k5 = pg_stack k4 \<and> pg_top k5 = pg_top k4"
    by (simp add: init_timer_def Let_def register_interrupt_handler_def outb_def)
  then obtain k5 where k5: "init_timer 200 k4 = Inr k5" "con_part k5 = con_part k4" "pg_stack k5 = pg_stack k4" "pg_top k5 = pg_top k4"
    by blast
  define k6 where "k6 = init_proc_schedule (stack_top im) k5"
  have "reads (content (con_part k6)) = reads (content (con_part k))"
    by (simp add: k6_def init_proc_schedule_def Let_def k5(2) k4_def monitor_clear_def move_cursor_def outb_def)
      (simp add: k3_def init_vmm_def Let_def set_cr3_def register_interrupt_handler_def k2e k1)
  then have "reads ((con k6)\<lparr>mode := 0, leds := 2\<rparr>) = bs @ b # bs' @ b' # rest" using assms(8) by simp
  from setleds_ready [OF this assms(9-11)] obtain c where "init_keyboard (con k6) = Inr c"
    by (auto simp: init_keyboard_def init_kbd_def)
  then have k': "init_components im k = Some (Inr ((set_con k6 c)\<lparr>sti_flag := True\<rparr>))"
    using assms(1) k2(1) k5(1)
    by (simp add: init_components_def Let_def k0_def k1_def k3_def k4_def k6_def on_con_def)
  have "frames ((set_con k6 c)\<lparr>sti_flag := True\<rparr>) = frames k2" "stack_ok ((set_con k6 c)\<lparr>sti_flag := True\<rparr>) = stack_ok k2"
    by (simp_all add: frames_def stack_ok_def k6_def init_proc_schedule_def Let_def k5 k4_def)
      (simp_all add: k3_def init_vmm_def Let_def set_cr3_def register_interrupt_handler_def)
  with k' k2(2,3) show ?thesis by auto
qed

text \<open>The boot completes, whatever is on the screen: when the symbol tables can be read, the memory map
  is in bounds and the keyboard controller becomes ready twice, \<open>_init\<close> reaches \<open>sti\<close>, and the
  usable pages of the memory map above the kernel are free.\<close>

theorem init_completes:
  assumes "elf_from_multiboot (lit_strtab im) (lit_symtab im) (stack_elf im) (mboot im) (mem k) = Some e"
    and "stack_ok k" "frames k = []" "start = load32 (mem k) (mmap_addr (mboot im))" "count = unat (load32 (mem k) (mmap_length (mboot im)))"
    and "unat start + 24 * count < 2 ^ 32"
    and "length (map_pages (image_size im) (mem k) start count) \<le> unat PAGE_MAX_SIZE"
    and "reads (content (con_part k)) = bs @ b # bs' @ b' # rest" "\<forall>x \<in> set (bs @ bs'). x AND 2 \<noteq> 0" "b AND 2 = 0" "b' AND 2 = 0"
  shows "\<exists>k'. init_components im k = Some (Inr k') \<and> frames k' = rev (map_pages (image_size im) (mem k) start count)"
  using init_runs [OF assms] by blast

text \<open>What the boot writes: the kernel's directory and tables, the boot thread's block, the screen.\<close>

lemma init_pte_loop_bytes:
  "(\<And>k. k < n \<Longrightarrow> \<not> in_range (pte + 4 * (i + of_nat k)) 4 x) \<Longrightarrow> init_pte_loop pte m i n x = m x"
proof (induction n arbitrary: m i)
  case (Suc n)
  have "\<not> in_range (pte + 4 * (i + 1 + of_nat k)) 4 x" if "k < n" for k
    using Suc.prems [of "Suc k"] that by (simp add: algebra_simps)
  then have "init_pte_loop pte m' (i + 1) n x = m' x" for m' by (rule Suc.IH)
  moreover have "\<not> in_range (pte + 4 * i) 4 x" using Suc.prems [of 0] by simp
  ultimately show ?case by (simp add: store32_other)
qed simp

lemma init_pgd_loop_bytes:
  "(\<And>k. k < n \<Longrightarrow> \<not> in_range (pgd + 4 * (i + of_nat k)) 4 x) \<Longrightarrow> init_pgd_loop pgd pte m i j n x = m x"
proof (induction n arbitrary: m i j)
  case (Suc n)
  have "\<not> in_range (pgd + 4 * (i + 1 + of_nat k)) 4 x" if "k < n" for k
    using Suc.prems [of "Suc k"] that by (simp add: algebra_simps)
  then have "init_pgd_loop pgd pte m' (i + 1) (j + 1) n x = m' x" for m' by (rule Suc.IH)
  moreover have "\<not> in_range (pgd + 4 * i) 4 x" using Suc.prems [of 0] by simp
  ultimately show ?case by (simp add: store32_other)
qed simp

lemma array_cell: "\<not> in_range a n x \<Longrightarrow> 4 * (j + 1) \<le> n \<Longrightarrow> n < 2 ^ 32 \<Longrightarrow> \<not> in_range (a + 4 * of_nat j) 4 x"
  using in_range_sub [of a "4 * of_nat j" 4 x n] by (auto simp: unat_word_ariths unat_of_nat)

lemma init_vmm_bytes:
  assumes "\<not> in_range pgd 4096 x" "\<not> in_range pte 0x80000 x"
  shows "mem (init_vmm pgd pte s) x = mem s x"
proof -
  have i: "PGD_INDEX PAGE_OFFSET = 768" by (simp add: PGD_INDEX_def)
  have "\<not> in_range (pgd + 4 * (768 + of_nat k)) 4 x" if "k < 128" for k
    using array_cell [OF assms(1), of "768 + k"] that by simp
  then have "init_pgd_loop pgd pte m 768 0 128 x = m x" for m by (rule init_pgd_loop_bytes)
  moreover have "\<not> in_range (pte + 4 * (1 + of_nat k)) 4 x" if "k < 128 * 1024 - 1" for k
    using array_cell [OF assms(2), of "1 + k"] that by simp
  then have "init_pte_loop pte m 1 (128 * 1024 - 1) x = m x" for m by (rule init_pte_loop_bytes)
  ultimately show ?thesis
    by (simp add: init_vmm_def Let_def set_cr3_def register_interrupt_handler_def i del: init_pte_loop.simps init_pgd_loop.simps)
qed

lemma block_cells:
  assumes "\<not> in_range p 44 x"
  shows "\<not> in_range p 4 x" "\<not> in_range (p + 4) 4 x" "\<not> in_range (p + 8) 4 x" "\<not> in_range (p + 12) 4 x" "\<not> in_range (p + 40) 4 x"
  using in_range_sub [of p 0 4 x 44] in_range_sub [of p 4 4 x 44] in_range_sub [of p 8 4 x 44] in_range_sub [of p 12 4 x 44]
    in_range_sub [of p 40 4 x 44] assms by auto

lemma init_components_vmm:
  fixes k :: "'a kernel_scheme"
  assumes "init_components im k = Some (Inr k')"
  obtains k2 :: "'a kernel_scheme" where "mem k2 = mem k" "pg_stack k' = pg_stack k2" "pg_top k' = pg_top k2" "first k' = first k" "mm_top k' = mm_top k"
    "\<And>x. \<not> in_video x \<Longrightarrow> \<not> in_range (boot_thread im) 44 x \<Longrightarrow> mem k' x = mem (init_vmm (pgd_kern im) (pte_kern im) k2) x"
proof -
  obtain e k0 k1 k2 k3 k4 k5 k6 t where "elf_from_multiboot (lit_strtab im) (lit_symtab im) (stack_elf im) (mboot im) (mem k) = Some e"
    and k0_def: "k0 = (let k = k\<lparr>k_elf := Part e\<rparr> in set_seg k (init_gdt (gdt_addr im) (seg k)))"
    and k1_def: "k1 = init_trap (isr_stub im) (irq_stub im) (isr255_stub im) (idts_addr im) k0"
    and k2: "init_page (image_size im) (mboot im) k1 = Some (Inr k2)"
    and k3_def: "k3 = init_vmm (pgd_kern im) (pte_kern im) k2" and k4_def: "k4 = set_con k3 (monitor_clear (con k3))"
    and k5: "init_timer 200 k4 = Inr k5" and k6_def: "k6 = init_proc_schedule (stack_top im) k5"
    and t: "setleds ((con k6)\<lparr>mode := 0, leds := 2\<rparr>) = Inr t"
    and k': "k' = (set_con k6 (register_interrupt_handler 33 Keyboard_handler t))\<lparr>sti_flag := True\<rparr>"
    by (rule init_components_steps [OF assms])
  have "mem (init_gdt g t) = mem t" for g and t :: gdt_state by (simp add: init_gdt_def Let_def setGdt_def gdt_to_gdtr_def)
  then have m1: "mem k1 = mem k" by (simp add: k1_def k0_def init_trap_vm Let_def) (simp add: seg_def share_def)
  have m2: "mem k2 = mem k" using init_page_keeps [OF k2] m1 by auto
  have m4: "\<not> in_video x \<Longrightarrow> mem k4 x = mem k3 x" for x by (simp add: k4_def cursor_clear fill_cells_outside)
  have m5: "mem k5 = mem k4" using k5 by (auto simp: init_timer_def Let_def register_interrupt_handler_def outb_def split: if_splits)
  have m6: "\<not> in_video x \<Longrightarrow> \<not> in_range (boot_thread im) 44 x \<Longrightarrow> mem k6 x = mem k3 x" for x
    using m4 m5 block_cells [of "stack_top im - STACK_SIZE" x]
    by (simp add: k6_def init_proc_schedule_def Let_def p_fields store32_other boot_thread_def)
  have "quiet (con k6) t" by (rule quiet.kept_setleds [OF t quiet.kept_io(4) [OF quiet.kept_io(3) [OF quiet.kept_refl]]])
  moreover have "cursor_ok (con k6)"
    using k5 by (auto simp: k6_def init_proc_schedule_def Let_def init_timer_def register_interrupt_handler_def outb_def k4_def cursor_clear split: if_splits)
  ultimately have t6: "\<not> in_video x \<Longrightarrow> mem t x = mem k6 x" for x by (simp add: quiet_def same_outside_def)
  obtain stk n where k2e: "k2 = k1\<lparr>pg_stack := stk, pg_top := n\<rparr>" using init_page_keeps [OF k2] by blast
  have v1: "first k1 = first k" "mm_top k1 = mm_top k"
    by (simp_all add: k1_def init_trap_heap) (simp_all add: k0_def Let_def set_seg_def share_def)
  have v5: "pg_stack k5 = pg_stack k2" "pg_top k5 = pg_top k2" "first k5 = first k2" "mm_top k5 = mm_top k2"
    using k5 by (auto simp: init_timer_def Let_def register_interrupt_handler_def outb_def k4_def k3_def init_vmm_def set_cr3_def
        set_con_def share_def split: if_splits)
  have "pg_stack k' = pg_stack k2" "pg_top k' = pg_top k2" "first k' = first k" "mm_top k' = mm_top k"
    using v1 v5 by (simp_all add: k' k6_def init_proc_schedule_def Let_def set_con_def share_def k2e)
  moreover have "mem k' x = mem (init_vmm (pgd_kern im) (pte_kern im) k2) x" if "\<not> in_video x" "\<not> in_range (boot_thread im) 44 x" for x
    using that by (simp add: k' register_interrupt_handler_def t6 m6 k3_def)
  ultimately show thesis using that m2 m1 by blast
qed

lemma init_components_bytes:
  fixes k :: "'a kernel_scheme"
  assumes "init_components im k = Some (Inr k')" "\<not> in_video x" "\<not> in_range (boot_thread im) 44 x"
    "\<not> in_range (pgd_kern im) 4096 x" "\<not> in_range (pte_kern im) 0x80000 x"
  shows "mem k' x = mem k x"
proof -
  obtain k2 :: "'a kernel_scheme" where "mem k2 = mem k" "\<And>x. \<not> in_video x \<Longrightarrow> \<not> in_range (boot_thread im) 44 x \<Longrightarrow>
      mem k' x = mem (init_vmm (pgd_kern im) (pte_kern im) k2) x"
    using init_components_vmm [OF assms(1)] by blast
  then show ?thesis using assms(2,3) by (simp add: init_vmm_bytes [OF assms(4,5)])
qed


lemma init_components_more:
  assumes "init_components im k = Some (Inr k')"
  shows "kernel.more k' = kernel.more k"
proof -
  obtain e k0 k1 k2 k3 k4 k5 k6 t where "elf_from_multiboot (lit_strtab im) (lit_symtab im) (stack_elf im) (mboot im) (mem k) = Some e"
    and k0_def: "k0 = (let k = k\<lparr>k_elf := Part e\<rparr> in set_seg k (init_gdt (gdt_addr im) (seg k)))"
    and k1_def: "k1 = init_trap (isr_stub im) (irq_stub im) (isr255_stub im) (idts_addr im) k0"
    and k2: "init_page (image_size im) (mboot im) k1 = Some (Inr k2)"
    and k3_def: "k3 = init_vmm (pgd_kern im) (pte_kern im) k2" and k4_def: "k4 = set_con k3 (monitor_clear (con k3))"
    and k5: "init_timer 200 k4 = Inr k5" and k6_def: "k6 = init_proc_schedule (stack_top im) k5"
    and t: "setleds ((con k6)\<lparr>mode := 0, leds := 2\<rparr>) = Inr t"
    and k': "k' = (set_con k6 (register_interrupt_handler 33 Keyboard_handler t))\<lparr>sti_flag := True\<rparr>"
    by (rule init_components_steps [OF assms])
  have more: "kernel.more (set_isrs f n s) = kernel.more s" "kernel.more (set_irqs f n s) = kernel.more s" for f n and s :: "'a kernel_scheme"
    by (induction n) (simp_all add: setIdt_def)
  have "kernel.more k1 = kernel.more k"
    by (simp add: k1_def k0_def init_trap_def Let_def idt_to_idtr_def setIdt_def more init_pic_def outb_def set_seg_def share_def)
  moreover have "kernel.more k2 = kernel.more k1" using init_page_keeps [OF k2] by auto
  moreover have "kernel.more k4 = kernel.more k2"
    by (simp add: k4_def k3_def set_con_def share_def init_vmm_def Let_def set_cr3_def register_interrupt_handler_def)
  moreover have "kernel.more k5 = kernel.more k4"
    using k5 by (auto simp: init_timer_def Let_def register_interrupt_handler_def outb_def split: if_splits)
  ultimately show ?thesis
    by (simp add: k' k6_def set_con_def share_def init_proc_schedule_def Let_def)
qed

section \<open>A concrete boot\<close>

definition bare_kernel :: kernel where
  "bare_kernel = trap_state.extend (timer_start\<lparr>mem := (\<lambda>_. 0), pg_top := 0\<rparr>)
     \<lparr>con_part = Part idle_keyboard, seg_part = Part blank_gdt, k_elf = Part some_elf, sti_flag = False\<rparr>"

definition bare_image :: image where
  "bare_image = \<lparr>lit_strtab = 0xC0110000, lit_symtab = 0xC0110008, stack_elf = some_elf, mboot = 0x9500, gdt_addr = 0xC0111000,
     idts_addr = 0xC0112000, isr_stub = (\<lambda>n. 0xC0101000 + of_nat n), irq_stub = (\<lambda>n. 0xC0102000 + of_nat n),
     isr255_stub = 0xC0103000, image_size = 0x30000, pgd_kern = 0xC0113000, pte_kern = 0xC0130000, stack_top = 0xC0122000\<rparr>"

lemma bare_kernel_fields:
  "mem bare_kernel = (\<lambda>_. 0)" "pg_top bare_kernel = 0" "content (con_part bare_kernel) = idle_keyboard"
  by (simp_all add: bare_kernel_def trap_state.defs)

lemma bare_image_ok: "image_ok bare_image"
proof -
  have "\<not> in_video x" if "in_range 0xC0120000 44 x" for x :: u32
  proof -
    have "x = 0xC0120000 + (x - 0xC0120000)" by simp
    moreover define d where "d = x - 0xC0120000"
    ultimately have "x = 0xC0120000 + d" "unat d < 44" using that by (simp_all add: in_range_def)
    then have "unat x = 0xC0120000 + unat d" by (simp add: unat_word_ariths)
    then show ?thesis by (simp add: in_video_def word_less_nat_alt)
  qed
  then show ?thesis by (simp add: image_ok_def boot_thread_def bare_image_def)
qed

lemma bare_elf: "elf_from_multiboot l1 l2 e mb (\<lambda>_. 0) = Some e"
  by (simp add: elf_from_multiboot_def load32_def)

lemma bare_runs:
  "elf_from_multiboot (lit_strtab bare_image) (lit_symtab bare_image) (stack_elf bare_image) (mboot bare_image) (mem bare_kernel)
      = Some (stack_elf bare_image)"
  "stack_ok bare_kernel" "frames bare_kernel = []" "load32 (mem bare_kernel) a = 0"
  "reads (content (con_part bare_kernel)) = [] @ 0 # [] @ 0 # []"
  by (simp_all add: bare_kernel_fields bare_elf stack_ok_def frames_def load32_def idle_keyboard_def)

theorem init_completes_witness:
  "\<exists>k'. init_components bare_image bare_kernel = Some (Inr k') \<and> frames k' = []"
  using init_completes [OF bare_runs(1-3) refl refl _ _ bare_runs(5)] by (auto simp: bare_runs(4))

lemma bare_boot: "\<exists>k'. init_components bare_image bare_kernel = Some (Inr k')"
  using init_runs [OF bare_runs(1-3) refl refl _ _ bare_runs(5)] by (auto simp: bare_runs(4))

theorem init_establishes_witness:
  "\<exists>k'. init_components bare_image bare_kernel = Some (Inr k') \<and> cur_proc k' = 0xC0120000 \<and> ticks k' = 0"
proof -
  obtain k' where k': "init_components bare_image bare_kernel = Some (Inr k')" using bare_boot by blast
  from init_establishes [OF k' bare_image_ok] k' show ?thesis by (auto simp: boot_thread_def bare_image_def)
qed



end
