(* ===== verification/Scan.thy ===== *)
theory Scan
  imports Format Keyboard
begin

text \<open>
  Formatted input: \<open>src/_doscan.c\<close> and \<open>src/scanf.c\<close>, without the floating point part that
  \<open>NOFLOAT\<close> leaves out. A \<open>FILE\<close> is the text it reads, an index into it and the count of
  characters left; a character read is an \<open>int\<close>, \<open>EOF\<close> being -1. Numbers are collected in the
  static \<open>inp_buf\<close> of 512 bytes and converted by \<open>string2long\<close>, whose argument is the list of
  the bytes before the NUL. What is scanned is stored in memory, through the pointers in the
  argument list, and the format is read from the same memory.
\<close>

section \<open>Characters\<close>

abbreviation (input) EOF :: int where "EOF \<equiv> -1"
abbreviation (input) NUMLEN :: u32 where "NUMLEN \<equiv> 512"

definition isdigit :: "int \<Rightarrow> bool" where
  "isdigit ch \<longleftrightarrow> 48 \<le> ch \<and> ch \<le> 57"

text \<open>The upper-case range is tested twice, the lower-case one never.\<close>

definition isxdigit :: "int \<Rightarrow> bool" where
  "isxdigit ch \<longleftrightarrow> 65 \<le> ch \<and> ch \<le> 70 \<or> 65 \<le> ch \<and> ch \<le> 70 \<or> 48 \<le> ch \<and> ch \<le> 57"

definition isspace :: "int \<Rightarrow> bool" where
  "isspace ch \<longleftrightarrow> ch = 9 \<or> ch = 13 \<or> ch = 10 \<or> ch = 11 \<or> ch = 12 \<or> ch = 32"

section \<open>Conversion of numbers\<close>

text \<open>\<open>*nptr\<close>, a signed \<open>char\<close>: 0 at the end of the string.\<close>

definition head_char :: "u8 list \<Rightarrow> int" where
  "head_char s = (case s of [] \<Rightarrow> 0 | c # _ \<Rightarrow> sint c)"

text \<open>The value of a digit, \<open>None\<close> for a character that is none.\<close>

definition digit_value :: "int \<Rightarrow> u32 option" where
  "digit_value c =
     (if 48 \<le> c \<and> c \<le> 57 then Some (of_int (c - 48))
      else if 97 \<le> c \<and> c \<le> 122 then Some (of_int (c - 97 + 10))
      else if 65 \<le> c \<and> c \<le> 90 then Some (of_int (c - 65 + 10))
      else None)"

text \<open>The loop: value, overflow count and the rest of the string.\<close>

primrec long_loop :: "u32 \<Rightarrow> u32 \<Rightarrow> nat \<Rightarrow> u8 list \<Rightarrow> u32 \<times> nat \<times> u8 list" where
  "long_loop base val ovfl [] = (val, ovfl, [])"
| "long_loop base val ovfl (c # s) =
     (case digit_value (sint c) of
        None \<Rightarrow> (val, ovfl, c # s)
      | Some v \<Rightarrow>
          if v \<ge> base then (val, ovfl, c # s)
          else long_loop base (val * base + v) (if val > (0xFFFFFFFF - v) div base then ovfl + 1 else ovfl) s)"

text \<open>The base and the rest of the string, after \<open>0\<close>, \<open>0x\<close> or nothing.\<close>

definition long_base :: "u32 \<Rightarrow> u8 list \<Rightarrow> u32 \<times> u8 list" where
  "long_base base s =
     (if base = 0
      then if head_char s = 48
           then if head_char (tl s) = 120 \<or> head_char (tl s) = 88 then (16, tl (tl s)) else (8, tl s)
           else (10, s)
      else if base = 16 \<and> head_char s = 48
      then if head_char (tl s) = 120 \<or> head_char (tl s) = 88 then (base, tl (tl s)) else (base, tl s)
      else (base, s))"

text \<open>\<open>string2long\<close>: the value and the string that \<open>*endptr\<close> points to.\<close>

definition string2long :: "u8 list \<Rightarrow> u32 \<Rightarrow> bool \<Rightarrow> u32 \<times> u8 list" where
  "string2long nptr base is_signed =
     (let startnptr = nptr;
          nptr = dropWhile (\<lambda>c. isspace (sint c)) nptr;
          c = head_char nptr;
          neg = (c = 45);
          nptr = (if c = 45 \<or> c = 43 then tl nptr else nptr);
          nrstart = nptr;
          (base, nptr) = long_base base nptr;
          (val, ovfl, nptr) = long_loop base 0 0 nptr;
          endptr = (if length nrstart = length nptr then startnptr else nptr);
          ovfl = (if ovfl = 0 \<and> is_signed \<and> (neg \<and> val > 0x80000000 \<or> \<not> neg \<and> val > 0x7FFFFFFF)
                  then 1 else ovfl)
      in if ovfl \<noteq> 0
         then (if is_signed then if neg then 0x80000000 else 0x7FFFFFFF else 0xFFFFFFFF, endptr)
         else (if neg then - val else val, endptr))"

definition strtol :: "u8 list \<Rightarrow> u32 \<Rightarrow> u32 \<times> u8 list" where
  "strtol nptr base = string2long nptr base True"

definition strtoul :: "u8 list \<Rightarrow> u32 \<Rightarrow> u32 \<times> u8 list" where
  "strtoul nptr base = string2long nptr base False"

section \<open>The stream\<close>

record iobuf =
  count :: int
  io_flags :: u32
  buf :: "nat \<Rightarrow> u8"
  ptr :: nat

definition fillbuf :: "iobuf \<Rightarrow> int" where
  "fillbuf st = EOF"

definition getc :: "iobuf \<Rightarrow> int \<times> iobuf" where
  "getc st =
     (let st = st\<lparr>count := count st - 1\<rparr>
      in if count st \<ge> 0 then (uint (buf st (ptr st)), st\<lparr>ptr := ptr st + 1\<rparr>) else (fillbuf st, st))"

definition ungetc :: "int \<Rightarrow> iobuf \<Rightarrow> iobuf" where
  "ungetc ch st =
     (if ch = EOF \<or> io_flags st AND 0x80 = 0 then st
      else if ptr st = 0 \<and> count st \<noteq> 0 then st
      else
        let st = (if ptr st = 0 then st\<lparr>ptr := ptr st + 1\<rparr> else st);
            st = st\<lparr>count := count st + 1\<rparr>;
            st = st\<lparr>ptr := ptr st - 1\<rparr>
        in if buf st (ptr st) \<noteq> of_int ch then st\<lparr>buf := (buf st)(ptr st := of_int ch)\<rparr> else st)"

section \<open>Collecting a number\<close>

definition o_base :: "u8 \<Rightarrow> u32" where
  "o_base type =
     (if type = 105 \<or> type = 112 \<or> type = 120 \<or> type = 88 then 16
      else if type = 100 \<or> type = 117 then 10
      else if type = 111 then 8
      else if type = 98 then 2
      else 10)"

definition good_digit :: "u32 \<Rightarrow> int \<Rightarrow> bool" where
  "good_digit base c \<longleftrightarrow> base = 10 \<and> isdigit c \<or> base = 16 \<and> isxdigit c \<or> base = 8 \<and> isdigit c \<and> c < 56
     \<or> base = 2 \<and> isdigit c \<and> c < 50"

text \<open>\<open>*bufp++ = c; if (--width) c = getc(stream)\<close>\<close>

definition push_char :: "nat \<times> int \<times> iobuf \<times> u8 list \<Rightarrow> nat \<times> int \<times> iobuf \<times> u8 list" where
  "push_char z =
     (case z of (width, c, st, bufp) \<Rightarrow>
        let bufp = bufp @ [of_int c]; width = width - 1
        in if width \<noteq> 0 then (case getc st of (c, st) \<Rightarrow> (width, c, st, bufp)) else (width, c, st, bufp))"

text \<open>The loop over the digits; \<open>n\<close> bounds the width.\<close>

primrec collect_digits :: "u32 \<Rightarrow> nat \<Rightarrow> nat \<times> int \<times> iobuf \<times> u8 list \<Rightarrow> nat \<times> int \<times> iobuf \<times> u8 list" where
  "collect_digits base 0 z = z"
| "collect_digits base (Suc n) z =
     (case z of (width, c, st, bufp) \<Rightarrow>
        if width \<noteq> 0 \<and> good_digit base c then collect_digits base n (push_char z) else z)"

text \<open>
  \<open>o_collect\<close> returns the collected text, the base for the conversion and the stream. The NUL
  behind 512 collected characters is written out of bounds.
\<close>

definition o_collect :: "int \<Rightarrow> iobuf \<Rightarrow> u8 \<Rightarrow> nat \<Rightarrow> (u8 list \<times> u32 \<times> iobuf) result" where
  "o_collect c st type width =
     (let base = o_base type;
          z = (width, c, st, []);
          z = (if c = 45 \<or> c = 43 then push_char z else z);
          (base, z) =
            (case z of (width, c, st, bufp) \<Rightarrow>
               if width \<noteq> 0 \<and> c = 48 \<and> base = 16
               then let z = push_char z
                    in case z of (width, c, st, bufp) \<Rightarrow>
                         if c \<noteq> 120 \<and> c \<noteq> 88 then (if type = 105 then 8 else base, z)
                         else if width \<noteq> 0 then (base, push_char z) else (base, z)
               else (if type = 105 then 10 else base, z));
          (width, c, st, bufp) = collect_digits base (fst z) z;
          st = (if width \<noteq> 0 \<and> c \<noteq> EOF then ungetc c st else st);
          base = (if type = 105 then 0 else base)
      in if length bufp < 512 then Inr (bufp, base, st) else Inl Undefined)"

section \<open>Scanning\<close>

text \<open>
  The variables of \<open>_doscan\<close> that live across directives, with the memory it reads the format from
  and stores into. \<open>width\<close> and the flags are set anew for every directive that uses them.
\<close>

record scan_state =
  smem :: memory
  stream :: iobuf
  args :: "u32 list"
  nitems :: int
  nrchars :: int
  conv :: int
  ic :: int

text \<open>How one directive ends: with the next one, with \<open>break\<close> out of the loop, or with \<open>return\<close>.\<close>

datatype scan_step = Next u32 scan_state | Stop scan_state | Return int scan_state

definition read_char :: "scan_state \<Rightarrow> scan_state" where
  "read_char z = (case getc (stream z) of (c, st) \<Rightarrow> z\<lparr>ic := c, stream := st, nrchars := nrchars z + 1\<rparr>)"

definition unread :: "scan_state \<Rightarrow> scan_state" where
  "unread z = (if ic z \<noteq> EOF then z\<lparr>stream := ungetc (ic z) (stream z)\<rparr> else z)"

text \<open>\<open>do ic = getc(stream); while (isspace(ic))\<close>: the count of the stream goes down every time.\<close>

function read_nonspace :: "scan_state \<Rightarrow> scan_state" where
  "read_nonspace z = (let z' = read_char z in if isspace (ic z') then read_nonspace z' else z')"
  by pat_completeness auto
termination
  by (relation "measure (\<lambda>z. nat (count (stream z)))")
    (auto simp: read_char_def getc_def fillbuf_def isspace_def Let_def split: if_splits)

declare read_nonspace.simps [simp del]

partial_function (option) skip_format :: "memory \<Rightarrow> u32 \<Rightarrow> u32 option" where
  "skip_format m format = (if isspace (sint (m format)) then skip_format m (format + 1) else Some format)"

text \<open>\<open>width = width * 10 + *format++ - '0'\<close>, unsigned.\<close>

partial_function (option) scan_width :: "memory \<Rightarrow> u32 \<Rightarrow> u32 \<Rightarrow> (u32 \<times> u32) option" where
  "scan_width m format width =
     (if isdigit (sint (m format)) then scan_width m (format + 1) (width * 10 + scast (m format) - 48)
      else Some (width, format))"

datatype scan_flags = Scan_flags (noassign: bool) (widthspec: bool) (fl_short: bool) (fl_long: bool)

text \<open>\<open>*\<close>, the width and \<open>h\<close>, \<open>l\<close> or \<open>L\<close>; \<open>format\<close> is behind the percent sign.\<close>

definition directive_flags :: "memory \<Rightarrow> u32 \<Rightarrow> (scan_flags \<times> u32 \<times> u32) option" where
  "directive_flags m format =
     (let star = (m format = 42);
          format = (if star then format + 1 else format);
          spec = isdigit (sint (m format))
      in Option.bind (if spec then scan_width m format 0 else Some (0, format)) (\<lambda>(width, format).
           let c = m format;
               format = (if c = 104 \<or> c = 108 \<or> c = 76 then format + 1 else format)
           in Some (Scan_flags star spec (c = 104) (c = 108), width, format)))"

definition take_arg :: "scan_state \<Rightarrow> (u32 \<times> scan_state) result" where
  "take_arg z = (case args z of [] \<Rightarrow> Inl Undefined | a # as \<Rightarrow> Inr (a, z\<lparr>args := as\<rparr>))"

text \<open>A value stored through the next argument, as \<open>short\<close> or as \<open>int\<close> and \<open>long\<close>.\<close>

definition store_arg :: "bool \<Rightarrow> u32 \<Rightarrow> scan_state \<Rightarrow> scan_state result" where
  "store_arg as_short v z =
     bindE (take_arg z) (\<lambda>(a, z).
       Inr (z\<lparr>smem := if as_short then store16 (smem z) a (ucast v) else store32 (smem z) a v\<rparr>))"

definition scan_count :: "scan_flags \<Rightarrow> scan_state \<Rightarrow> scan_state result" where
  "scan_count fl z = (if noassign fl then Inr z else store_arg (fl_short fl) (of_int (nrchars z)) z)"

text \<open>The integer conversions. \<open>Inl (Inr z)\<close> is the early return.\<close>

definition scan_number :: "u8 \<Rightarrow> scan_flags \<Rightarrow> u32 \<Rightarrow> scan_state \<Rightarrow> (scan_state \<times> bool) result" where
  "scan_number kind fl width z =
     (let width = (if \<not> widthspec fl \<or> width > NUMLEN then NUMLEN else width)
      in if width = 0 then Inr (z, False)
         else bindE (o_collect (ic z) (stream z) kind (unat width)) (\<lambda>(bufp, base, st).
           let z = z\<lparr>stream := st\<rparr>
           in if length bufp = 0 \<or> length bufp = 1 \<and> (bufp ! 0 = 45 \<or> bufp ! 0 = 43) then Inr (z, False)
              else
                let z = z\<lparr>nrchars := nrchars z + (int (length bufp) - 1)\<rparr>
                in if noassign fl then Inr (z, True)
                   else
                     let val = fst (if kind = 100 \<or> kind = 105 then strtol bufp base else strtoul bufp base)
                     in bindE (store_arg (\<not> fl_long fl \<and> fl_short fl) val z) (\<lambda>z. Inr (z, True))))"

text \<open>
  The loops of \<open>%c\<close>, \<open>%s\<close> and \<open>%[\<close>: characters are taken as long as \<open>ok\<close> holds of them; \<open>str\<close> is
  where the next one goes. Returns the width that is left.
\<close>

primrec take_chars :: "(int \<Rightarrow> bool) \<Rightarrow> bool \<Rightarrow> nat \<Rightarrow> u32 \<Rightarrow> scan_state \<Rightarrow> nat \<times> u32 \<times> scan_state" where
  "take_chars ok na 0 str z = (0, str, z)"
| "take_chars ok na (Suc w) str z =
     (if ic z \<noteq> EOF \<and> ok (ic z)
      then let z = (if na then z else z\<lparr>smem := (smem z)(str := of_int (ic z))\<rparr>);
               str = (if na then str else str + 1);
               z = (if w \<noteq> 0 then read_char z else z)
           in take_chars ok na w str z
      else (Suc w, str, z))"

text \<open>The end of these conversions: a character too many goes back.\<close>

definition give_back :: "nat \<Rightarrow> scan_state \<Rightarrow> scan_state" where
  "give_back width z = (if width \<noteq> 0 then (unread z)\<lparr>nrchars := nrchars z - 1\<rparr> else z)"

definition scan_chars :: "scan_flags \<Rightarrow> u32 \<Rightarrow> scan_state \<Rightarrow> (scan_state \<times> bool) result" where
  "scan_chars fl width z =
     (let width = (if widthspec fl then width else 1)
      in bindE (if noassign fl then Inr (0, z) else take_arg z) (\<lambda>(str, z).
           if width = 0 then Inr (z, False)
           else case take_chars (\<lambda>_. True) (noassign fl) (unat width) str z of
                  (w, str, z) \<Rightarrow> Inr (give_back w z, True)))"

definition scan_string :: "scan_flags \<Rightarrow> u32 \<Rightarrow> scan_state \<Rightarrow> (scan_state \<times> bool) result" where
  "scan_string fl width z =
     (let width = (if widthspec fl then width else 0xFFFF)
      in bindE (if noassign fl then Inr (0, z) else take_arg z) (\<lambda>(str, z).
           if width = 0 then Inr (z, False)
           else case take_chars (\<lambda>c. \<not> isspace c) (noassign fl) (unat width) str z of
                  (w, str, z) \<Rightarrow>
                    let z = (if noassign fl then z else z\<lparr>smem := (smem z)(str := 0)\<rparr>)
                    in Inr (give_back w z, True)))"

text \<open>
  \<open>%[\<close>: the table \<open>Xtable\<close> of the characters named, a negative index of which is out of bounds.
  \<open>format\<close> is at the first character of the set; the result is where the set ends.
\<close>

definition x_add :: "u8 \<Rightarrow> bool list \<Rightarrow> bool list result" where
  "x_add c X = (if sint c < 0 then Inl Undefined else Inr (X[unat c := True]))"

partial_function (option) scan_set :: "memory \<Rightarrow> u32 \<Rightarrow> bool list \<Rightarrow> (u32 \<times> bool list) result option" where
  "scan_set m format X =
     (if m format \<noteq> 0 \<and> m format \<noteq> 93
      then case x_add (m format) X of
             Inl e \<Rightarrow> Some (Inl e)
           | Inr X \<Rightarrow>
               let format = format + 1
               in if m format = 45
                  then let format = format + 1
                       in if m format \<noteq> 0 \<and> m format \<noteq> 93 \<and> sint (m format) \<ge> sint (m (format - 2))
                          then scan_set m (format + 1)
                                 (map (\<lambda>i. X ! i \<or> sint (m (format - 2)) + 1 \<le> int i \<and> int i \<le> sint (m format)) [0..<256])
                          else scan_set m format (X[45 := True])
                  else scan_set m format X
      else Some (Inr (format, X)))"

text \<open>The result: the state, the format pointer at the end of the set, and whether to go on.\<close>

definition scan_bracket ::
    "scan_flags \<Rightarrow> u32 \<Rightarrow> u32 \<Rightarrow> scan_state \<Rightarrow> (scan_state \<times> u32 \<times> bool) result option" where
  "scan_bracket fl width format z =
     (let width = (if widthspec fl then width else 0xFFFF)
      in if width = 0 then Some (Inr (z, format, False))
         else
           let m = smem z;
               format = format + 1;
               rev = (m format = 94);
               format = (if rev then format + 1 else format);
               X = replicate 256 False;
               (format, X) = (if m format = 93 then (format + 1, X[93 := True]) else (format, X))
           in case scan_set m format X of
                None \<Rightarrow> None
              | Some (Inl e) \<Rightarrow> Some (Inl e)
              | Some (Inr (format, X)) \<Rightarrow>
                  if m format = 0 then Some (Inr (z, format, False))
                  else if X ! nat (ic z) = rev
                  then Some (Inr (z\<lparr>stream := ungetc (ic z) (stream z)\<rparr>, format, False))
                  else Some (bindE (if noassign fl then Inr (0, z) else take_arg z) (\<lambda>(str, z).
                    case take_chars (\<lambda>c. X ! nat c \<noteq> rev) (noassign fl) (unat width) str z of
                      (w, str, z) \<Rightarrow>
                        let z = give_back w z;
                            z = (if noassign fl then z else z\<lparr>smem := (smem z)(str := 0)\<rparr>)
                        in Inr (z, format, True))))"

text \<open>\<open>return conv || (ic != EOF) ? done : EOF\<close>\<close>

definition scan_result :: "scan_state \<Rightarrow> int" where
  "scan_result z = (if conv z \<noteq> 0 \<or> ic z \<noteq> EOF then nitems z else EOF)"

text \<open>The end of a conversion: \<open>conv++\<close>, \<open>done++\<close>, \<open>format++\<close>; or the early \<open>return done\<close>.\<close>

definition end_conversion :: "scan_flags \<Rightarrow> u8 \<Rightarrow> u32 \<Rightarrow> scan_state \<times> bool \<Rightarrow> scan_step" where
  "end_conversion fl kind format r =
     (case r of (z, go) \<Rightarrow>
        if go
        then Next (format + 1)
               (z\<lparr>conv := conv z + 1, nitems := if \<not> noassign fl \<and> kind \<noteq> 110 then nitems z + 1 else nitems z\<rparr>)
        else Return (nitems z) z)"

definition scan_conversion :: "scan_flags \<Rightarrow> u32 \<Rightarrow> u32 \<Rightarrow> scan_state \<Rightarrow> scan_step result option" where
  "scan_conversion fl width format z =
     (let kind = smem z format;
          z = (if kind \<noteq> 99 \<and> kind \<noteq> 91 \<and> kind \<noteq> 110 then read_nonspace z
               else if kind \<noteq> 110 then (let z' = read_char z in if ic z' = EOF then z'\<lparr>nrchars := nrchars z\<rparr> else z')
               else z)
      in if kind \<noteq> 110 \<and> ic z = EOF then Some (Inr (Stop z))
         else if kind = 110 then Some (bindE (scan_count fl z) (\<lambda>z. Inr (end_conversion fl kind format (z, True))))
         else if kind \<in> {112, 98, 100, 105, 111, 117, 120, 88}
         then Some (bindE (scan_number kind fl width z) (\<lambda>r. Inr (end_conversion fl kind format r)))
         else if kind = 99 then Some (bindE (scan_chars fl width z) (\<lambda>r. Inr (end_conversion fl kind format r)))
         else if kind = 115 then Some (bindE (scan_string fl width z) (\<lambda>r. Inr (end_conversion fl kind format r)))
         else if kind = 91
         then map_option (\<lambda>r. bindE r (\<lambda>(z, format, go). Inr (end_conversion fl kind format (z, go))))
                (scan_bracket fl width format z)
         else Some (Inr (Return (scan_result z) z)))"

text \<open>White space in the format: any amount of it in the input.\<close>

definition scan_blanks :: "u32 \<Rightarrow> scan_state \<Rightarrow> (u32 \<times> scan_state) option" where
  "scan_blanks format z =
     (if isspace (sint (smem z format))
      then Option.bind (skip_format (smem z) format) (\<lambda>format.
             let z = unread (read_nonspace z) in Some (format, z\<lparr>nrchars := nrchars z - 1\<rparr>))
      else Some (format, z))"

text \<open>One turn of the loop.\<close>

definition scan_directive :: "u32 \<Rightarrow> scan_state \<Rightarrow> scan_step result option" where
  "scan_directive format z =
     Option.bind (scan_blanks format z) (\<lambda>(format, z).
       let m = smem z
       in if m format = 0 then Some (Inr (Stop z))
          else if m format \<noteq> 37
          then let z = read_char z
               in if ic z \<noteq> sint (m format) then Some (Inr (Stop z)) else Some (Inr (Next (format + 1) z))
          else
            let format = format + 1
            in if m format = 37
               then let z = read_char z
                    in if ic z = 37 then Some (Inr (Next (format + 1) z)) else Some (Inr (Stop z))
               else Option.bind (directive_flags m format) (\<lambda>(fl, width, format).
                      scan_conversion fl width format z))"

partial_function (option) doscan_loop :: "u32 \<Rightarrow> scan_state \<Rightarrow> (int \<times> scan_state) result option" where
  "doscan_loop format z =
     (case scan_directive format z of
        None \<Rightarrow> None
      | Some (Inl e) \<Rightarrow> Some (Inl e)
      | Some (Inr (Next format z)) \<Rightarrow> doscan_loop format z
      | Some (Inr (Stop z)) \<Rightarrow> Some (Inr (scan_result z, z))
      | Some (Inr (Return r z)) \<Rightarrow> Some (Inr (r, z)))"

definition doscan :: "iobuf \<Rightarrow> u32 \<Rightarrow> u32 list \<Rightarrow> memory \<Rightarrow> (int \<times> scan_state) result option" where
  "doscan x format ap m =
     (let z = \<lparr>smem = m, stream = x, args = ap, nitems = 0, nrchars = 0, conv = 0, ic = EOF\<rparr>
      in if m format = 0 then Some (Inr (0, z)) else doscan_loop format z)"

section \<open>scanf\<close>

text \<open>
  The busy loop that waits for the end of the line: \<open>interrupt\<close> is what happens to the state between
  two looks at it. It does not return when no interrupt ever puts a line end there.
\<close>

partial_function (option) wait_line ::
    "('a kbd_state_scheme \<Rightarrow> 'a kbd_state_scheme result) \<Rightarrow> u32 \<Rightarrow> 'a kbd_state_scheme \<Rightarrow> 'a kbd_state_scheme result option" where
  "wait_line interrupt lit s =
     (if getLast lit (line s) \<noteq> 10
      then case interrupt s of Inl e \<Rightarrow> Some (Inl e) | Inr s \<Rightarrow> wait_line interrupt lit s
      else Some (Inr s))"

definition line_stream :: "line_buffer \<Rightarrow> iobuf" where
  "line_stream b = \<lparr>count = int (length (getline b)), io_flags = 0x01 + 0x04 + 0x80, buf = temp b, ptr = 0\<rparr>"

text \<open>
  \<open>scanf\<close> prints the line it got and scans it. The result of the scan is dropped; the line keeps
  what \<open>ungetc\<close> may have written.
\<close>

definition scanf ::
    "('a kbd_state_scheme \<Rightarrow> 'a kbd_state_scheme result) \<Rightarrow> u32 \<Rightarrow> u32 \<Rightarrow> u32 list \<Rightarrow> 'a kbd_state_scheme \<Rightarrow>
       'a kbd_state_scheme result option" where
  "scanf interrupt lit format ap s =
     bindO (wait_line interrupt lit (s\<lparr>line := init_buffer (line s)\<rparr>)) (\<lambda>s.
       let s = puts_color 0 15 (getline (line s)) s
       in bindO (doscan (line_stream (line s)) format ap (mem s)) (\<lambda>(r, z).
            Some (Inr (s\<lparr>mem := smem z, line := (line s)\<lparr>temp := buf (stream z)\<rparr>\<rparr>))))"

end
