(* ===== verification/Scan_Correct.thy ===== *)
theory Scan_Correct
  imports Scan
begin

text \<open>
  What formatted input computes: \<open>strtol\<close> and \<open>strtoul\<close> on decimal numerals, the stream seen as the
  text it still holds, \<open>_doscan\<close> on \<open>%d\<close> as the inverse of what \<open>printf\<close> writes for it, and \<open>scanf\<close>
  from the keys typed to the number stored.
\<close>

section \<open>What the conversion computes\<close>

definition dec_char :: "nat \<Rightarrow> u8" where
  "dec_char d = of_nat (48 + d)"

definition not_digit_next :: "u8 list \<Rightarrow> bool" where
  "not_digit_next s \<longleftrightarrow> s = [] \<or> \<not> isdigit (sint (hd s))"

lemma sint_dec_char: "d < 10 \<Longrightarrow> sint (dec_char d) = 48 + int d"
proof -
  assume "d < 10"
  then have "d \<in> {0, 1, 2, 3, 4, 5, 6, 7, 8, 9}" by auto
  then show ?thesis by (auto simp: dec_char_def)
qed

lemma long_loop_stop: "not_digit_next s \<Longrightarrow> long_loop 10 val ovfl s = (val, ovfl, s)"
proof (cases s)
  case (Cons c t)
  assume "not_digit_next s"
  then have nd: "\<not> (48 \<le> sint c \<and> sint c \<le> 57)" using Cons by (simp add: not_digit_next_def isdigit_def)
  have big: "10 \<le> (of_int k :: u32)" if "10 \<le> k" "k \<le> 35" for k :: int
  proof -
    have "uint (of_int k :: u32) = k" using that by (simp add: uint_word_of_int)
    then show ?thesis using that by (simp add: word_le_def)
  qed
  show ?thesis
  proof (cases "digit_value (sint c)")
    case (Some v)
    then have "10 \<le> v" using nd big [of "sint c - 97 + 10"] big [of "sint c - 65 + 10"]
      by (auto simp: digit_value_def split: if_splits)
    then show ?thesis using Some Cons by simp
  qed (simp add: Cons)
qed simp

lemma long_loop_digits:
  "\<forall>d \<in> set ds. d < 10 \<Longrightarrow> not_digit_next s \<Longrightarrow>
     \<exists>ov. long_loop 10 val ovfl (map dec_char ds @ s) =
        (of_nat (unat val * 10 ^ length ds + base_value 10 ds), ov, s) \<and>
     (ov = 0 \<longleftrightarrow> ovfl = 0 \<and> (ds = [] \<or> unat val * 10 ^ length ds + base_value 10 ds < 2 ^ 32))"
proof (induction ds arbitrary: val ovfl)
  case Nil
  then show ?case by (simp add: long_loop_stop)
next
  case (Cons d ds)
  let ?v = "of_nat d :: u32"
  have d: "d < 10" using Cons.prems(1) by simp
  have dv: "digit_value (sint (dec_char d)) = Some ?v"
    using d by (simp add: sint_dec_char digit_value_def)
  have uv: "unat ?v = d" using d by (simp add: unat_of_nat)
  have nb: "\<not> ?v \<ge> 10" using d uv by (simp add: word_le_nat_alt)
  have chk: "val > (0xFFFFFFFF - ?v) div 10 \<longleftrightarrow> \<not> unat val * 10 + d < 2 ^ 32"
  proof -
    have "?v \<le> 0xFFFFFFFF" using uv d by (simp add: word_le_nat_alt)
    then have "unat (0xFFFFFFFF - ?v) = 4294967295 - d" using uv by (simp add: unat_sub)
    then have "val > (0xFFFFFFFF - ?v) div 10 \<longleftrightarrow> (4294967295 - d) div 10 < unat val"
      by (simp add: word_less_nat_alt unat_div)
    also have "\<dots> \<longleftrightarrow> \<not> unat val * 10 + d < 2 ^ 32" using d by (simp add: div_less_iff_less_mult) linarith
    finally show ?thesis .
  qed
  let ?o = "if val > (0xFFFFFFFF - ?v) div 10 then ovfl + 1 else ovfl"
  obtain ov where ov: "long_loop 10 (val * 10 + ?v) ?o (map dec_char ds @ s) =
      (of_nat (unat (val * 10 + ?v) * 10 ^ length ds + base_value 10 ds), ov, s)"
      "ov = 0 \<longleftrightarrow> ?o = 0 \<and> (ds = [] \<or> unat (val * 10 + ?v) * 10 ^ length ds + base_value 10 ds < 2 ^ 32)"
    using Cons.IH [of "val * 10 + ?v" ?o] Cons.prems by auto
  have val: "(of_nat (unat (val * 10 + ?v) * 10 ^ length ds + base_value 10 ds) :: u32) =
      of_nat (unat val * 10 ^ length (d # ds) + base_value 10 (d # ds))"
    by (simp add: base_value_Cons algebra_simps)
  have tot: "unat val * 10 ^ length (d # ds) + base_value 10 (d # ds) = (unat val * 10 + d) * 10 ^ length ds + base_value 10 ds"
    by (simp add: base_value_Cons algebra_simps)
  have "ov = 0 \<longleftrightarrow> ovfl = 0 \<and> unat val * 10 ^ length (d # ds) + base_value 10 (d # ds) < 2 ^ 32"
  proof (cases "unat val * 10 + d < 2 ^ 32")
    case True
    then have u: "unat (val * 10 + ?v) = unat val * 10 + d" using uv by (simp add: unat_word_ariths)
    have "ds = [] \<Longrightarrow> (unat val * 10 + d) * 10 ^ length ds + base_value 10 ds < 2 ^ 32" using True by simp
    then show ?thesis unfolding ov(2) tot u using True chk by auto
  next
    case False
    have "unat val * 10 + d \<le> (unat val * 10 + d) * 10 ^ length ds" by simp
    then have "\<not> (unat val * 10 + d) * 10 ^ length ds + base_value 10 ds < 2 ^ 32" using False by linarith
    then show ?thesis unfolding ov(2) tot using False chk by auto
  qed
  then show ?case using ov(1) dv nb unfolding val by (intro exI [of _ ov]) (simp del: base_value_Cons)
qed

text \<open>The sign characters, and the number that a numeral with that sign stands for.\<close>

definition signed_value :: "u8 list \<Rightarrow> nat list \<Rightarrow> int" where
  "signed_value sg ds = (if sg = [45] then - int (base_value 10 ds) else int (base_value 10 ds))"

lemma string2long_numeral:
  assumes "\<forall>c \<in> set bl. isspace (sint c)" "sg \<in> {[], [43], [45]}" "ds \<noteq> []" "\<forall>d \<in> set ds. d < 10" "not_digit_next s"
  shows "string2long (bl @ sg @ map dec_char ds @ s) 10 is_signed =
    (let V = base_value 10 ds; neg = (sg = [45])
     in if 2 ^ 32 \<le> V \<or> is_signed \<and> (if neg then 2 ^ 31 < V else 2 ^ 31 \<le> V)
        then (if is_signed then if neg then 0x80000000 else 0x7FFFFFFF else 0xFFFFFFFF)
        else if neg then - of_nat V else of_nat V, s)"
proof -
  obtain d ds' where ds: "ds = d # ds'" using assms(3) by (cases ds) auto
  have d: "d < 10" using assms(4) ds by simp
  let ?num = "map dec_char ds @ s"
  have h: "head_char ?num = 48 + int d" using d by (simp add: ds head_char_def sint_dec_char)
  have sgh: "head_char (sg @ ?num) = (if sg = [45] then 45 else if sg = [43] then 43 else 48 + int d)"
    using assms(2) h by (auto simp: head_char_def)
  have notsp: "\<not> isspace (sint (hd (sg @ ?num)))" "sg @ ?num \<noteq> []"
    using assms(2) d by (auto simp: ds isspace_def sint_dec_char)
  have drop: "dropWhile (\<lambda>c. isspace (sint c)) (bl @ sg @ ?num) = sg @ ?num"
  proof -
    have "dropWhile (\<lambda>c. isspace (sint c)) xs = xs" if "\<not> isspace (sint (hd xs))" "xs \<noteq> []" for xs
      using that by (cases xs) auto
    from this [OF notsp] show ?thesis using assms(1) by simp
  qed
  obtain ov where ov: "long_loop 10 0 0 ?num = (of_nat (base_value 10 ds), ov, s)"
      "ov = 0 \<longleftrightarrow> base_value 10 ds < 2 ^ 32"
    using long_loop_digits [OF assms(4,5), of 0 0] assms(3) by auto
  have lb: "long_base 10 ?num = (10, ?num)" by (simp add: long_base_def)
  have len: "length ?num \<noteq> length s" using ds by simp
  have tl: "(if sg = [45] \<or> sg = [43] then tl (sg @ ?num) else sg @ ?num) = ?num"
    using assms(2) by auto
  have neg: "head_char (sg @ ?num) = 45 \<longleftrightarrow> sg = [45]" "head_char (sg @ ?num) = 43 \<longleftrightarrow> sg = [43]"
    unfolding sgh using d by auto
  define V where "V = base_value 10 ds"
  have cmp: "(of_nat V > (0x80000000 :: u32)) = (2 ^ 31 < V)" "(of_nat V > (0x7FFFFFFF :: u32)) = (2 ^ 31 \<le> V)" if "V < 2 ^ 32"
    using that by (auto simp: word_less_nat_alt unat_of_nat)
  show ?thesis
    unfolding string2long_def drop Let_def tl neg lb prod.case ov(1) V_def [symmetric]
    using ov(2) cmp len by (auto simp: V_def [symmetric])
qed

text \<open>C34: \<open>strtol\<close> and \<open>strtoul\<close> in base 10: blanks, a sign and a numeral give the number it stands
  for, with the rest of the string as end pointer; a number outside the range of the result type
  is cut to the nearest end of the range (for \<open>strtoul\<close> to the top, whatever the sign).\<close>

theorem strtol_saturates:
  assumes "\<forall>c \<in> set bl. isspace (sint c)" "sg \<in> {[], [43], [45]}" "ds \<noteq> []" "\<forall>d \<in> set ds. d < 10" "not_digit_next s"
  shows "sint (fst (strtol (bl @ sg @ map dec_char ds @ s) 10)) = max (- (2 ^ 31)) (min (2 ^ 31 - 1) (signed_value sg ds)) \<and>
    snd (strtol (bl @ sg @ map dec_char ds @ s) 10) = s \<and>
    strtoul (bl @ sg @ map dec_char ds @ s) 10 =
      (if base_value 10 ds < 2 ^ 32 then of_int (signed_value sg ds) else 0xFFFFFFFF, s)"
proof -
  define V where "V = base_value 10 ds"
  note num = string2long_numeral [OF assms, unfolded Let_def V_def [symmetric]]
  have ul: "strtoul (bl @ sg @ map dec_char ds @ s) 10 = (if V < 2 ^ 32 then of_int (signed_value sg ds) else 0xFFFFFFFF, s)"
    by (simp add: strtoul_def num signed_value_def V_def [symmetric])
  have pos: "sint (of_nat V :: u32) = int V" if "V < 2 ^ 31"
    using that by (simp add: sint32 unat_of_nat)
  have neg: "sint (- of_nat V :: u32) = - int V" if "V \<le> 2 ^ 31"
  proof (cases "V = 0")
    case False
    have "unat (- of_nat V :: u32) = 2 ^ 32 - V"
      using that False unat_sub_if' [of "0 :: u32" "of_nat V"] by (simp add: unat_of_nat)
    moreover have "\<not> 4294967296 - V < 2147483648" using that by simp
    ultimately show ?thesis using that by (simp add: sint32 of_nat_diff)
  qed simp
  have "sint (fst (strtol (bl @ sg @ map dec_char ds @ s) 10)) = max (- (2 ^ 31)) (min (2 ^ 31 - 1) (signed_value sg ds))"
    using pos neg by (auto simp: strtol_def num signed_value_def V_def [symmetric] sint32)
  then show ?thesis using ul by (simp add: strtol_def num V_def)
qed


lemma sint_abs32: "\<bar>sint (n :: u32)\<bar> \<le> 2 ^ 31" "0 \<le> sint n \<Longrightarrow> \<bar>sint n\<bar> < 2 ^ 31"
  using sint_greater_eq [of n] sint_less [of n] by auto

lemma decimal_numeral:
  obtains sg ds where "decimal n = sg @ map dec_char ds" "sg \<in> {[], [45]}" "ds \<noteq> []" "\<forall>d \<in> set ds. d < 10"
    "length ds \<le> 10" "base_value 10 ds = nat \<bar>sint n\<bar>" "sg = [45] \<longleftrightarrow> sint n < 0"
proof
  let ?V = "nat \<bar>sint n\<bar>"
  have "\<bar>sint n\<bar> \<le> 2 ^ 31" using sint_abs32 by blast
  then have "?V < 10 ^ 10" by simp
  then show "length (digits_of 10 ?V) \<le> 10" by (intro digits_of_facts(5)) simp_all
  show "decimal n = (if sint n < 0 then [45] else []) @ map dec_char (digits_of 10 ?V)"
    by (simp add: decimal_def dec_char_def)
qed (use digits_of_facts [of 10 "nat \<bar>sint n\<bar>"] in auto)

lemma strtol_decimal: "strtol (decimal n) 10 = (n, [])"
proof -
  obtain sg ds where d: "decimal n = sg @ map dec_char ds" "sg \<in> {[], [45]}" "ds \<noteq> []" "\<forall>d \<in> set ds. d < 10"
      "base_value 10 ds = nat \<bar>sint n\<bar>" "sg = [45] \<longleftrightarrow> sint n < 0"
    by (rule decimal_numeral [of n])
  have lt: "nat \<bar>sint n\<bar> < 2 ^ 32" "sint n < 0 \<Longrightarrow> nat \<bar>sint n\<bar> \<le> 2 ^ 31" "\<not> sint n < 0 \<Longrightarrow> nat \<bar>sint n\<bar> < 2 ^ 31"
    using sint_abs32 [of n] by auto
  have val: "(if sint n < 0 then - of_nat (nat \<bar>sint n\<bar>) else of_nat (nat \<bar>sint n\<bar>)) = n"
  proof -
    have "(if sint n < 0 then - of_nat (nat \<bar>sint n\<bar>) else of_nat (nat \<bar>sint n\<bar>)) = (of_int (sint n) :: u32)"
      by (simp add: of_nat_nat)
    then show ?thesis by simp
  qed
  have "string2long ([] @ sg @ map dec_char ds @ []) 10 True = (n, [])"
    using string2long_numeral [of "[]" sg ds "[]" True] d lt val by (auto simp: not_digit_next_def Let_def not_le)
  then show ?thesis by (simp add: strtol_def d(1))
qed

section \<open>Streams\<close>

text \<open>The stream still holds the text \<open>cs\<close>.\<close>

definition stream_holds :: "iobuf \<Rightarrow> u8 list \<Rightarrow> bool" where
  "stream_holds st cs \<longleftrightarrow> io_flags st AND 0x80 \<noteq> 0 \<and> count st = int (length cs) \<and>
     (\<forall>i < length cs. buf st (ptr st + i) = cs ! i)"

text \<open>\<open>c\<close> is the character read last and the first of the text \<open>xs\<close>, of which the stream holds the rest.\<close>

fun current :: "int \<Rightarrow> iobuf \<Rightarrow> u8 list \<Rightarrow> bool" where
  "current c st [] \<longleftrightarrow> c = EOF"
| "current c st (x # r) \<longleftrightarrow> c = uint x \<and> stream_holds st r \<and> 0 < ptr st"

lemma uint_not_EOF [simp]: "uint (x :: u8) \<noteq> -1"
  using uint_ge_0 [of x] by linarith

lemma getc_current: "stream_holds st xs \<Longrightarrow> getc st = (c, st') \<Longrightarrow> current c st' xs"
proof (cases xs)
  case (Cons x r)
  assume h: "stream_holds st xs" and g: "getc st = (c, st')"
  have "c = uint x" "st' = st\<lparr>count := count st - 1, ptr := ptr st + 1\<rparr>"
    using h g Cons by (force simp: stream_holds_def getc_def Let_def)+
  moreover have "buf st (Suc (ptr st + i)) = r ! i" if "i < length r" for i
    using h that Cons by (auto simp: stream_holds_def dest!: spec [of _ "Suc i"])
  ultimately show ?thesis using h Cons by (simp add: stream_holds_def)
qed (auto simp: stream_holds_def getc_def fillbuf_def Let_def)

lemma ungetc_current: "current c st (x # r) \<Longrightarrow> stream_holds (ungetc c st) (x # r)"
  by (auto simp: stream_holds_def ungetc_def Let_def nth_Cons split: nat.splits)

text \<open>\<open>ungetc\<close> undoes \<open>getc\<close>: giving back the character just read leaves the stream as it was,
  and what was not read cannot be given back.\<close>

theorem ungetc_getc:
  assumes "getc st = (c, st')" "io_flags st AND 0x80 \<noteq> 0"
  shows "ungetc c st' = (if c \<noteq> EOF then st else st')"
  using assms by (auto simp: getc_def ungetc_def fillbuf_def Let_def split: if_splits)

lemma read_char_current:
  "stream_holds (stream z) xs \<Longrightarrow> current (ic (read_char z)) (stream (read_char z)) xs"
  using getc_current by (cases "getc (stream z)") (auto simp: read_char_def)

lemma read_char_same [simp]:
  "smem (read_char z) = smem z" "args (read_char z) = args z" "nitems (read_char z) = nitems z" "conv (read_char z) = conv z"
  by (simp_all add: read_char_def split: prod.split)


lemma read_nonspace_current:
  "stream_holds (stream z) (bl @ xs) \<Longrightarrow> \<forall>c \<in> set bl. isspace (uint c) \<Longrightarrow> xs = [] \<or> \<not> isspace (uint (hd xs)) \<Longrightarrow>
     current (ic (read_nonspace z)) (stream (read_nonspace z)) xs \<and> smem (read_nonspace z) = smem z \<and>
     args (read_nonspace z) = args z \<and> nitems (read_nonspace z) = nitems z \<and> conv (read_nonspace z) = conv z"
proof (induction bl arbitrary: z)
  case Nil
  from read_char_current [OF Nil(1)] have c: "current (ic (read_char z)) (stream (read_char z)) xs" by simp
  then have "\<not> isspace (ic (read_char z))" using Nil(3) by (cases xs) (auto simp: isspace_def)
  then show ?case using c by (subst (1 2 3 4 5 6) read_nonspace.simps) (simp add: Let_def)
next
  case (Cons b bl)
  from read_char_current [OF Cons.prems(1)] have c: "ic (read_char z) = uint b" "stream_holds (stream (read_char z)) (bl @ xs)"
    by simp_all
  have "read_nonspace z = read_nonspace (read_char z)"
    using c(1) Cons.prems(2) by (subst read_nonspace.simps) (simp add: Let_def)
  then show ?case using Cons.IH [OF c(2)] Cons.prems by simp
qed

section \<open>Scanning a number\<close>

lemma uint_dec_char: "d < 10 \<Longrightarrow> uint (dec_char d) = 48 + int d"
proof -
  assume "d < 10"
  then have "d \<in> {0, 1, 2, 3, 4, 5, 6, 7, 8, 9}" by auto
  then show ?thesis by (auto simp: dec_char_def)
qed

lemma push_char_current:
  assumes "current c st (x # r)" "1 < w"
  obtains c' st' where "push_char (w, c, st, b) = (w - 1, c', st', b @ [x])" "current c' st' r"
  using assms getc_current [of st r] by (cases "getc st") (auto simp: push_char_def Let_def)

lemma collect_digits_current:
  "\<forall>d \<in> set ds. d < 10 \<Longrightarrow> current c st (map dec_char ds @ xs) \<Longrightarrow> xs = [] \<or> \<not> isdigit (uint (hd xs)) \<Longrightarrow>
     length ds < w \<Longrightarrow> w \<le> n \<Longrightarrow>
     \<exists>c' st'. collect_digits 10 n (w, c, st, b) = (w - length ds, c', st', b @ map dec_char ds) \<and> current c' st' xs"
proof (induction ds arbitrary: c st w n b)
  case Nil
  then obtain k where n: "n = Suc k" by (cases n) auto
  have "\<not> good_digit 10 c" using Nil by (cases xs) (auto simp: good_digit_def isdigit_def)
  then show ?case using Nil n by simp
next
  case (Cons d ds)
  then obtain k where n: "n = Suc k" by (cases n) auto
  have d: "d < 10" using Cons.prems(1) by simp
  have "c = uint (dec_char d)" using Cons.prems(2) by simp
  then have g: "good_digit 10 c" using d by (simp add: uint_dec_char good_digit_def isdigit_def)
  have "1 < w" using Cons.prems(4) by simp
  with Cons.prems(2) obtain c1 st1 where p: "push_char (w, c, st, b) = (w - 1, c1, st1, b @ [dec_char d])"
      "current c1 st1 (map dec_char ds @ xs)"
    using push_char_current [of c st "dec_char d" "map dec_char ds @ xs" w b] by auto
  obtain c' st' where "collect_digits 10 k (w - 1, c1, st1, b @ [dec_char d]) =
      (w - 1 - length ds, c', st', (b @ [dec_char d]) @ map dec_char ds)" "current c' st' xs"
  proof -
    have "\<forall>d \<in> set ds. d < 10" "length ds < w - 1" "w - 1 \<le> k" using Cons.prems n by auto
    from Cons.IH [OF this(1) p(2) Cons.prems(3) this(2,3), of "b @ [dec_char d]"] show thesis using that by blast
  qed
  moreover have "collect_digits 10 n (w, c, st, b) = collect_digits 10 k (w - 1, c1, st1, b @ [dec_char d])"
    using n g p(1) Cons.prems(4) by simp
  moreover have "w - 1 - length ds = w - length (d # ds)" by simp
  ultimately show ?case by (intro exI [of _ c'] exI [of _ st']) simp
qed


lemma o_collect_decimal:
  assumes "current c st (decimal n @ xs)" "xs = [] \<or> \<not> isdigit (uint (hd xs))"
  shows "\<exists>st'. o_collect c st 100 512 = Inr (decimal n, 10, st') \<and> (xs \<noteq> [] \<longrightarrow> stream_holds st' xs)"
proof -
  obtain sg ds where d: "decimal n = sg @ map dec_char ds" "sg \<in> {[], [45]}" "ds \<noteq> []" "\<forall>d \<in> set ds. d < 10"
      "length ds \<le> 10"
    by (rule decimal_numeral [of n])
  obtain e es where ds: "ds = e # es" using d(3) by (cases ds) auto
  have e: "e < 10" using d(4) ds by simp
  have "\<exists>w c1 st1. (if c = 45 \<or> c = 43 then push_char (512, c, st, []) else (512, c, st, [])) = (w, c1, st1, sg) \<and>
      current c1 st1 (map dec_char ds @ xs) \<and> 511 \<le> w \<and> w \<le> 512"
  proof (cases "sg = []")
    case True
    have "c = 48 + int e" using assms(1) d(1) True ds e by (simp add: uint_dec_char)
    then have "\<not> (c = 45 \<or> c = 43)" by simp
    then show ?thesis using assms(1) d(1) True by simp
  next
    case False
    then have sg: "sg = [45]" using d(2) by simp
    then have c: "c = 45" using assms(1) d(1) by simp
    have "current c st (45 # map dec_char ds @ xs)" using assms(1) d(1) sg by simp
    from push_char_current [OF this, of 512 "[]"] show ?thesis using c sg by fastforce
  qed
  then obtain w c1 st1 where p: "(if c = 45 \<or> c = 43 then push_char (512, c, st, []) else (512, c, st, [])) = (w, c1, st1, sg)"
      "current c1 st1 (map dec_char ds @ xs)" "511 \<le> w" "w \<le> 512" by blast
  have "length ds < w" using d(5) p(3) by simp
  from collect_digits_current [OF d(4) p(2) assms(2) this order_refl, of sg]
  obtain c2 st2 where q: "collect_digits 10 w (w, c1, st1, sg) = (w - length ds, c2, st2, decimal n)" "current c2 st2 xs"
    by (auto simp: d(1))
  have w: "w - length ds \<noteq> 0" using d(5) p(3) by simp
  let ?st = "if c2 \<noteq> EOF then ungetc c2 st2 else st2"
  have len: "length (decimal n) < 512" using d(1,2,5) by auto
  have "o_collect c st 100 512 = Inr (decimal n, 10, ?st)"
    unfolding o_collect_def Let_def p(1) using q(1) w len by (simp add: o_base_def)
  moreover have "stream_holds ?st xs" if "xs \<noteq> []"
    using q(2) that ungetc_current [of c2 st2] by (cases xs) auto
  ultimately show ?thesis by blast
qed


lemma decimal_first:
  obtains x r where "decimal n = x # r" "\<not> isspace (uint x)" "2 \<le> length (decimal n) \<or> \<not> (x = 45 \<or> x = 43)"
proof -
  obtain sg ds where d: "decimal n = sg @ map dec_char ds" "sg \<in> {[], [45]}" "ds \<noteq> []" "\<forall>d \<in> set ds. d < 10"
    by (rule decimal_numeral [of n])
  obtain e es where ds: "ds = e # es" using d(3) by (cases ds) auto
  have e: "uint (dec_char e) = 48 + int e" using d(4) ds by (simp add: uint_dec_char)
  then have "dec_char e \<noteq> 45" "dec_char e \<noteq> 43" by auto
  then show thesis using d(1,2) ds e that by (auto simp: isspace_def)
qed

lemma scan_number_decimal:
  assumes "current (ic z) (stream z) (decimal n @ xs)" "xs = [] \<or> \<not> isdigit (uint (hd xs))" "args z = a # as"
  shows "\<exists>z'. scan_number 100 (Scan_flags False False False False) 0 z = Inr (z', True) \<and>
    smem z' = store32 (smem z) a n \<and> args z' = as \<and> nitems z' = nitems z \<and> (xs \<noteq> [] \<longrightarrow> stream_holds (stream z') xs) \<and>
    conv z' = conv z \<and> ic z' = ic z"
proof -
  obtain st' where o: "o_collect (ic z) (stream z) 100 512 = Inr (decimal n, 10, st')" "xs \<noteq> [] \<longrightarrow> stream_holds st' xs"
    using o_collect_decimal [OF assms(1,2)] by blast
  obtain x r where x: "decimal n = x # r" "2 \<le> length (decimal n) \<or> \<not> (x = 45 \<or> x = 43)"
    by (rule decimal_first [of n])
  have "\<not> (length (decimal n) = 0 \<or> length (decimal n) = 1 \<and> (decimal n ! 0 = 45 \<or> decimal n ! 0 = 43))"
    using x by auto
  then show ?thesis using assms(3) o strtol_decimal [of n]
    by (simp add: scan_number_def Let_def store_arg_def take_arg_def del: One_nat_def)
qed

lemma directive_flags_plain:
  "m p = 100 \<Longrightarrow> directive_flags m p = Some (Scan_flags False False False False, 0, p)"
  by (simp add: directive_flags_def isdigit_def Let_def)

lemma scan_directive_decimal:
  assumes "text_at (smem z) f [37, 100]" "args z = a # as" "stream_holds (stream z) (bl @ decimal n @ xs)"
    and "\<forall>c \<in> set bl. isspace (uint c)" "xs = [] \<or> \<not> isdigit (uint (hd xs))"
  shows "\<exists>z'. scan_directive f z = Some (Inr (Next (f + 2) z')) \<and>
    smem z' = store32 (smem z) a n \<and> args z' = as \<and> nitems z' = nitems z + 1 \<and> (xs \<noteq> [] \<longrightarrow> stream_holds (stream z') xs) \<and>
    conv z' = conv z + 1 \<and> ic z' \<noteq> EOF"
proof -
  obtain x r where x: "decimal n = x # r" "\<not> isspace (uint x)" by (rule decimal_first [of n])
  let ?z = "read_nonspace z"
  have cur: "current (ic ?z) (stream ?z) (decimal n @ xs)" and same: "smem ?z = smem z" "args ?z = args z"
      "nitems ?z = nitems z" "conv ?z = conv z"
    using read_nonspace_current [OF assms(3,4)] x by auto
  have ic: "ic ?z \<noteq> EOF" using cur x(1) by auto
  obtain z' where z': "scan_number 100 (Scan_flags False False False False) 0 ?z = Inr (z', True)"
      "smem z' = store32 (smem z) a n" "args z' = as" "nitems z' = nitems z" "xs \<noteq> [] \<longrightarrow> stream_holds (stream z') xs"
      "conv z' = conv z" "ic z' = ic ?z"
    using scan_number_decimal [OF cur assms(5), of a as] assms(2) by (auto simp: same)
  have "scan_conversion (Scan_flags False False False False) 0 (f + 1) z =
      Some (Inr (Next (f + 1 + 1) (z'\<lparr>conv := conv z' + 1, nitems := nitems z' + 1\<rparr>)))"
    using assms(1) ic z'(1) by (simp add: scan_conversion_def Let_def end_conversion_def)
  moreover have "scan_directive f z = scan_conversion (Scan_flags False False False False) 0 (f + 1) z"
    using assms(1) by (simp add: scan_directive_def scan_blanks_def isspace_def directive_flags_plain Let_def)
  ultimately show ?thesis using z' ic by (simp add: add.assoc)
qed

lemma doscan_number:
  assumes "text_at m f [37, 100, 0]" "stream_holds st (bl @ decimal n @ xs)" "\<forall>c \<in> set bl. isspace (uint c)"
    and "xs = [] \<or> \<not> isdigit (uint (hd xs))" "sep a 4 f 3"
  shows "\<exists>z. doscan st f (a # ap) m = Some (Inr (1, z)) \<and> smem z = store32 m a n \<and>
    (xs \<noteq> [] \<longrightarrow> stream_holds (stream z) xs)"
proof -
  let ?z = "\<lparr>smem = m, stream = st, args = a # ap, nitems = 0, nrchars = 0, conv = 0, ic = EOF\<rparr>"
  obtain z' where z': "scan_directive f ?z = Some (Inr (Next (f + 2) z'))" "smem z' = store32 m a n" "args z' = ap"
      "nitems z' = 1" "xs \<noteq> [] \<longrightarrow> stream_holds (stream z') xs" "conv z' = 1" "ic z' \<noteq> EOF"
    using scan_directive_decimal [of ?z f a ap bl n xs] assms(1-4) by auto
  have "\<not> in_range a 4 (f + 2)" using sep_in_range [OF assms(5), of "f + 2"] by (auto simp: in_range_def)
  then have "smem z' (f + 2) = 0" using assms(1) by (simp add: z'(2) store32_other add.assoc)
  then have "scan_directive (f + 2) z' = Some (Inr (Stop z'))"
    by (simp add: scan_directive_def scan_blanks_def isspace_def Let_def)
  then have "doscan_loop f ?z = Some (Inr (1, z'))"
    using z' by (simp add: doscan_loop.simps [of f] doscan_loop.simps [of "f + 2"] scan_result_def)
  moreover have "m f \<noteq> 0" using assms(1) by simp
  ultimately have "doscan st f (a # ap) m = Some (Inr (1, z'))" by (simp add: doscan_def)
  then show ?thesis using z' by blast
qed

text \<open>C11: \<open>_doscan\<close> with the format \<open>%d\<close> stores the number that the input starts with, blanks in
  front of it skipped, and counts one item: it reads back what \<open>printf\<close> writes for \<open>%d\<close>, for every
  \<open>int\<close>, and the text behind the number stays in the stream.\<close>

theorem doscan_decimal:
  assumes "text_at m f [37, 100, 0]" "stream_holds st (bl @ decimal n @ xs)" "\<forall>c \<in> set bl. isspace (uint c)"
    and "xs = [] \<or> \<not> isdigit (uint (hd xs))" "sep a 4 f 3"
  shows "\<exists>z. doscan st f (a # ap) m = Some (Inr (1, z)) \<and> smem z = store32 m a n \<and>
    (xs \<noteq> [] \<longrightarrow> stream_holds (stream z) xs)"
  by (rule doscan_number [OF assms])

section \<open>Scanning a word\<close>

text \<open>Bytes stored one behind the other.\<close>

primrec put_text :: "memory \<Rightarrow> u32 \<Rightarrow> u8 list \<Rightarrow> memory" where
  "put_text m a [] = m"
| "put_text m a (c # cs) = put_text (m(a := c)) (a + 1) cs"

lemma put_text_append: "put_text m a (xs @ ys) = put_text (put_text m a xs) (a + of_nat (length xs)) ys"
  by (induction xs arbitrary: m a) (simp_all add: algebra_simps)

lemma put_text_other: "\<not> in_range a (length cs) x \<Longrightarrow> length cs < 2 ^ 32 \<Longrightarrow> put_text m a cs x = m x"
proof (induction cs arbitrary: m a)
  case (Cons c cs)
  have "x \<noteq> a" "\<not> in_range (a + 1) (length cs) x"
    using Cons.prems in_range_Suc [of "length cs" a x] by auto
  then show ?case using Cons by simp
qed simp

lemma put_text_at: "length cs < 2 ^ 32 \<Longrightarrow> i < length cs \<Longrightarrow> put_text m a cs (a + of_nat i) = cs ! i"
proof (induction cs arbitrary: m a i)
  case (Cons c cs)
  show ?case
  proof (cases i)
    case 0
    have "\<not> in_range (a + 1) (length cs) a" using Cons.prems(1) by simp
    then show ?thesis using 0 Cons.prems put_text_other [of "a + 1" cs a] by simp
  next
    case (Suc j)
    have "put_text (m(a := c)) (a + 1) cs (a + 1 + of_nat j) = cs ! j"
      by (rule Cons.IH) (use Suc Cons.prems in simp_all)
    then show ?thesis using Suc by (simp add: algebra_simps fun_upd_def)
  qed
qed simp

lemma cstr_iff_nth: "0 \<notin> set cs \<Longrightarrow> (\<And>i. i < length cs \<Longrightarrow> m (a + of_nat i) = cs ! i) \<Longrightarrow> m (a + of_nat (length cs)) = 0 \<Longrightarrow> cstr m a cs"
proof (induction cs arbitrary: a)
  case (Cons c cs)
  have "cstr m (a + 1) cs"
  proof (rule Cons.IH)
    show "m (a + 1 + of_nat i) = cs ! i" if "i < length cs" for i
      using Cons.prems(2) [of "Suc i"] that by (simp add: algebra_simps)
  qed (use Cons.prems in \<open>simp_all add: algebra_simps\<close>)
  then show ?case using Cons.prems(1) Cons.prems(2) [of 0] by simp
qed simp

lemma cstr_put_text: "0 \<notin> set cs \<Longrightarrow> length cs < 2 ^ 32 - 1 \<Longrightarrow> cstr (put_text m a (cs @ [0])) a cs"
  using put_text_at [of "cs @ [0]" _ m a] by (intro cstr_iff_nth) (auto simp: nth_append)

lemma of_int_uint8 [simp]: "(of_int (uint (x :: u8)) :: u8) = x"
  by simp

lemma take_chars_word:
  "current (ic z) (stream z) (w @ x # r) \<Longrightarrow> \<forall>c \<in> set w. \<not> isspace (uint c) \<Longrightarrow> isspace (uint x) \<Longrightarrow> length w < k \<Longrightarrow>
     \<exists>z'. take_chars (\<lambda>c. \<not> isspace c) False k str z = (k - length w, str + of_nat (length w), z') \<and>
       smem z' = put_text (smem z) str w \<and> current (ic z') (stream z') (x # r) \<and> args z' = args z \<and> nitems z' = nitems z \<and>
       conv z' = conv z"
proof (induction w arbitrary: z str k)
  case Nil
  then obtain l where k: "k = Suc l" by (cases k) auto
  show ?case using Nil by (simp add: k)
next
  case (Cons c w)
  obtain l where k: "k = Suc l" "length w < l" using Cons.prems(4) by (cases k) auto
  let ?z = "z\<lparr>smem := (smem z)(str := c)\<rparr>"
  have c: "ic z = uint c" "stream_holds (stream z) (w @ x # r)" using Cons.prems(1) by simp_all
  have "current (ic (read_char ?z)) (stream (read_char ?z)) (w @ x # r)" using read_char_current [of ?z] c(2) by simp
  from Cons.IH [OF this _ Cons.prems(3) k(2), of "str + 1"] Cons.prems(2)
  obtain z' where z': "take_chars (\<lambda>c. \<not> isspace c) False l (str + 1) (read_char ?z) = (l - length w, str + 1 + of_nat (length w), z')"
      "smem z' = put_text ((smem z)(str := c)) (str + 1) w" "current (ic z') (stream z') (x # r)" "args z' = args z"
      "nitems z' = nitems z" "conv z' = conv z" by (auto simp del: fun_upd_apply simp: fun_upd_def)
  have "take_chars (\<lambda>c. \<not> isspace c) False k str z = take_chars (\<lambda>c. \<not> isspace c) False l (str + 1) (read_char ?z)"
    using c(1) Cons.prems(2) k by (simp add: Let_def)
  then show ?case using z' k by (simp add: algebra_simps)
qed

lemma scan_string_word:
  assumes "current (ic z) (stream z) (w @ x # r)" "\<forall>c \<in> set w. \<not> isspace (uint c)" "isspace (uint x)" "length w < 0xFFFF" "args z = a # as"
  shows "\<exists>z'. scan_string (Scan_flags False False False False) 0 z = Inr (z', True) \<and> smem z' = put_text (smem z) a (w @ [0]) \<and>
    args z' = as \<and> nitems z' = nitems z \<and> conv z' = conv z \<and> stream_holds (stream z') (x # r) \<and> ic z' \<noteq> EOF"
proof -
  let ?z = "z\<lparr>args := as\<rparr>"
  have cur: "current (ic ?z) (stream ?z) (w @ x # r)" and w: "length w < unat (0xFFFF :: u32)" using assms(1,4) by simp_all
  obtain z' where z': "take_chars (\<lambda>c. \<not> isspace c) False (unat (0xFFFF :: u32)) a ?z = (unat (0xFFFF :: u32) - length w, a + of_nat (length w), z')"
      "smem z' = put_text (smem z) a w" "current (ic z') (stream z') (x # r)" "args z' = as" "nitems z' = nitems z" "conv z' = conv z"
    using take_chars_word [OF cur assms(2,3) w, of a] by auto
  have "unat (0xFFFF :: u32) - length w \<noteq> 0" using assms(4) by simp
  moreover have "ic z' \<noteq> EOF" using z'(3) by simp
  ultimately show ?thesis
    using z' ungetc_current [OF z'(3)] assms(4,5)
    by (simp add: scan_string_def take_arg_def Let_def give_back_def unread_def put_text_append)
qed

lemma directive_flags_bare:
  "m p \<notin> {42, 104, 108, 76} \<Longrightarrow> \<not> isdigit (sint (m p)) \<Longrightarrow> directive_flags m p = Some (Scan_flags False False False False, 0, p)"
  by (simp add: directive_flags_def Let_def)

lemma scan_directive_word:
  assumes "text_at (smem z) f [37, 115]" "args z = a # as" "stream_holds (stream z) (bl @ w @ x # r)"
    and "\<forall>c \<in> set bl. isspace (uint c)" "w \<noteq> []" "\<forall>c \<in> set w. \<not> isspace (uint c)" "isspace (uint x)" "length w < 0xFFFF"
  shows "\<exists>z'. scan_directive f z = Some (Inr (Next (f + 2) z')) \<and>
    smem z' = put_text (smem z) a (w @ [0]) \<and> args z' = as \<and> nitems z' = nitems z + 1 \<and> stream_holds (stream z') (x # r) \<and>
    conv z' = conv z + 1 \<and> ic z' \<noteq> EOF"
proof -
  obtain y v where y: "w = y # v" "\<not> isspace (uint y)" using assms(5,6) by (cases w) auto
  let ?z = "read_nonspace z"
  have cur: "current (ic ?z) (stream ?z) (w @ x # r)" and same: "smem ?z = smem z" "args ?z = args z" "nitems ?z = nitems z" "conv ?z = conv z"
    using read_nonspace_current [OF assms(3,4)] y by auto
  have ic: "ic ?z \<noteq> EOF" using cur y(1) by simp
  obtain z' where z': "scan_string (Scan_flags False False False False) 0 ?z = Inr (z', True)" "smem z' = put_text (smem z) a (w @ [0])"
      "args z' = as" "nitems z' = nitems z" "conv z' = conv z" "stream_holds (stream z') (x # r)" "ic z' \<noteq> EOF"
    using scan_string_word [OF cur assms(6-8), of a as] assms(2) by (auto simp: same)
  have "scan_conversion (Scan_flags False False False False) 0 (f + 1) z =
      Some (Inr (Next (f + 1 + 1) (z'\<lparr>conv := conv z' + 1, nitems := nitems z' + 1\<rparr>)))"
    using assms(1) ic z'(1) by (simp add: scan_conversion_def Let_def end_conversion_def)
  moreover have "scan_directive f z = scan_conversion (Scan_flags False False False False) 0 (f + 1) z"
    using assms(1) directive_flags_bare [of "smem z" "f + 1"] by (simp add: scan_directive_def scan_blanks_def isspace_def isdigit_def Let_def)
  ultimately show ?thesis using z' by (simp add: add.assoc)
qed

text \<open>\<open>%s\<close> stores the next word of the input, with a NUL behind it.\<close>

lemma doscan_word:
  assumes "text_at m f [37, 115, 0]" "stream_holds st (bl @ w @ x # r)" "\<forall>c \<in> set bl. isspace (uint c)" "w \<noteq> []"
    and "\<forall>c \<in> set w. \<not> isspace (uint c)" "isspace (uint x)" "length w < 0xFFFF" "sep a (length w + 1) f 3"
  shows "\<exists>z. doscan st f (a # ap) m = Some (Inr (1, z)) \<and> smem z = put_text m a (w @ [0]) \<and> stream_holds (stream z) (x # r)"
proof -
  let ?z = "\<lparr>smem = m, stream = st, args = a # ap, nitems = 0, nrchars = 0, conv = 0, ic = EOF\<rparr>"
  obtain z' where z': "scan_directive f ?z = Some (Inr (Next (f + 2) z'))" "smem z' = put_text m a (w @ [0])"
      "nitems z' = 1" "stream_holds (stream z') (x # r)" "conv z' = 1"
    using scan_directive_word [of ?z f a ap bl w x r] assms(1-7) by auto
  have "\<not> in_range a (length w + 1) (f + 2)" using sep_in_range [OF assms(8), of "f + 2"] by (auto simp: in_range_def)
  then have "smem z' (f + 2) = 0" using assms(1,7) put_text_other [of a "w @ [0]" "f + 2" m] by (simp add: z'(2) add.assoc)
  then have "scan_directive (f + 2) z' = Some (Inr (Stop z'))"
    by (simp add: scan_directive_def scan_blanks_def isspace_def Let_def)
  then have "doscan_loop f ?z = Some (Inr (1, z'))"
    using z' by (simp add: doscan_loop.simps [of f] doscan_loop.simps [of "f + 2"] scan_result_def)
  moreover have "m f \<noteq> 0" using assms(1) by simp
  ultimately show ?thesis using z' by (simp add: doscan_def)
qed

section \<open>Reading a line\<close>

lemma line_stream_holds: "holds b cs \<Longrightarrow> stream_holds (line_stream b) cs"
  by (simp add: stream_holds_def line_stream_def getline_holds) (simp add: holds_def)

lemma decimal_chars: "c \<in> set (decimal n) \<Longrightarrow> c \<noteq> 0 \<and> c \<noteq> 10"
proof -
  obtain sg ds where d: "decimal n = sg @ map dec_char ds" "sg \<in> {[], [45]}" "\<forall>d \<in> set ds. d < 10" "length ds \<le> 10"
    by (rule decimal_numeral [of n])
  have "dec_char e \<noteq> 0 \<and> dec_char e \<noteq> 10" if "e \<in> set ds" for e
    using sint_dec_char [of e] d(3) that by auto
  then show "c \<in> set (decimal n) \<Longrightarrow> c \<noteq> 0 \<and> c \<noteq> 10" using d(1,2) by auto
qed

lemma getLast_not_end:
  "filled b ls \<Longrightarrow> 10 \<notin> set ls \<Longrightarrow> (ucast lit :: u8) \<noteq> 10 \<Longrightarrow> getLast lit b \<noteq> 10"
  using getLast_filled [of b ls lit] last_in_set [of ls] by (cases "ls = []") force+

text \<open>
  A line that is being typed while \<open>scanf\<close> waits. The events of \<open>pending\<close> are what the interrupts
  will be; \<open>types\<close> says which character an event puts into the line, none or one, for the events that
  are \<open>benign\<close>. \<open>ready\<close> states serve them, \<open>own\<close> is memory that must stay for them to stay ready, and
  \<open>same\<close> relates states that differ in what typing changes only.
\<close>

locale typing =
  fixes interrupt :: "'a kbd_state_scheme \<Rightarrow> 'a kbd_state_scheme result"
    and pending :: "'a kbd_state_scheme \<Rightarrow> 'e list"
    and types :: "'e \<Rightarrow> u8 list"
    and benign :: "'e \<Rightarrow> bool"
    and ready :: "'a kbd_state_scheme \<Rightarrow> bool"
    and own :: "u32 \<Rightarrow> bool"
    and same :: "'a kbd_state_scheme \<Rightarrow> 'a kbd_state_scheme \<Rightarrow> bool"
  assumes ready_cursor: "ready s \<Longrightarrow> cursor_ok s"
    and step: "ready s \<Longrightarrow> pending s = e # es \<Longrightarrow> benign e \<Longrightarrow> filled (line s) ls \<Longrightarrow> length ls < 511 \<Longrightarrow>
      \<exists>s'. interrupt s = Inr s' \<and> ready s' \<and> pending s' = es \<and> filled (line s') (ls @ types e) \<and>
        screen_of s' = screen_of (puts_color 0 15 (types e) s) \<and> same_outside s s' \<and> same s s'"
    and types_one: "benign e \<Longrightarrow> length (types e) \<le> 1"
    and same_refl: "same s s"
    and same_trans: "same s t \<Longrightarrow> same t u \<Longrightarrow> same s u"
    and line_keeps: "ready (s\<lparr>line := b\<rparr>) = ready s" "pending (s\<lparr>line := b\<rparr>) = pending s" "same s (s\<lparr>line := b\<rparr>)"
    and putc_keeps: "ready s \<Longrightarrow> ready (monitor_putc_color c bg fg s)" "pending (monitor_putc_color c bg fg s) = pending s"
      "same s (monitor_putc_color c bg fg s)"
    and mem_keeps: "ready s \<Longrightarrow> (\<And>x. own x \<Longrightarrow> m x = mem s x) \<Longrightarrow> ready (s\<lparr>mem := m\<rparr>)" "pending (s\<lparr>mem := m\<rparr>) = pending s"
      "same s (s\<lparr>mem := m\<rparr>)"
begin

lemma puts_keeps:
  "pending (puts_color bg fg cs s) = pending s \<and> same s (puts_color bg fg cs s) \<and> (ready s \<longrightarrow> ready (puts_color bg fg cs s))"
proof (induction cs arbitrary: s)
  case (Cons c cs)
  show ?case using Cons.IH [of "monitor_putc_color c bg fg s"] putc_keeps [where s = s and c = c and bg = bg and fg = fg] same_trans by (auto simp: puts_color_def)
qed (simp add: puts_color_def same_refl)

text \<open>
  The loop returns with the events up to the line end consumed: \<open>es\<close> types \<open>cs\<close>, \<open>e\<close> the line end.
\<close>

lemma wait_line_typed:
  assumes "ready s" "pending s = es @ e # rest" "\<forall>e \<in> set (es @ [e]). benign e" "concat (map types es) = cs" "types e = [10]"
    and "filled (line s) ls" "10 \<notin> set (ls @ cs)" "(ucast lit :: u8) \<noteq> 10" "length (ls @ cs) < 511"
  shows "\<exists>s'. wait_line interrupt lit s = Some (Inr s') \<and> ready s' \<and> pending s' = rest \<and> holds (line s') (ls @ cs @ [10]) \<and>
    screen_of s' = screen_of (puts_color 0 15 (cs @ [10]) s) \<and> same_outside s s' \<and> same s s'"
  using assms
proof (induction es arbitrary: s ls cs)
  case Nil
  then obtain s' where s': "interrupt s = Inr s'" "ready s'" "pending s' = rest" "filled (line s') (ls @ [10])"
      "screen_of s' = screen_of (puts_color 0 15 [10] s)" "same_outside s s'" "same s s'"
    using step [of s e rest ls] by auto
  have "getLast lit (line s) \<noteq> 10" using Nil.prems(6-8) by (intro getLast_not_end) auto
  moreover have "getLast lit (line s') = 10" using getLast_filled [OF s'(4), of lit] by simp
  ultimately have "wait_line interrupt lit s = Some (Inr s')"
    using s'(1) by (simp add: wait_line.simps [of interrupt lit s] wait_line.simps [of interrupt lit s'])
  then show ?case using s' Nil.prems(4) filled_holds [OF s'(4)] by simp
next
  case (Cons a es)
  have b: "benign a" using Cons.prems(3) by simp
  have len: "length ls < 511" "length (types a) \<le> 1" using Cons.prems(9) types_one [OF b] by auto
  obtain s1 where s1: "interrupt s = Inr s1" "ready s1" "pending s1 = es @ e # rest" "filled (line s1) (ls @ types a)"
      "screen_of s1 = screen_of (puts_color 0 15 (types a) s)" "same_outside s s1" "same s s1"
    using step [OF Cons.prems(1) _ b Cons.prems(6) len(1)] Cons.prems(2) by fastforce
  let ?cs = "concat (map types es)"
  have "getLast lit (line s) \<noteq> 10" using Cons.prems(6-8) by (intro getLast_not_end) auto
  then have w: "wait_line interrupt lit s = wait_line interrupt lit s1"
    using s1(1) by (simp add: wait_line.simps [of interrupt lit s])
  have "\<forall>e \<in> set (es @ [e]). benign e" "10 \<notin> set ((ls @ types a) @ ?cs)" "length ((ls @ types a) @ ?cs) < 511"
    using Cons.prems(3,4,7,9) by auto
  from Cons.IH [OF s1(2,3) this(1) refl Cons.prems(5) s1(4) this(2) Cons.prems(8) this(3)]
  obtain s' where s': "wait_line interrupt lit s1 = Some (Inr s')" "ready s'" "pending s' = rest" "holds (line s') ((ls @ types a) @ ?cs @ [10])"
      "screen_of s' = screen_of (puts_color 0 15 (?cs @ [10]) s1)" "same_outside s1 s'" "same s1 s'"
    by blast
  have ok: "cursor_ok (puts_color 0 15 (types a) s)"
    using con.puts_spec [OF ready_cursor [OF Cons.prems(1)]] by (simp add: puts_color_con)
  have "screen_of (puts_color 0 15 (?cs @ [10]) s1) = screen_of (puts_color 0 15 (?cs @ [10]) (puts_color 0 15 (types a) s))"
    by (rule screen_of_puts_cong [OF ready_cursor [OF s1(2)] ok s1(5)])
  then have "screen_of s' = screen_of (puts_color 0 15 (cs @ [10]) s)"
    using s'(5) Cons.prems(4) by (auto simp flip: puts_color_append)
  then show ?case
    using w s' s1(6,7) same_trans Cons.prems(4) by (auto simp: same_outside_def)
qed

text \<open>\<open>scanf\<close> on such a line: what is typed up to the line end is printed once more and scanned.\<close>

lemma scanf_typed:
  assumes "ready s" "pending s = es @ e # rest" "\<forall>e \<in> set (es @ [e]). benign e" "concat (map types es) = cs" "types e = [10]"
    and "10 \<notin> set cs" "(ucast lit :: u8) \<noteq> 10" "length cs < 511"
  shows "\<exists>t b. scanf interrupt lit f ap s =
      bindO (doscan (line_stream b) f ap (mem t)) (\<lambda>(r, z). Some (Inr (t\<lparr>mem := smem z, line := b\<lparr>temp := buf (stream z)\<rparr>\<rparr>))) \<and>
    ready t \<and> pending t = rest \<and> holds b (cs @ [10]) \<and> same_outside s t \<and> same s t \<and>
    screen_of t = screen_of (puts_color 0 15 (cs @ [10] @ cs @ [10]) s)"
proof -
  let ?s = "s\<lparr>line := init_buffer (line s)\<rparr>"
  have "ready ?s" "pending ?s = es @ e # rest" "filled (line ?s) []" "10 \<notin> set ([] @ cs)" "length ([] @ cs) < 511"
    using assms(1,2,6,8) line_keeps by simp_all
  from wait_line_typed [OF this(1,2) assms(3-5) this(3,4) assms(7) this(5)]
  obtain s1 where s1: "wait_line interrupt lit ?s = Some (Inr s1)" "ready s1" "pending s1 = rest" "holds (line s1) (cs @ [10])"
      "screen_of s1 = screen_of (puts_color 0 15 (cs @ [10]) ?s)" "same_outside ?s s1" "same ?s s1"
    by auto
  define t where "t = puts_color 0 15 (cs @ [10]) s1"
  note spec = con.puts_spec [OF ready_cursor [OF s1(2)], of 0 15 "cs @ [10]", folded puts_color_con]
  have ok: "cursor_ok s" "cursor_ok ?s" using ready_cursor [OF assms(1)] by (simp_all add: cursor_ok_def)
  have ok2: "cursor_ok (puts_color 0 15 (cs @ [10]) s)"
    using con.puts_spec [OF ok(1)] by (simp add: puts_color_con)
  have "screen_of s1 = screen_of (puts_color 0 15 (cs @ [10]) s)"
    using s1(5) screen_of_puts_cong [OF ok(2,1), of 0 15 "cs @ [10]"] by simp
  from screen_of_puts_cong [OF ready_cursor [OF s1(2)] ok2 this]
  have "screen_of t = screen_of (puts_color 0 15 (cs @ [10] @ cs @ [10]) s)"
    unfolding t_def by (metis append.assoc puts_color_append)
  moreover have "line t = line s1" using same_keys_puts [of s1] by (simp add: t_def same_keys_def)
  moreover have "same_outside s t" using spec s1(6) by (simp add: t_def same_outside_def)
  moreover have "ready t" "pending t = rest" "same s t"
    using puts_keeps [of 0 15 "cs @ [10]" s1] s1(2,3,7) line_keeps(3) [of s "init_buffer (line s)"] same_trans
    by (auto simp: t_def)
  ultimately show ?thesis
    using s1(1,4) getline_holds [OF s1(4)]
    by (intro exI [of _ t] exI [of _ "line t"]) (simp add: scanf_def t_def Let_def)
qed

end

theorem strtol_saturates_witness:
  "sint (fst (strtol [32, 45, 51, 48, 48, 48, 48, 48, 48, 48, 48, 48, 33] 10)) = - (2 ^ 31)"
  using conjunct1 [OF strtol_saturates [of "[32]" "[45]" "[3, 0, 0, 0, 0, 0, 0, 0, 0, 0]" "[33]"]]
  by (simp add: isspace_def not_digit_next_def isdigit_def dec_char_def signed_value_def base_value_def)

definition sample_stream :: "u8 list \<Rightarrow> iobuf" where
  "sample_stream cs = \<lparr>count = int (length cs), io_flags = 0x80, buf = (\<lambda>i. if i < length cs then cs ! i else 0), ptr = 0\<rparr>"

theorem ungetc_getc_witness:
  "\<exists>c st. getc (sample_stream [55]) = (c, st) \<and> c = 55 \<and> ungetc c st = sample_stream [55]"
proof -
  obtain c st where g: "getc (sample_stream [55]) = (c, st)" by fastforce
  then have "c = 55" by (auto simp: getc_def sample_stream_def Let_def)
  with ungetc_getc [OF g] g show ?thesis by (simp add: sample_stream_def)
qed

lemma decimal_minus_7: "decimal (- 7) = [45, 55]"
  by (simp add: decimal_def sint32 digits_of_def low_digits.simps)

theorem doscan_decimal_witness:
  "\<exists>z. doscan (sample_stream [32, 45, 55, 10]) 0x5000 [0x6000] ((\<lambda>_. 0)(0x5000 := 37, 0x5001 := 100)) = Some (Inr (1, z)) \<and>
     smem z = store32 ((\<lambda>_. 0)(0x5000 := 37, 0x5001 := 100)) 0x6000 (- 7)"
proof -
  note d = decimal_minus_7
  have "stream_holds (sample_stream [32, 45, 55, 10]) ([32] @ decimal (- 7) @ [10])"
    unfolding d by (simp add: stream_holds_def sample_stream_def)
  from doscan_decimal [OF _ this, where m = "(\<lambda>_. 0)(0x5000 := 37, 0x5001 := 100)" and f = "0x5000" and a = "0x6000" and ap = "[]"]
  show ?thesis by (auto simp: isspace_def isdigit_def sep_def)
qed

end
