(* ===== verification/Session.thy ===== *)
theory Session
  imports Kernel Scan_Correct
begin

text \<open>
  Code that runs with interrupts enabled: a world is a kernel together with the interrupts that are
  still to come. \<open>scanf\<close> and \<open>sleep\<close>, which wait for interrupts, consume them one by one, each through
  the stubs, the dispatcher and the driver of \<open>Kernel\<close>. Typing a line on the keyboard, with clock
  ticks in between, is an instance of the interface \<open>typing\<close> of \<open>Scan_Correct\<close>.
\<close>

section \<open>Worlds\<close>

text \<open>
  An interrupt: the registers of the code it interrupts, the line's vector, the stack (instruction
  pointer, code segment and flags on top) and the bytes the keyboard controller answers with.
\<close>

datatype event = Event cpu u8 "u32 list" "u8 list"

record world = kernel +
  events :: "event list"

definition set_reads :: "u8 list \<Rightarrow> 'a kernel_scheme \<Rightarrow> 'a kernel_scheme" where
  "set_reads bs k = set_con k ((con k)\<lparr>reads := bs\<rparr>)"

text \<open>
  The next interrupt. When none is left, or when interrupts are off, whoever waits for one waits forever. Its
  bytes answer the interrupt's reads; what the interrupted code is still to read, when it is itself an
  interrupt, stays.
\<close>

definition deliver :: "(u8 \<Rightarrow> world \<Rightarrow> world result) \<Rightarrow> world \<Rightarrow> world result" where
  "deliver run_test w =
     (case events w of
        [] \<Rightarrow> Inl Hang
      | e # rest \<Rightarrow>
          if \<not> sti_flag w then Inl Hang
          else (case e of Event c v st bs \<Rightarrow>
             bindE (interrupt run_test c v st bs (w\<lparr>events := rest\<rparr>)) (\<lambda>k. Inr (set_reads (reads (con w)) k))))"

text \<open>Functions of the console and of the keyboard driver's line, called by the kernel.\<close>

definition on_keysO ::
    "('a kernel_scheme keys_state \<Rightarrow> 'a kernel_scheme keys_state result option) \<Rightarrow> 'a kernel_scheme \<Rightarrow>
       'a kernel_scheme result option" where
  "on_keysO f k = bindO (f (keys k)) (\<lambda>c. Some (Inr (kernel_of c)))"

definition w_printf :: "u32 \<Rightarrow> u32 list \<Rightarrow> world \<Rightarrow> world result option" where
  "w_printf format ap = on_keysO (printf format ap)"

definition w_scanf :: "(u8 \<Rightarrow> world \<Rightarrow> world result) \<Rightarrow> u32 \<Rightarrow> u32 \<Rightarrow> u32 list \<Rightarrow> world \<Rightarrow> world result option" where
  "w_scanf run_test lit format ap = on_keysO (scanf (from_keys (deliver run_test)) lit format ap)"

definition w_sleep :: "(u8 \<Rightarrow> world \<Rightarrow> world result) \<Rightarrow> u32 \<Rightarrow> world \<Rightarrow> world result option" where
  "w_sleep run_test t w = sleep (deliver run_test) t w"

section \<open>Events that only type\<close>

definition types_of :: "event \<Rightarrow> u8 list" where
  "types_of e = (case e of Event c v st bs \<Rightarrow> if v = 33 then (case typed_by (hd bs) of None \<Rightarrow> [] | Some xs \<Rightarrow> xs) else [])"

text \<open>A clock tick, or a key that types its character or nothing.\<close>

definition benign :: "event \<Rightarrow> bool" where
  "benign e = (case e of Event c v st bs \<Rightarrow>
     3 \<le> length st \<and> (v = 32 \<or> v = 33 \<and> 3 \<le> length bs \<and> typed_by (hd bs) \<noteq> None))"

definition is_tick :: "event \<Rightarrow> bool" where
  "is_tick e = (case e of Event c v st bs \<Rightarrow> v = 32)"

text \<open>
  A kernel that serves such events: interrupts are on, both handlers are registered, the cursor is on the
  screen, no modifier is down and the process \<open>p\<close> is alone in the run list, away from the screen.
\<close>

definition serves :: "u32 \<Rightarrow> 'a kernel_scheme \<Rightarrow> bool" where
  "serves p k \<longleftrightarrow> sti_flag k \<and> handlers k 32 = Some Timer_callback \<and> handlers k 33 = Some Keyboard_handler \<and>
     cursor_ok (con k) \<and> mode (con k) = 0 \<and> cur_proc k = p \<and> ring (mem k) (run_head k) [p] \<and>
     (\<forall>x. in_range (p_next p) 4 x \<longrightarrow> \<not> in_video x)"

text \<open>Kernels that differ in memory, console, clock and port writes only.\<close>

definition same_kernel :: "'a kernel_scheme \<Rightarrow> 'a kernel_scheme \<Rightarrow> bool" where
  "same_kernel k k' \<longleftrightarrow> cr3 k' = cr3 k \<and> handlers k' = handlers k \<and> pg_stack k' = pg_stack k \<and> pg_top k' = pg_top k \<and>
     first k' = first k \<and> mm_top k' = mm_top k \<and> cur_pid k' = cur_pid k \<and> run_head k' = run_head k \<and> cur_proc k' = cur_proc k \<and>
     r_esp k' = r_esp k \<and> r_ebp k' = r_ebp k \<and> r_ebx k' = r_ebx k \<and> r_esi k' = r_esi k \<and> r_edi k' = r_edi k \<and>
     r_eflags k' = r_eflags k \<and> r_eip k' = r_eip k \<and> idts k' = idts k \<and> idtr_var k' = idtr_var k \<and> cpu_idtr k' = cpu_idtr k \<and>
     seg_part k' = seg_part k \<and> k_elf k' = k_elf k \<and> sti_flag k' = sti_flag k \<and> reads (con k') = reads (con k)"

lemma same_kernel_refl [simp]: "same_kernel k k"
  by (simp add: same_kernel_def)

lemma same_kernel_trans: "same_kernel k l \<Longrightarrow> same_kernel l m \<Longrightarrow> same_kernel k m"
  by (simp add: same_kernel_def)

lemma same_kernel_set_con [simp]:
  "same_kernel k (set_con k c) \<longleftrightarrow> cr3 c = cr3 k \<and> handlers c = handlers k \<and> reads c = reads (con k)"
  by (auto simp: same_kernel_def set_con_def share_def)

lemma set_reads_fields [simp]:
  "mem (set_reads bs k) = mem k" "handlers (set_reads bs k) = handlers k" "ticks (set_reads bs k) = ticks k"
  "con (set_reads bs k) = (con k)\<lparr>reads := bs\<rparr>" "events (set_reads bs w) = events w" "serves p (set_reads bs k) = serves p k"
  "cr3 (set_reads bs k) = cr3 k" "frames (set_reads bs k) = frames k" "mm_top (set_reads bs k) = mm_top k"
  "sti_flag (set_reads bs k) = sti_flag k"
  by (simp_all add: set_reads_def serves_def frames_def cursor_ok_def) (simp_all add: set_con_def share_def)

lemma set_reads_twice [simp]: "set_reads bs (set_reads bs' k) = set_reads bs k"
  by (simp add: set_reads_def) (simp add: set_con_def share_def)

lemma same_outside_reads [simp]: "same_outside s (c\<lparr>reads := bs\<rparr>) = same_outside s c"
  by (simp add: same_outside_def)

lemma same_kernel_set_reads: "same_kernel (set_reads bs k) k' \<Longrightarrow> same_kernel k (set_reads (reads (con k)) k')"
  by (simp add: same_kernel_def) (simp add: set_reads_def set_con_def share_def con_def)

section \<open>One event\<close>

lemma serves_set_con:
  assumes "serves p k" "quiet (con k) c" "mode c = 0"
  shows "serves p (set_con k c)"
proof -
  have q: "handlers c = handlers k" "cursor_ok c" "same_outside (con k) c"
    using assms(1,2) by (simp_all add: serves_def quiet_def)
  have "load32 (mem c) (p_next p) = load32 (mem k) (p_next p)"
    using assms(1) q(3) by (intro load32_cong) (auto simp: serves_def same_outside_def)
  then show ?thesis using assms q by (simp add: serves_def ring1)
qed

lemma interrupt_tick:
  assumes "serves p k" "st = ip # csel # fl # r"
  shows "\<exists>k'. interrupt run_test c 32 st bs k = Inr k' \<and> serves p k' \<and> same_kernel k (set_reads (reads (con k)) k') \<and> ticks k' = ticks k + 1 \<and> mem k' = mem k \<and>
    con k' = (con k)\<lparr>reads := bs, ports := ports k @ [(0x20, 0x20)]\<rparr> \<and> kernel.more k' = kernel.more k"
proof -
  define k0 where "k0 = (set_con k ((con k)\<lparr>reads := bs\<rparr>))\<lparr>ports := ports k @ [(0x20, 0x20)], sti_flag := False\<rparr>"
  define k1 where "k1 = (set_con k ((con k)\<lparr>reads := bs\<rparr>))\<lparr>ports := ports k @ [(0x20, 0x20)]\<rparr>"
  have ret: "(k0\<lparr>ticks := ticks k0 + 1\<rparr>)\<lparr>sti_flag := sti_flag k\<rparr> = k1\<lparr>ticks := ticks k1 + 1\<rparr>"
    by (simp add: k0_def k1_def set_con_def share_def)
  have "interrupt run_test c 32 st bs k = Inr ((timer_callback k0)\<lparr>sti_flag := sti_flag k\<rparr>)"
    using interrupt_dispatch [of 32 run_test c ip csel fl r bs k] assms
    by (auto simp: k0_def call_handler_def serves_def)
  moreover have "schedule (k0\<lparr>ticks := ticks k0 + 1\<rparr>) = k0\<lparr>ticks := ticks k0 + 1\<rparr>"
    by (rule schedule_alone [where p = p]) (use assms(1) in \<open>simp_all add: serves_def k0_def\<close>)
  ultimately have "interrupt run_test c 32 st bs k = Inr (k1\<lparr>ticks := ticks k1 + 1\<rparr>)" by (simp add: timer_callback_def ret)
  moreover have "con (k1\<lparr>ticks := ticks k1 + 1\<rparr>) = (con k)\<lparr>reads := bs, ports := ports k @ [(0x20, 0x20)]\<rparr>"
    by (simp add: k1_def con_def share_def set_con_def)
  moreover have "serves p (k1\<lparr>ticks := ticks k1 + 1\<rparr>)"
    using assms(1) calculation(2) by (simp add: serves_def k1_def cursor_ok_def)
  moreover have "same_kernel k (set_reads (reads (con k)) (k1\<lparr>ticks := ticks k1 + 1\<rparr>))"
    by (simp add: same_kernel_def) (simp add: k1_def set_con_def share_def set_reads_def con_def)
  ultimately show ?thesis by (intro exI [of _ "k1\<lparr>ticks := ticks k1 + 1\<rparr>"]) (simp add: k1_def set_con_def share_def)
qed

lemma owner_more: "kbd_state.more c = kbd_state.more d \<Longrightarrow> owner c = owner d"
  by (cases c; cases d) simp

lemma interrupt_key:
  assumes "serves p k" "st = ip # csel # fl # r" "3 \<le> length bs" "typed_by (hd bs) = Some xs"
    and "filled (line (con k)) ls" "length ls < 511"
  shows "\<exists>k'. interrupt run_test c 33 st bs k = Inr k' \<and> serves p k' \<and> same_kernel k (set_reads (reads (con k)) k') \<and> ticks k' = ticks k \<and>
    filled (line (con k')) (ls @ xs) \<and> screen_of (con k') = screen_of (puts_color 0 15 xs (con k)) \<and>
    same_outside (con k) (con k') \<and> kernel.more k' = kernel.more k"
proof -
  obtain b x y bs' where bs: "bs = b # x # y # bs'"
    using assms(3) by (auto simp: numeral_3_eq_3 Suc_le_length_iff)
  define k1 where "k1 = (set_con k ((con k)\<lparr>reads := bs\<rparr>))\<lparr>ports := ports k @ [(0x20, 0x20)], sti_flag := False\<rparr>"
  have con1: "con k1 = (con k)\<lparr>reads := bs, ports := ports k @ [(0x20, 0x20)]\<rparr>"
    by (simp add: k1_def con_def share_def set_con_def)
  have ok: "cursor_ok (con k)" "cursor_ok (con k1)" "mode (con k) = 0" using assms(1) by (simp_all add: serves_def con1 cursor_ok_def)
  have i: "interrupt run_test c 33 st bs k =
      bindE (on_keys (keyboard_handler (\<lambda>i. from_keys (run_test i))) k1) (\<lambda>k'. Inr (k'\<lparr>sti_flag := sti_flag k\<rparr>))"
    using interrupt_dispatch [of 33 run_test c ip csel fl r bs k] assms(1,2)
    by (auto simp: k1_def call_handler_def serves_def)
  have "mode (keys k1) = 0" "filled (line (keys k1)) ls" "reads (keys k1) = b # x # y # bs'" "cursor_ok (keys k1)"
    using assms(5) ok by (simp_all add: con1 bs del: con_fields)
  from keyboard_handler_types [OF _ this(1,2) assms(6) this(3,4), of xs "\<lambda>i. from_keys (run_test i)"] assms(4)
  obtain d where d: "keyboard_handler (\<lambda>i. from_keys (run_test i)) (keys k1) = Inr d" "quiet (keys k1) d"
      "kbd_state.more d = kbd_state.more (keys k1)" "mode d = 0" "filled (line d) (ls @ xs)"
      "screen_of d = screen_of (puts_color 0 15 xs (keys k1))"
    by (auto simp: bs)
  define k2 where "k2 = k1\<lparr>sti_flag := sti_flag k\<rparr>"
  define k3 where "k3 = (kernel_of d)\<lparr>sti_flag := sti_flag k\<rparr>"
  have k3: "k3 = set_con k2 (kbd_state.truncate d)"
    using owner_more [OF d(3)] by (simp add: kernel_of_def k2_def k3_def) (simp add: set_con_def share_def)
  have s2: "serves p k2" using assms(1) by (simp add: serves_def con1 cursor_ok_def k2_def) (simp add: k1_def)
  have q: "quiet (con k2) (kbd_state.truncate d)" using d(2) by (simp add: quiet_views k2_def)
  have "serves p k3" unfolding k3 by (rule serves_set_con [OF s2 q]) (simp add: d(4))
  moreover have "same_kernel k (set_reads (reads (con k)) k3)"
    using q unfolding k3 by (simp add: quiet_def same_kernel_def) (simp add: k2_def k1_def set_con_def share_def set_reads_def con_def)
  moreover have "screen_of (kbd_state.truncate d) = screen_of d" "screen_of (keys k1) = screen_of (con k)"
    by (simp_all add: screen_of_def kbd_state.defs keys_def con1)
  moreover have "screen_of (puts_color 0 15 xs (keys k1)) = screen_of (puts_color 0 15 xs (con k))"
    by (rule screen_of_puts_cong) (use ok calculation(4) in simp_all)
  moreover have "same_outside (con k) (kbd_state.truncate d)" using q ok(2) by (simp add: quiet_def same_outside_def con1 k2_def)
  moreover have "ticks k3 = ticks k" "kernel.more k3 = kernel.more k"
    by (simp_all add: k3 k2_def k1_def) (simp add: set_con_def share_def)
  moreover have "interrupt run_test c 33 st bs k = Inr k3" using i d(1) by (simp add: on_keys_def k3_def)
  moreover have "con k3 = kbd_state.truncate d" by (simp add: k3)
  ultimately show ?thesis using d(5,6) by (intro exI [of _ k3]) simp
qed

lemma events_more: "kernel.more v = kernel.more w \<Longrightarrow> events v = events w"
  by (cases v; cases w) simp

lemma deliver_benign:
  assumes "serves p w" "events w = e # rest" "benign e" "filled (line (con w)) ls" "length ls < 511"
  shows "\<exists>w'. deliver run_test w = Inr w' \<and> serves p w' \<and> events w' = rest \<and> same_kernel w w' \<and>
    ticks w' = ticks w + (if is_tick e then 1 else 0) \<and> filled (line (con w')) (ls @ types_of e) \<and>
    screen_of (con w') = screen_of (puts_color 0 15 (types_of e) (con w)) \<and> same_outside (con w) (con w')"
proof -
  obtain c v st bs where e: "e = Event c v st bs" by (cases e)
  obtain ip csel fl r where st: "st = ip # csel # fl # r"
    using assms(3) by (auto simp: benign_def e numeral_3_eq_3 Suc_le_length_iff)
  let ?w = "w\<lparr>events := rest\<rparr>"
  have w: "serves p ?w" "con ?w = con w" "same_kernel w k = same_kernel ?w k" for k
    using assms(1) by (simp_all add: con_def share_def serves_def same_kernel_def)
  have d: "deliver run_test w = bindE (interrupt run_test c v st bs ?w) (\<lambda>k. Inr (set_reads (reads (con w)) k))"
    using assms(1,2) by (simp add: deliver_def e serves_def)
  consider "v = 32" | xs where "v = 33" "3 \<le> length bs" "typed_by (hd bs) = Some xs"
    using assms(3) by (auto simp: benign_def e)
  then show ?thesis
  proof cases
    case 1
    obtain k' where k': "interrupt run_test c 32 st bs ?w = Inr k'" "serves p k'" "same_kernel ?w (set_reads (reads (con w)) k')" "ticks k' = ticks w + 1"
        "mem k' = mem w" "con k' = (con w)\<lparr>reads := bs, ports := ports w @ [(0x20, 0x20)]\<rparr>" "kernel.more k' = kernel.more ?w"
      using interrupt_tick [OF w(1) st, of run_test c bs] w(2) by auto
    then show ?thesis using 1 d w(3) events_more [OF k'(7)] assms(4)
      by (intro exI [of _ "set_reads (reads (con w)) k'"]) (simp add: is_tick_def e types_of_def puts_color_def screen_of_def same_outside_def)
  next
    case 2
    obtain k' where k': "interrupt run_test c 33 st bs ?w = Inr k'" "serves p k'" "same_kernel ?w (set_reads (reads (con w)) k')" "ticks k' = ticks w"
        "filled (line (con k')) (ls @ xs)" "screen_of (con k') = screen_of (puts_color 0 15 xs (con w))"
        "same_outside (con w) (con k')" "kernel.more k' = kernel.more ?w"
      using interrupt_key [OF w(1) st 2(2,3), of ls run_test c] assms(4,5) w(2) by auto
    then show ?thesis using 2 d w(3) events_more [OF k'(8)]
      by (intro exI [of _ "set_reads (reads (con w)) k'"]) (simp add: is_tick_def e types_of_def)
  qed
qed

section \<open>Typing a line\<close>

lemma keys_views [simp]:
  "screen_of (keys k) = screen_of (con k)" "screen_of (kbd_state.truncate c) = screen_of c"
  "same_outside c (keys k) = same_outside (kbd_state.truncate c) (con k)"
  by (simp_all add: screen_of_def kbd_state.defs keys_def same_outside_def keys_state.defs con_def share_def)

lemma kernel_of_events [simp]: "events (kernel_of c) = events (content (owner c))"
  by (simp add: kernel_of_def set_con_def share_def)

lemma serves_view:
  "serves p (kernel_of c) \<longleftrightarrow> sti_flag (content (owner c)) \<and> handlers c 32 = Some Timer_callback \<and> handlers c 33 = Some Keyboard_handler \<and>
     cursor_ok c \<and> mode c = 0 \<and> cur_proc (content (owner c)) = p \<and> ring (mem c) (run_head (content (owner c))) [p] \<and>
     (\<forall>x. in_range (p_next p) 4 x \<longrightarrow> \<not> in_video x)"
  by (simp add: serves_def) (simp add: kernel_of_def)

lemma same_view:
  "owner d = owner c \<Longrightarrow> cr3 d = cr3 c \<Longrightarrow> handlers d = handlers c \<Longrightarrow> reads d = reads c \<Longrightarrow> same_kernel (kernel_of c) (kernel_of d)"
  by (simp add: same_kernel_def) (simp add: kernel_of_def set_con_def share_def kbd_state.defs)

lemma serves_quiet:
  assumes "serves p (kernel_of c)" "quiet c d" "mode d = mode c" "owner d = owner c"
  shows "serves p (kernel_of d)"
proof -
  have "load32 (mem d) (p_next p) = load32 (mem c) (p_next p)"
    using assms(1,2) by (intro load32_cong) (auto simp: serves_view quiet_def same_outside_def)
  then show ?thesis using assms by (simp add: serves_view quiet_def ring1)
qed

interpretation typist: typing "from_keys (deliver run_test)" "\<lambda>c. events (content (owner c))" types_of benign
    "\<lambda>c. serves p (kernel_of c)" "in_range (p_next p) 4" "\<lambda>c d. same_kernel (kernel_of c) (kernel_of d)" for run_test p
proof (unfold_locales, goal_cases)
  case (1 s)
  then show ?case by (simp add: serves_view)
next
  case (2 s e rest ls)
  have "events (kernel_of s) = e # rest" "filled (line (con (kernel_of s))) ls" using 2 by simp_all
  from deliver_benign [OF 2(1) this(1) 2(3) this(2) 2(5), of run_test]
  obtain w' where w': "deliver run_test (kernel_of s) = Inr w'" "serves p w'" "events w' = rest" "same_kernel (kernel_of s) w'"
      "filled (line (con w')) (ls @ types_of e)" "screen_of (con w') = screen_of (puts_color 0 15 (types_of e) (con (kernel_of s)))"
      "same_outside (con (kernel_of s)) (con w')" by blast
  have "serves p (kernel_of (keys w'))" using w'(2) by (simp add: serves_view) (simp add: serves_def)
  moreover have "same_kernel w' (kernel_of (keys w'))" by (simp add: kernel_of_def)
  moreover have "screen_of (puts_color 0 15 (types_of e) (kbd_state.truncate s)) = screen_of (puts_color 0 15 (types_of e) s)"
    by (rule screen_of_puts_cong) (use 2(1) in \<open>simp_all add: serves_view\<close>)
  ultimately show ?case using w' same_kernel_trans
    by (intro exI [of _ "keys w'"]) (auto simp: from_keys_def)
next
  case (3 e)
  then show ?case using typed_by_chars by (cases e) (fastforce simp: benign_def types_of_def)
next
  case (8 s b)
  then show ?case by (intro same_view) simp_all
next
  case (9 s c bg fg)
  then show ?case
    by (rule serves_quiet [OF _ quiet_putc]) (use same_keys_putc [of s c bg fg] in \<open>simp_all add: same_keys_def owner_more [OF more_putc]\<close>)
next
  case (10 c bg fg s)
  then show ?case by (simp add: owner_more [OF more_putc])
next
  case (11 s c bg fg)
  then show ?case using quiet_putc [of s c bg fg] reads_puts [of bg fg "[c]" s]
    by (intro same_view) (simp_all add: quiet_def owner_more [OF more_putc] puts_color_def)
next
  case (12 s m)
  then have "load32 m (p_next p) = load32 (mem s) (p_next p)" by (intro load32_cong) simp
  then show ?case using 12(1) by (simp add: serves_view ring1 cursor_ok_def)
next
  case (14 s m)
  then show ?case by (intro same_view) simp_all
qed (auto intro: same_kernel_trans simp: serves_view cursor_ok_def)

lemma cell_cong:
  assumes "i < 2000" "\<And>x. in_video x \<Longrightarrow> m' x = m x" shows "cell m' i = cell m i"
proof -
  define a where "a = video_memory + 2 * of_nat i"
  have u: "unat a = 3221979136 + 2 * i" using cell_addr [OF assms(1)] by (simp add: a_def)
  then have "unat (a + 1) = unat a + 1" using assms(1) by (simp add: unat_succ)
  then have "in_video a" "in_video (a + 1)"
    using u assms(1) by (simp_all add: in_video_def word_le_nat_alt word_less_nat_alt)
  then show ?thesis unfolding cell_def load16_def a_def [symmetric] using assms(2) by simp
qed

lemma screen_of_cong:
  "(\<And>x. in_video x \<Longrightarrow> mem t x = mem s x) \<Longrightarrow> cursor_x t = cursor_x s \<Longrightarrow> cursor_y t = cursor_y s \<Longrightarrow> screen_of t = screen_of s"
  using cell_cong [of _ "mem t" "mem s"] by (auto simp: screen_of_def intro!: map_cong)

text \<open>The events of a typed line: benign ones, the last of which is the line end.\<close>

definition line_events :: "u8 list \<Rightarrow> event list \<Rightarrow> bool" where
  "line_events xs evs \<longleftrightarrow> evs \<noteq> [] \<and> list_all benign evs \<and> concat (map types_of (butlast evs)) = xs \<and> types_of (last evs) = [10]"

text \<open>
  \<open>scanf\<close> on a typed line, for a conversion that returns and changes the memory by \<open>F\<close>: \<open>m\<close> is the
  memory after the line was echoed.
\<close>

lemma w_scanf_line:
  assumes "serves p w" "events w = evs @ rest" "line_events xs evs" "10 \<notin> set xs" "length xs < 511" "(ucast lit :: u8) \<noteq> 10"
    and scans: "\<And>st m. stream_holds st (xs @ [10]) \<Longrightarrow> (\<And>x. \<not> in_video x \<Longrightarrow> m x = mem w x) \<Longrightarrow>
      \<exists>r z. doscan st f ap m = Some (Inr (r, z)) \<and> smem z = F m"
    and keeps: "\<And>m x. in_range (p_next p) 4 x \<or> in_video x \<Longrightarrow> F m x = m x"
  shows "\<exists>w' m. w_scanf run_test lit f ap w = Some (Inr w') \<and> serves p w' \<and> events w' = rest \<and> same_kernel w w' \<and>
    mem w' = F m \<and> (\<forall>x. \<not> in_video x \<longrightarrow> m x = mem w x) \<and>
    screen_of (con w') = screen_of (puts_color 0 15 (xs @ [10] @ xs @ [10]) (con w))"
proof -
  obtain es' e where evs: "evs = es' @ [e]" "\<forall>e \<in> set (es' @ [e]). benign e" "concat (map types_of es') = xs" "types_of e = [10]"
    using assms(3) unfolding line_events_def by (cases evs rule: rev_cases) (auto simp: list_all_iff)
  have r: "serves p (kernel_of (keys w))" using assms(1) by (simp add: serves_view) (simp add: serves_def)
  have ev: "events (content (owner (keys w))) = es' @ e # rest" using assms(2) evs(1) by simp
  from typist.scanf_typed [OF r ev evs(2-4) assms(4,6,5), of run_test f ap]
  obtain t b where t: "scanf (from_keys (deliver run_test)) lit f ap (keys w) =
      bindO (doscan (line_stream b) f ap (mem t)) (\<lambda>(r, z). Some (Inr (t\<lparr>mem := smem z, line := b\<lparr>temp := buf (stream z)\<rparr>\<rparr>)))"
      "serves p (kernel_of t)" "events (content (owner t)) = rest" "holds b (xs @ [10])" "same_outside (keys w) t"
      "same_kernel (kernel_of (keys w)) (kernel_of t)" "screen_of t = screen_of (puts_color 0 15 (xs @ [10] @ xs @ [10]) (keys w))"
    by blast
  have out: "\<And>x. \<not> in_video x \<Longrightarrow> mem t x = mem w x" using t(5) by (simp add: same_outside_def)
  obtain r z where z: "doscan (line_stream b) f ap (mem t) = Some (Inr (r, z))" "smem z = F (mem t)"
    using scans [OF line_stream_holds [OF t(4)] out] by blast
  let ?u = "t\<lparr>mem := smem z, line := b\<lparr>temp := buf (stream z)\<rparr>\<rparr>"
  have "w_scanf run_test lit f ap w = Some (Inr (kernel_of ?u))"
    using t(1) z(1) by (simp add: w_scanf_def on_keysO_def)
  moreover have "serves p (kernel_of ?u)"
  proof -
    have "load32 (smem z) (p_next p) = load32 (mem t) (p_next p)" using keeps z(2) by (intro load32_cong) simp
    then show ?thesis using t(2) by (simp add: serves_view ring1 cursor_ok_def)
  qed
  moreover have "same_kernel w (kernel_of ?u)"
  proof -
    have "same_kernel w (kernel_of (keys w))" by (simp add: kernel_of_def)
    moreover have "same_kernel (kernel_of t) (kernel_of ?u)" by (rule same_view) simp_all
    ultimately show ?thesis using t(6) same_kernel_trans by blast
  qed
  moreover have "screen_of ?u = screen_of t"
    by (rule screen_of_cong) (use z(2) keeps in simp_all)
  moreover have "screen_of (puts_color 0 15 (xs @ [10] @ xs @ [10]) (keys w)) = screen_of (puts_color 0 15 (xs @ [10] @ xs @ [10]) (con w))"
    by (rule screen_of_puts_cong) (use assms(1) in \<open>simp_all add: serves_def\<close>)
  ultimately show ?thesis using t(3,7) z(2) out by (intro exI [of _ "kernel_of ?u"] exI [of _ "mem t"]) simp
qed

lemma w_scanf_number:
  assumes "serves p w" "events w = evs @ rest" "line_events (bl @ decimal n) evs" "set bl \<subseteq> {32}" "length bl < 500"
    and "(ucast lit :: u8) \<noteq> 10" "text_at (mem w) f [37, 100, 0]" "sep a 4 f 3" "sep a 4 (p_next p) 4"
    and "\<And>x. in_range f 3 x \<or> in_range a 4 x \<Longrightarrow> \<not> in_video x"
  shows "\<exists>w'. w_scanf run_test lit f (a # ap) w = Some (Inr w') \<and> load32 (mem w') a = n \<and>
    (\<forall>x. \<not> in_range a 4 x \<longrightarrow> \<not> in_video x \<longrightarrow> mem w' x = mem w x) \<and> events w' = rest \<and> serves p w' \<and> same_kernel w w' \<and>
    screen_of (con w') = screen_of (puts_color 0 15 (bl @ decimal n @ [10] @ bl @ decimal n @ [10]) (con w))"
proof -
  let ?l = "bl @ decimal n"
  have l: "10 \<notin> set ?l" "length ?l < 511" using assms(4,5) decimal_chars decimal_length [of n] by auto
  have scans: "\<exists>r z. doscan st f (a # ap) m = Some (Inr (r, z)) \<and> smem z = store32 m a n"
    if st: "stream_holds st (?l @ [10])" and m: "\<And>x. \<not> in_video x \<Longrightarrow> m x = mem w x" for st m
  proof -
    have "text_at m f [37, 100, 0]" using assms(7,10) m by (simp add: in_range_def add.assoc)
    moreover have "\<forall>c \<in> set bl. isspace (uint c)" using assms(4) by (auto simp: isspace_def)
    moreover have "stream_holds st (bl @ decimal n @ [10])" using st by simp
    ultimately show ?thesis using doscan_number [of m f st bl n "[10]" a ap] assms(8) by (auto simp: isdigit_def)
  qed
  have "store32 m a n x = m x" if "in_range (p_next p) 4 x \<or> in_video x" for m x
    using that assms(9,10) sep_in_range [OF assms(9), of x] by (intro store32_other) auto
  from w_scanf_line [OF assms(1-3) l assms(6) scans this]
  obtain w' m where w': "w_scanf run_test lit f (a # ap) w = Some (Inr w')" "serves p w'" "events w' = rest" "same_kernel w w'"
      "mem w' = store32 m a n" "\<forall>x. \<not> in_video x \<longrightarrow> m x = mem w x"
      "screen_of (con w') = screen_of (puts_color 0 15 (?l @ [10] @ ?l @ [10]) (con w))" by blast
  then show ?thesis by (intro exI [of _ w']) (simp add: store32_other)
qed

text \<open>A word of the input, with \<open>"%s"\<close>.\<close>

lemma w_scanf_word:
  assumes "serves p w" "events w = evs @ rest" "line_events v evs" "v \<noteq> []" "length v < 511"
    and "\<forall>c \<in> set v. \<not> isspace (uint c) \<and> c \<noteq> 0" "(ucast lit :: u8) \<noteq> 10" "text_at (mem w) f [37, 115, 0]"
    and "sep a (length v + 1) f 3" "sep a (length v + 1) (p_next p) 4"
    and "\<And>x. in_range f 3 x \<or> in_range a (length v + 1) x \<Longrightarrow> \<not> in_video x"
  shows "\<exists>w'. w_scanf run_test lit f (a # ap) w = Some (Inr w') \<and> cstr (mem w') a v \<and>
    (\<forall>x. \<not> in_range a (length v + 1) x \<longrightarrow> \<not> in_video x \<longrightarrow> mem w' x = mem w x) \<and> events w' = rest \<and> serves p w' \<and> same_kernel w w'"
proof -
  have v: "10 \<notin> set v" "0 \<notin> set v" using assms(6) by (auto simp: isspace_def)
  have scans: "\<exists>r z. doscan st f (a # ap) m = Some (Inr (r, z)) \<and> smem z = put_text m a (v @ [0])"
    if st: "stream_holds st (v @ [10])" and m: "\<And>x. \<not> in_video x \<Longrightarrow> m x = mem w x" for st m
  proof -
    have "text_at m f [37, 115, 0]" using assms(8,11) m by (simp add: in_range_def add.assoc)
    moreover have "stream_holds st ([] @ v @ [10])" using st by simp
    ultimately show ?thesis using doscan_word [of m f st "[]" v 10 "[]" a ap] assms(4-6,9) by (auto simp: isspace_def)
  qed
  have other: "put_text m a (v @ [0]) x = m x" if "\<not> in_range a (length v + 1) x" for m x
    using that assms(5) by (intro put_text_other) simp_all
  have "put_text m a (v @ [0]) x = m x" if "in_range (p_next p) 4 x \<or> in_video x" for m x
    using that assms(11) sep_in_range [OF assms(10), of x] by (intro other) auto
  from w_scanf_line [OF assms(1-3) v(1) assms(5,7) scans this]
  obtain w' m where w': "w_scanf run_test lit f (a # ap) w = Some (Inr w')" "serves p w'" "events w' = rest" "same_kernel w w'"
      "mem w' = put_text m a (v @ [0])" "\<forall>x. \<not> in_video x \<longrightarrow> m x = mem w x" by blast
  moreover have "cstr (put_text m a (v @ [0])) a v" using v(2) assms(5) by (intro cstr_put_text) simp_all
  ultimately show ?thesis by (intro exI [of _ w']) (simp add: other)
qed

text \<open>C6: the way of a number from the keyboard into a variable: while \<open>scanf("%d")\<close> waits, the keys of
  a number and the enter key are pressed and released, clock ticks in between, each an interrupt
  through stub, dispatcher and driver; \<open>scanf\<close> then returns, the variable holds the number, no other
  memory but the screen has changed, and the screen shows the line twice, typed and printed. Later
  interrupts are still to come.\<close>

theorem scanf_reads_number:
  assumes "serves p w" "events w = evs @ rest" "line_events (bl @ decimal n) evs" "set bl \<subseteq> {32}" "length bl < 500"
    and "(ucast lit :: u8) \<noteq> 10" "text_at (mem w) f [37, 100, 0]" "sep a 4 f 3" "sep a 4 (p_next p) 4"
    and "\<And>x. in_range f 3 x \<or> in_range a 4 x \<Longrightarrow> \<not> in_video x"
  shows "\<exists>w'. w_scanf run_test lit f (a # ap) w = Some (Inr w') \<and> load32 (mem w') a = n \<and>
    (\<forall>x. \<not> in_range a 4 x \<longrightarrow> \<not> in_video x \<longrightarrow> mem w' x = mem w x) \<and> events w' = rest \<and> serves p w' \<and> same_kernel w w' \<and>
    screen_of (con w') = screen_of (puts_color 0 15 (bl @ decimal n @ [10] @ bl @ decimal n @ [10]) (con w))"
  by (rule w_scanf_number [OF assms])

section \<open>A concrete line\<close>

text \<open>The keys \<open>4\<close> and \<open>2\<close> and the enter key, pressed and released, with a clock tick in between.\<close>

definition key_event :: "u8 \<Rightarrow> event" where
  "key_event b = Event some_cpu 33 [0xC0100000, 8, 0x202] [b, 0, 0]"

definition clock_tick :: event where
  "clock_tick = Event some_cpu 32 [0xC0100000, 8, 0x202] []"

definition line_42 :: "event list" where
  "line_42 = [key_event 5, key_event 0x85, clock_tick, key_event 3, key_event 0x83, key_event 0x1C]"

text \<open>A kernel that waits, with the format \<open>"%d"\<close> at \<open>0x5000\<close>.\<close>

definition waiting_world :: world where
  "waiting_world = kernel.extend (bare_kernel\<lparr>mem := store32 ((\<lambda>_. 0)(0x5000 := 37, 0x5001 := 100)) 0xC0120028 0xC0120000,
       handlers := [32 \<mapsto> Timer_callback, 33 \<mapsto> Keyboard_handler], run_head := 0xC0120000, cur_proc := 0xC0120000, sti_flag := True\<rparr>)
     \<lparr>events = line_42 @ [key_event 0x9C]\<rparr>"

lemma decimal_42: "decimal 42 = [52, 50]"
  by (simp add: decimal_def sint32 digits_of_def low_digits.simps)

lemma line_42_types: "line_events ([] @ decimal 42) line_42"
  by (simp add: line_events_def line_42_def key_event_def clock_tick_def benign_def types_of_def typed_by_def decimal_42
      key_tab_def key_map_def)

theorem scanf_reads_number_witness:
  "\<exists>w'. w_scanf (\<lambda>_ w. Inr w) 0x1000 0x5000 [0x6000] waiting_world = Some (Inr w') \<and> load32 (mem w') 0x6000 = 42 \<and>
     events w' = [key_event 0x9C]"
proof -
  have f: "mem waiting_world = store32 ((\<lambda>_. 0)(0x5000 := 37, 0x5001 := 100)) 0xC0120028 0xC0120000"
      "handlers waiting_world = [32 \<mapsto> Timer_callback, 33 \<mapsto> Keyboard_handler]" "run_head waiting_world = 0xC0120000"
      "cur_proc waiting_world = 0xC0120000" "content (con_part waiting_world) = idle_keyboard"
      "events waiting_world = line_42 @ [key_event 0x9C]" "sti_flag waiting_world"
    by (simp_all add: waiting_world_def kernel.defs bare_kernel_def trap_state.defs)
  have nv: "\<not> in_video x" if "in_range p n x" "unat p + n \<le> 0x10000 \<or> 0xC0120000 \<le> unat p \<and> unat p + n < 0xC0130000" for p x :: u32 and n
  proof -
    have "unat x < 0x10000 \<or> 0xC0120000 \<le> unat x" using that in_range_nat [of p n x] by auto
    then show ?thesis by (auto simp: in_video_def word_le_nat_alt word_less_nat_alt)
  qed
  have s: "serves 0xC0120000 waiting_world"
    by (simp add: serves_def f ring1 p_next_def nv) (simp add: idle_keyboard_def cursor_ok_def)
  have t: "text_at (mem waiting_world) 0x5000 [37, 100, 0]" by (simp add: f store32_def)
  have nv': "\<not> in_video x" if "in_range 0x5000 3 x \<or> in_range 0x6000 4 x" for x :: u32
    using that nv [of "0x5000" 3 x] nv [of "0x6000" 4 x] by auto
  have sp: "sep 0x6000 4 (0x5000 :: u32) 3" "sep 0x6000 4 (p_next 0xC0120000) 4" by (simp_all add: sep_def p_next_def)
  have "(ucast (0x1000 :: u32) :: u8) \<noteq> 10" by simp
  from scanf_reads_number [OF s f(6) line_42_types _ _ this t sp nv', of "\<lambda>_ w. Inr w" "[]"]
  obtain w' where "w_scanf (\<lambda>_ w. Inr w) 0x1000 0x5000 [0x6000] waiting_world = Some (Inr w')" "load32 (mem w') 0x6000 = 42"
    "events w' = [key_event 0x9C]" by auto
  then show ?thesis by (intro exI conjI)
qed

end
