(* ===== verification/Heap_Correct.thy ===== *)
theory Heap_Correct
  imports Heap
begin

text \<open>
  What \<open>src/memlib.c\<close> gets right and what it gets wrong, over the invariant of \<open>Heap\<close>:
  allocation by appending and by reuse, release with a free successor, and the four defects
  that the invariant brings to light (the split, the merge with a predecessor, the header
  address of \<open>kfree\<close>, the pages \<open>_free_memory\<close> gives back).
\<close>

section \<open>A first heap to start from\<close>

text \<open>No page mapped yet and eight frames on the stack, as after \<open>init_vmm\<close> for a small machine.\<close>

abbreviation (input) "demo_pgd \<equiv> 0xC0100000 :: u32"

definition empty_heap :: heap_state where
  "empty_heap = \<lparr>mem = (\<lambda>_. 0), cr3 = 0xC0100000, ports = [], handlers = (\<lambda>_. None),
     pg_stack = (\<lambda>i. 0x200000 + 4096 * i), pg_top = 8, first = 0, mm_top = 0xE0000000\<rparr>"

lemma empty_heap_sel [simp]:
  "mem empty_heap = (\<lambda>_. 0)" "first empty_heap = 0" "mm_top empty_heap = 0xE0000000"
  "pg_top empty_heap = 8" "pg_stack empty_heap = (\<lambda>i. 0x200000 + 4096 * i)"
  by (simp_all add: empty_heap_def)

lemma frames_empty_heap:
  "frames empty_heap = [0x208000, 0x207000, 0x206000, 0x205000, 0x204000, 0x203000, 0x202000, 0x201000]"
proof -
  have "frames_from st 8 = [st 8, st 7, st 6, st 5, st 4, st 3, st 2, st 1]" for st
    by (simp add: eval_nat_numeral)
  then show ?thesis by (simp add: frames_def)
qed

lemma empty_heap_inv: "heap_inv demo_pgd empty_heap []"
proof -
  have "load32 (\<lambda>_. 0) a = 0" for a by (simp add: load32_def)
  then show ?thesis
    by (simp add: heap_inv_def heap_end_def last_addr_def window_ok_def paging_inv_def stack_ok_def
        frames_empty_heap kpage_def present_def pte_entry_def not_less [symmetric])
qed


lemma kmalloc_miss:
  assumes "heap_inv pgd s bs" "\<And>b. b \<in> set bs \<Longrightarrow> \<not> fits (sz + 12) b"
  shows "kmalloc pgd sz s = kmalloc_extend pgd (sz + 12) (last_addr bs) s"
proof -
  have "kmalloc_find (mem s) (sz + 12) (first s) 0 = Some (Inr (last_addr bs))"
    using assms heap_block(5) [OF assms(1)] by (intro kmalloc_find_end) (auto simp: heap_inv_def)
  then show ?thesis by (simp add: kmalloc_def)
qed

lemma kmalloc_hit:
  assumes inv: "heap_inv pgd s (pre @ b # post)" and "\<And>c. c \<in> set pre \<Longrightarrow> \<not> fits (sz + 12) c"
    and "fits (sz + 12) b"
  shows "kmalloc pgd sz s = Inr (addr b + 12, s\<lparr>mem := kmalloc_take (sz + 12) (addr b) (mem s)\<rparr>)"
proof -
  have "kmalloc_find (mem s) (sz + 12) (first s) 0 = Some (Inl (addr b))"
    using assms heap_block(5) [OF inv]
    by (intro kmalloc_find_hit [of _ _ _ pre b post "last_addr (pre @ b # post)" 0]) (auto simp: heap_inv_def)
  then show ?thesis by (simp add: kmalloc_def)
qed

text \<open>C7: when no free block is big enough, \<open>kmalloc\<close> appends a fresh block: it lies right
  behind all others, has the requested size plus the header, the block list stays well formed,
  and no byte that belongs to an older allocation changes.\<close>

theorem kmalloc_appends:
  assumes "heap_inv pgd s bs" "\<And>b. b \<in> set bs \<Longrightarrow> \<not> fits (sz + 12) b"
    and "heap_end bs + unat sz + 12 \<le> 0xFFFFF000" and "kmalloc pgd sz s = Inr (p, s')"
  shows "unat p = heap_end bs + 12 \<and> heap_inv pgd s' (bs @ [Block (p - 12) True (unat sz + 12)]) \<and>
    (\<forall>b \<in> set bs. \<forall>x. payload b x \<longrightarrow> mem s' x = mem s x)"
proof -
  have "kmalloc_extend pgd (sz + 12) (last_addr bs) s = Inr (p, s')"
    using kmalloc_miss [OF assms(1)] assms(2,4) by metis
  from kmalloc_extend_spec [OF assms(1,3) this] show ?thesis by blast
qed

text \<open>C9: \<open>kmalloc\<close> does come back with a pointer as soon as the frame stack holds two frames
  for each page the heap has to grow by (the page itself and possibly a page table).\<close>

theorem kmalloc_succeeds:
  assumes "heap_inv pgd s bs" "\<And>b. b \<in> set bs \<Longrightarrow> \<not> fits (sz + 12) b"
    and "heap_end bs + unat sz + 12 \<le> 0xFFFFF000"
    and "2 * ((heap_end bs + unat sz + 12 - unat (mm_top s) + 4095) div 4096) \<le> length (frames s)"
  shows "\<exists>p s'. kmalloc pgd sz s = Inr (p, s')"
  using kmalloc_extend_enough [OF assms(1,3,4)] kmalloc_miss [OF assms(1)] assms(2) by metis

lemma demo_alloc:
  assumes "heap_inv demo_pgd s bs" "\<And>b. b \<in> set bs \<Longrightarrow> used b"
    "heap_end bs + unat sz + 12 \<le> 0xFFFFF000"
    "2 * ((heap_end bs + unat sz + 12 - unat (mm_top s) + 4095) div 4096) \<le> length (frames s)"
  obtains p s' where "kmalloc demo_pgd sz s = Inr (p, s')" "unat p = heap_end bs + 12"
    "heap_inv demo_pgd s' (bs @ [Block (p - 12) True (unat sz + 12)])"
proof -
  obtain p s' where r: "kmalloc_extend demo_pgd (sz + 12) (last_addr bs) s = Inr (p, s')"
    using kmalloc_extend_enough [OF assms(1,3,4)] by blast
  have "kmalloc demo_pgd sz s = kmalloc_extend demo_pgd (sz + 12) (last_addr bs) s"
    using assms(2) by (intro kmalloc_miss [OF assms(1)]) (simp add: fits_def)
  with r have "kmalloc demo_pgd sz s = Inr (p, s')" by simp
  from that [OF this kmalloc_extend_spec(1,2) [OF assms(1,3) r]] show thesis .
qed

theorem kmalloc_succeeds_witness: "\<exists>p s'. kmalloc demo_pgd 100 empty_heap = Inr (p, s')"
  using kmalloc_succeeds [OF empty_heap_inv, of 100] by (simp add: heap_end_def frames_empty_heap)

theorem kmalloc_appends_witness:
  "\<exists>p s'. kmalloc demo_pgd 100 empty_heap = Inr (p, s') \<and> unat p = 0xE000000C \<and>
     heap_inv demo_pgd s' [Block (p - 12) True 112]"
proof -
  obtain p s' where r: "kmalloc demo_pgd 100 empty_heap = Inr (p, s')"
    by (rule demo_alloc [OF empty_heap_inv, of 100]) (simp_all add: heap_end_def frames_empty_heap)
  from kmalloc_appends [OF empty_heap_inv _ _ r] r show ?thesis by (simp add: heap_end_def)
qed


section \<open>Reusing a block\<close>

text \<open>A block of the list stands apart from the other headers.\<close>

lemma heap_apart_any:
  assumes inv: "heap_inv pgd s (pre @ b # post)" and c: "c \<in> set pre \<or> c \<in> set post"
  shows "apart (addr b) (addr c)"
proof -
  obtain q where q: "contig (unat V_MM_START) pre q" "unat (addr b) = q"
      "contig (q + len b) post (heap_end (pre @ b # post))"
    using inv by (auto simp: heap_inv_def contig_append)
  note hb = heap_block [OF inv, of b] and hc = heap_block [OF inv, of c]
  from c show ?thesis
  proof
    assume "c \<in> set pre"
    assume c: "c \<in> set pre"
    then show ?thesis using contig_bounds [OF q(1) c] q(2) hb hc by (simp add: apart_def)
  next
    assume c: "c \<in> set post"
    then show ?thesis using contig_bounds [OF q(3) c] q(2) hb hc by (simp add: apart_def)
  qed
qed

lemma in_header_apart: "apart a b \<Longrightarrow> in_range b 12 x \<Longrightarrow> \<not> in_range a 12 x"
  by (auto simp: apart_def in_range_nat)

lemma seg_untouched:
  assumes "\<And>c. c \<in> set bs \<Longrightarrow> apart a (addr c)" "\<And>x. \<not> in_range a 12 x \<Longrightarrow> m' x = m x"
  shows "seg m' p n bs p' n' \<longleftrightarrow> seg m p n bs p' n'"
  by (rule seg_cong) (use assms in_header_apart in blast)

lemma payload_not_header:
  assumes inv: "heap_inv pgd s bs" and b: "b \<in> set bs" and c: "c \<in> set bs" "payload c x"
  shows "\<not> in_range (addr b) 12 x"
proof -
  obtain pre post where bs: "bs = pre @ b # post" using b by (auto simp: in_set_conv_decomp)
  note hb = heap_block [OF inv b] and hc = heap_block [OF inv c(1)]
  obtain q where q: "contig (unat V_MM_START) pre q" "unat (addr b) = q"
      "contig (q + len b) post (heap_end bs)"
    using inv bs by (auto simp: heap_inv_def contig_append)
  have "c = b \<or> unat (addr c) + len c \<le> unat (addr b) \<or> unat (addr b) + len b \<le> unat (addr c)"
    using c(1) bs q(2) contig_bounds [OF q(1), of c] contig_bounds [OF q(3), of c] by auto
  then show ?thesis using c(2) hb hc by (auto simp: payload_def in_range_nat)
qed

text \<open>Changing the \<open>used\<close> flag of one block.\<close>

definition with_used :: "bool \<Rightarrow> block \<Rightarrow> block" where
  "with_used u b = Block (addr b) u (len b)"

lemma with_used_sel [simp]:
  "addr (with_used u b) = addr b" "len (with_used u b) = len b" "used (with_used u b) = u"
  by (simp_all add: with_used_def)

lemma set_used_inv:
  assumes inv: "heap_inv pgd s (pre @ b # post)" and v: "v = (if u then 1 else 0)"
  shows "heap_inv pgd (s\<lparr>mem := set_used (addr b) v (mem s)\<rparr>) (pre @ with_used u b # post)"
proof -
  define m where "m = set_used (addr b) v (mem s)"
  have hb: "unat V_MM_START \<le> unat (addr b)" "unat (addr b) + 12 \<le> 2 ^ 32"
    using heap_block [OF inv, of b] by auto
  have "seg m p n bs p' n' \<longleftrightarrow> seg (mem s) p n bs p' n'" if "bs = pre \<or> bs = post" for bs p n p' n'
    using that unfolding m_def
    by (intro seg_untouched [of _ "addr b"]) (auto intro: heap_apart_any [OF inv])
  from this [of pre] this [of post]
  have "seg m 0 (first s) (pre @ with_used u b # post) (last_addr (pre @ b # post)) 0"
    using inv v by (auto simp: heap_inv_def seg_append m_def)
  moreover have "window_ok pgd (s\<lparr>mem := m\<rparr>)"
    using inv hb by (intro window_write) (auto simp: heap_inv_def header_above m_def)
  moreover have "last_addr (pre @ with_used u b # post) = last_addr (pre @ b # post)"
    "heap_end (pre @ with_used u b # post) = heap_end (pre @ b # post)"
    by (simp_all add: last_addr_def heap_end_def)
  moreover have "contig k (pre @ with_used u b # post) e = contig k (pre @ b # post) e" for k e
    by (simp add: contig_append)
  ultimately show ?thesis using inv by (simp add: heap_inv_def m_def)
qed

text \<open>C36: a free block that is big enough but not worth splitting is handed out as it is: the
  first such block of the list, with only its flag changed, every other block and all
  payloads as they were.\<close>

theorem kmalloc_reuses:
  assumes "heap_inv pgd s (pre @ b # post)" "\<And>c. c \<in> set pre \<Longrightarrow> \<not> fits (sz + 12) c"
    and "fits (sz + 12) b" "len b \<le> unat sz + 24" "unat sz < 2 ^ 31"
  shows "\<exists>s'. kmalloc pgd sz s = Inr (addr b + 12, s') \<and>
    heap_inv pgd s' (pre @ with_used True b # post) \<and> frames s' = frames s \<and>
    (\<forall>c \<in> set (pre @ b # post). \<forall>x. payload c x \<longrightarrow> mem s' x = mem s x)"
proof -
  have "unat (12 + (sz + 12)) = unat sz + 24" using assms(5) by (simp add: unat_plus_if')
  moreover have "unat (h_length (mem s) (addr b)) = len b"
    using assms(1) by (auto simp: heap_inv_def seg_append)
  ultimately have "\<not> h_length (mem s) (addr b) > 12 + (sz + 12)"
    using assms(4) by (simp add: word_less_nat_alt)
  then have t: "kmalloc_take (sz + 12) (addr b) (mem s) = set_used (addr b) 1 (mem s)"
    by (simp add: kmalloc_take_def)
  show ?thesis
    using kmalloc_hit [OF assms(1) _ assms(3)] assms(2) set_used_inv [OF assms(1), of 1 True] t
      header_bytes(3) [OF payload_not_header [OF assms(1), of b]]
    by (simp add: frames_def) blast
qed


text \<open>Three allocations from the first heap: all fit in its first page.\<close>

lemma demo_more:
  assumes "heap_inv demo_pgd s bs" "\<And>b. b \<in> set bs \<Longrightarrow> used b" "bs \<noteq> []"
    and "heap_end bs + unat sz + 12 \<le> 0xE0001000"
  obtains p s' where "kmalloc demo_pgd sz s = Inr (p, s')" "unat p = heap_end bs + 12"
    "heap_inv demo_pgd s' (bs @ [Block (p - 12) True (unat sz + 12)])"
proof -
  obtain b where "b \<in> set bs" using assms(3) by (cases bs) auto
  from heap_block [OF assms(1) this] have "0xE0000000 < unat (mm_top s)"
    using assms(1) by (simp add: heap_inv_def)
  moreover have "page_aligned (mm_top s)"
    using assms(1) by (simp add: heap_inv_def window_ok_def)
  moreover from this obtain k where k: "unat (mm_top s) = 4096 * k" by (auto elim!: dvdE)
  ultimately have "4096 * 917504 < 4096 * k" by simp
  then have "0xE0001000 \<le> unat (mm_top s)" using k by simp
  then have "heap_end bs + unat sz + 12 - unat (mm_top s) = 0" using assms(4) by simp
  then show thesis
    by (rule_tac demo_alloc [OF assms(1,2)]) (use assms(4) in \<open>auto intro: that\<close>)
qed

lemma demo_three:
  obtains s :: heap_state where "heap_inv demo_pgd s
    [Block 0xE0000000 True 112, Block 0xE0000070 True 32, Block 0xE0000090 True 32]"
proof -
  have p: "p - 12 = a" if "unat p = n" "n = unat a + 12" "unat a + 12 < 2 ^ 32" for p a :: u32 and n
    using that by (simp add: word_unat_eq_iff unat_sub_if' unat_plus_if')
  obtain p and s :: heap_state where "unat p = 0xE000000C" "heap_inv demo_pgd s [Block (p - 12) True 112]"
    by (rule demo_alloc [OF empty_heap_inv, of 100]) (simp_all add: heap_end_def frames_empty_heap)
  then have a: "heap_inv demo_pgd s [Block 0xE0000000 True 112]"
    using p [of p _ "0xE0000000"] by simp
  obtain p and s :: heap_state where "unat p = 0xE000007C"
    "heap_inv demo_pgd s [Block 0xE0000000 True 112, Block (p - 12) True 32]"
    by (rule demo_more [OF a, of 20]) (simp_all add: heap_end_def)
  then have b: "heap_inv demo_pgd s [Block 0xE0000000 True 112, Block 0xE0000070 True 32]"
    using p [of p _ "0xE0000070"] by simp
  obtain p and s :: heap_state where "unat p = 0xE000009C" "heap_inv demo_pgd s
      [Block 0xE0000000 True 112, Block 0xE0000070 True 32, Block (p - 12) True 32]"
    by (rule demo_more [OF b, of 20]) (auto simp add: heap_end_def)
  then show thesis using that p [of p _ "0xE0000090"] by simp
qed

lemma demo_first_free:
  obtains s :: heap_state where "heap_inv demo_pgd s
    [Block 0xE0000000 False 112, Block 0xE0000070 True 32, Block 0xE0000090 True 32]"
proof -
  obtain s :: heap_state where s: "heap_inv demo_pgd s
    ([] @ Block 0xE0000000 True 112 # [Block 0xE0000070 True 32, Block 0xE0000090 True 32])"
    by (rule demo_three) simp
  from set_used_inv [OF s, of 0 False] show thesis using that by (simp add: with_used_def)
qed

theorem kmalloc_reuses_witness:
  "\<exists>s s'. kmalloc demo_pgd 90 (s :: heap_state) = Inr (0xE000000C, s') \<and> heap_inv demo_pgd s'
     [Block 0xE0000000 True 112, Block 0xE0000070 True 32, Block 0xE0000090 True 32]"
proof -
  obtain s :: heap_state where s: "heap_inv demo_pgd s
    ([] @ Block 0xE0000000 False 112 # [Block 0xE0000070 True 32, Block 0xE0000090 True 32])"
    by (rule demo_first_free) simp
  from kmalloc_reuses [OF s, of 90] show ?thesis by (auto simp: fits_def with_used_def)
qed

lemma kmalloc_find_loop:
  assumes "h_next m a = a" "a \<noteq> 0" "\<not> (h_used m a = 0 \<and> sz \<le> h_length m a)"
  shows "kmalloc_find m sz a p = None"
proof -
  have "kmalloc_find m sz a p \<noteq> Some r" for r
  proof
    assume "kmalloc_find m sz a p = Some r"
    from kmalloc_find.raw_induct
      [of "\<lambda>m' sz' n p r. \<not> (m' = m \<and> sz' = sz \<and> n = a)", OF _ this]
    show False using assms by (fastforce split: if_splits)
  qed
  then show ?thesis by (cases "kmalloc_find m sz a p") auto
qed


lemma split_facts:
  assumes inv: "heap_inv pgd s (pre @ b # c # post)"
    and big: "unat sz + 12 < len b" and fit: "unat sz < 2 ^ 31"
  defines "m \<equiv> kmalloc_take sz (addr b) (mem s)"
  shows "h_used m (addr b) = 1" "h_next m (addr b) = addr c"
    "h_used m (addr c) = 0" "h_next m (addr c) = addr c" "h_prev m (addr c) = addr b"
    "unat (h_length m (addr c)) = len b - unat sz"
    "seg m 0 (first s) pre (last_addr pre) (addr b)"
proof -
  have b: "seg (mem s) 0 (first s) pre (last_addr pre) (addr b)" "h_next (mem s) (addr b) = addr c"
      "unat (h_length (mem s) (addr b)) = len b"
    using inv seg_last by (fastforce simp: heap_inv_def seg_append last_addr_def)+
  have "unat (addr c) = unat (addr b) + len b"
    using inv by (auto simp: heap_inv_def contig_append)
  then have c: "addr b + h_length (mem s) (addr b) = addr c"
    using b(3) heap_block(2,4) [OF inv, of b] by (simp add: word_unat_eq_iff unat_plus_if')
  have ap: "apart (addr b) (addr c)" "apart (addr c) (addr b)"
    using heap_apart_any [OF inv, of c] by (simp_all add: apart_commute)
  have gt: "h_length (mem s) (addr b) > 12 + sz"
    using big fit b(3) by (simp add: word_less_nat_alt unat_plus_if')
  have "h_length (mem s) (addr b) < 2 ^ 31"
    using b(3) unat_drop_bit_eq [of 1 "load32 (mem s) (addr b + 8)"] unat_lt32 [of "load32 (mem s) (addr b + 8)"]
    by (simp add: h_length_def word_less_nat_alt drop_bit_eq_div)
  moreover have d: "unat (h_length (mem s) (addr b) - sz) = len b - unat sz"
    using b(3) big by (simp add: unat_sub_if')
  ultimately have l31: "h_length (mem s) (addr b) - sz < 2 ^ 31"
    using b(3) by (simp add: word_less_nat_alt)
  have m: "m = set_used (addr b) 1 (set_length (addr b) sz (set_next (addr b) (addr c)
      (set_length (addr c) (h_length (mem s) (addr b) - sz) (set_used (addr c) 0
        (set_next (addr c) (addr c) (set_prev (addr c) (addr b) (mem s)))))))"
    using gt by (simp add: m_def kmalloc_take_def Let_def c ap b(2))
  show "h_used m (addr b) = 1" "h_next m (addr b) = addr c"
    "h_used m (addr c) = 0" "h_next m (addr c) = addr c" "h_prev m (addr c) = addr b"
    unfolding m by (simp_all add: ap)
  show "unat (h_length m (addr c)) = len b - unat sz"
    unfolding m by (simp add: ap header_same(16) [OF l31] d)
  have "m x = mem s x" if "d \<in> set pre" "in_range (addr d) 12 x" for d x
  proof -
    have "apart (addr b) (addr d)" using heap_apart_any [OF inv, of d] that by simp
    moreover have "apart (addr c) (addr d)"
      using heap_apart_any [of pgd s "pre @ [b]" c post d] inv that by simp
    ultimately show ?thesis unfolding m using in_header_apart that(2) by simp
  qed
  then show "seg m 0 (first s) pre (last_addr pre) (addr b)" using b(1) seg_cong by blast
qed

text \<open>Splitting destroys the next block. The new header is written at
  \<open>node + node->length\<close>, which is where the header of the following block is: a live
  allocation is marked free there and becomes its own successor.\<close>

theorem kmalloc_split_clobbers:
  assumes "heap_inv pgd s (pre @ b # c # post)" "\<And>d. d \<in> set pre \<Longrightarrow> \<not> fits (sz + 12) d"
    and "fits (sz + 12) b" "unat sz + 24 < len b" "unat sz + 12 < 2 ^ 31" "used c"
  shows "\<exists>s'. kmalloc pgd sz s = Inr (addr b + 12, s') \<and>
    h_used (mem s) (addr c) = 1 \<and> h_used (mem s') (addr c) = 0 \<and> h_next (mem s') (addr c) = addr c"
proof -
  have "unat (sz + 12) = unat sz + 12" using assms(5) by (simp add: unat_plus_if')
  then have "unat (sz + 12) + 12 < len b" "unat (sz + 12) < 2 ^ 31" using assms(4,5) by simp_all
  note f = split_facts [OF assms(1) this]
  have "h_used (mem s) (addr c) = 1" using assms(1,6) by (auto simp: heap_inv_def seg_append)
  then show ?thesis using kmalloc_hit [OF assms(1) _ assms(3)] assms(2) f by simp
qed

text \<open>C37: after such a split the heap is unusable: a request that neither the free blocks in
  front nor the remainder can serve walks from the clobbered header to itself for ever, so
  this \<open>kmalloc\<close> never returns, whatever memory is left.\<close>

theorem kmalloc_split_hangs:
  assumes "heap_inv pgd s (pre @ b # c # post)" "\<And>d. d \<in> set pre \<Longrightarrow> \<not> fits (sz + 12) d"
    and "fits (sz + 12) b" "unat sz + 24 < len b" "unat sz + 12 < 2 ^ 31"
    and "kmalloc pgd sz s = Inr (p, s')"
    and "\<And>d. d \<in> set pre \<Longrightarrow> \<not> fits (n + 12) d" "len b < unat (n + 12) + unat sz + 12"
  shows "kmalloc pgd n s' = Inl Hang"
proof -
  have "unat (sz + 12) = unat sz + 12" using assms(5) by (simp add: unat_plus_if')
  then have u: "unat (sz + 12) + 12 < len b" "unat (sz + 12) < 2 ^ 31"
      "len b - unat (sz + 12) < unat (n + 12)" using assms(4,5,8) by simp_all
  note f = split_facts [OF assms(1) u(1,2)]
  let ?m = "kmalloc_take (sz + 12) (addr b) (mem s)"
  have s': "s' = s\<lparr>mem := ?m\<rparr>"
    using kmalloc_hit [OF assms(1) _ assms(3)] assms(2,6) by simp
  have nz: "addr d \<noteq> 0" if "d = b \<or> d = c \<or> d \<in> set pre" for d
    using heap_block(5) [OF assms(1), of d] that by auto
  have "kmalloc_find ?m (n + 12) (first s) 0 = kmalloc_find ?m (n + 12) (addr b) (last_addr pre)"
    using assms(7) nz by (intro kmalloc_find_skip [OF f(7)]) auto
  also have "\<dots> = kmalloc_find ?m (n + 12) (addr c) (addr b)"
    using f(1,2) nz by (subst kmalloc_find.simps) simp
  also have "\<dots> = None"
    using f(4,6) nz u(3) by (intro kmalloc_find_loop) (auto simp: word_le_nat_alt)
  finally show ?thesis using s' by (simp add: kmalloc_def)
qed

theorem kmalloc_split_clobbers_witness:
  "\<exists>s s'. kmalloc demo_pgd 20 (s :: heap_state) = Inr (0xE000000C, s') \<and>
     h_used (mem s) 0xE0000070 = 1 \<and> h_used (mem s') 0xE0000070 = 0"
proof -
  obtain s :: heap_state where s: "heap_inv demo_pgd s
    ([] @ Block 0xE0000000 False 112 # Block 0xE0000070 True 32 # [Block 0xE0000090 True 32])"
    by (rule demo_first_free) simp
  from kmalloc_split_clobbers [OF s, of 20] show ?thesis by (auto simp: fits_def)
qed

theorem kmalloc_split_hangs_witness:
  "\<exists>s s'. kmalloc demo_pgd 20 (s :: heap_state) = Inr (0xE000000C, s') \<and>
     kmalloc demo_pgd 100 s' = Inl Hang"
proof -
  obtain s :: heap_state where s: "heap_inv demo_pgd s
    ([] @ Block 0xE0000000 False 112 # Block 0xE0000070 True 32 # [Block 0xE0000090 True 32])"
    by (rule demo_first_free) simp
  have r: "kmalloc demo_pgd 20 s = Inr (0xE000000C, s\<lparr>mem := kmalloc_take 32 0xE0000000 (mem s)\<rparr>)"
    using kmalloc_hit [OF s, of 20] by (simp add: fits_def)
  from kmalloc_split_hangs [OF s _ _ _ _ r, of 100] r show ?thesis by (auto simp: fits_def)
qed


section \<open>Giving a block back\<close>

lemma block_len_small:
  assumes "heap_inv pgd s bs" "b \<in> set bs" shows "len b < 2 ^ 29"
  using heap_block [OF assms] by simp

text \<open>What merging a block with a free successor should amount to.\<close>

fun coalesce :: "block \<Rightarrow> block list \<Rightarrow> block list" where
  "coalesce b [] = [b]"
| "coalesce b (c # cs) = (if used c then b # c # cs else Block (addr b) (used b) (len b + len c) # cs)"

lemma merge_next_used:
  assumes "heap_inv pgd s (pre @ b # c # post)" "used c"
  shows "merge_next (addr b) (mem s) = mem s"
  using assms by (auto simp: heap_inv_def seg_append merge_next_def)

text \<open>Writing one header, seen from a run of blocks apart from it.\<close>

lemma seg_set [simp]:
  assumes "\<And>c. c \<in> set bs \<Longrightarrow> apart a (addr c)"
  shows "seg (set_prev a v m) p n bs p' n' \<longleftrightarrow> seg m p n bs p' n'"
    "seg (set_next a v m) p n bs p' n' \<longleftrightarrow> seg m p n bs p' n'"
    "seg (set_length a v m) p n bs p' n' \<longleftrightarrow> seg m p n bs p' n'"
  by (intro seg_untouched [of _ a] assms header_bytes; assumption)+

lemma seg_relink:
  "seg m p n (d # ds) p' n' \<Longrightarrow> (\<And>e. e \<in> set ds \<Longrightarrow> apart (addr d) (addr e)) \<Longrightarrow>
     seg (set_prev (addr d) q m) q n (d # ds) p' n'"
  by auto

lemma last_addr_merge:
  "last_addr (pre @ Block (addr b) u l # post) = (if post = [] then addr b else last_addr (pre @ b # c # post))"
  by (simp add: last_addr_def)

lemma merge_next_free:
  assumes inv: "heap_inv pgd s (pre @ b # c # post)" and free: "\<not> used c"
  shows "heap_inv pgd (s\<lparr>mem := merge_next (addr b) (mem s)\<rparr>)
    (pre @ Block (addr b) (used b) (len b + len c) # post)"
proof -
  let ?bs = "pre @ b # c # post" and ?new = "Block (addr b) (used b) (len b + len c)"
  let ?L = "h_length (mem s) (addr b) + h_length (mem s) (addr c)"
  let ?v = "h_next (mem s) (addr c)"
  define m1 where "m1 = set_length (addr b) ?L (mem s)"
  define m2 where "m2 = (if post = [] then m1 else set_prev (addr (hd post)) (addr b) m1)"
  define m where "m = set_next (addr b) ?v m2"
  have b: "seg (mem s) 0 (first s) pre (h_prev (mem s) (addr b)) (addr b)"
      "h_used (mem s) (addr b) = (if used b then 1 else 0)" "h_next (mem s) (addr b) = addr c"
      "unat (h_length (mem s) (addr b)) = len b" "h_used (mem s) (addr c) = 0"
      "unat (h_length (mem s) (addr c)) = len c" "seg (mem s) (addr c) ?v post (last_addr ?bs) 0"
    using inv free by (auto simp: heap_inv_def seg_append)
  have nz: "addr c \<noteq> 0" using heap_block(5) [OF inv, of c] by simp
  have ap: "apart (addr b) (addr d)" if "d \<in> set pre \<or> d = c \<or> d \<in> set post" for d
    using heap_apart_any [OF inv, of d] that by auto
  have ap': "apart (addr d) (addr e)" if "post = d # ds" "e \<in> set ds \<or> e = b \<or> e = c \<or> e \<in> set pre" for d ds e
    using heap_apart_any [of pgd s "pre @ [b, c]" d ds e] inv that by auto
  have v: "?v = (if post = [] then 0 else addr (hd post))" using b(7) by (cases post) auto
  have vz: "post = d # ds \<Longrightarrow> addr d \<noteq> 0" for d ds using heap_block(5) [OF inv, of d] by auto
  have tail: "seg m (addr b) ?v post (last_addr (pre @ ?new # post)) 0"
  proof (cases post)
    case Nil
    then show ?thesis using v by (simp add: last_addr_def)
  next
    case (Cons d ds)
    have "seg m1 (addr c) ?v (d # ds) (last_addr ?bs) 0" using b(7) ap Cons by (auto simp: m1_def)
    then have "seg m2 (addr b) ?v (d # ds) (last_addr ?bs) 0"
      using seg_relink [of m1 "addr c" ?v d ds "last_addr ?bs" 0 "addr b"] ap' [OF Cons] Cons
      by (simp add: m2_def del: seg.simps)
    then have "seg m (addr b) ?v (d # ds) (last_addr ?bs) 0"
      unfolding m_def using ap Cons by (subst seg_set) auto
    moreover have "last_addr (pre @ ?new # post) = last_addr ?bs" using Cons by (simp add: last_addr_def)
    ultimately show ?thesis using Cons by (simp del: seg.simps)
  qed
  have front: "seg m 0 (first s) pre (h_prev (mem s) (addr b)) (addr b)"
    using b(1) ap ap' by (cases post) (auto simp: m_def m2_def m1_def)
  have "?L < 2 ^ 31" "unat ?L = len b + len c"
    using b(4,6) block_len_small [OF inv, of b] block_len_small [OF inv, of c]
    by (simp_all add: unat_plus_if' word_less_nat_alt)
  then have mid: "h_prev m (addr b) = h_prev (mem s) (addr b)" "h_used m (addr b) = h_used (mem s) (addr b)"
      "h_next m (addr b) = ?v" "unat (h_length m (addr b)) = len b + len c"
    using ap' by (cases post; simp add: m_def m2_def m1_def header_same(16))+
  have eq: "merge_next (addr b) (mem s) = m"
    using b(3,5) nz ap [of c] v vz ap'
    by (cases post) (simp_all add: merge_next_def Let_def m_def m2_def m1_def apart_commute)
  have "m x = mem s x" if "x < V_MM_START" for x
    using that header_above [of _ x] heap_block [OF inv, of b] heap_block [OF inv, of "hd post"]
    by (cases post) (auto simp: m_def m2_def m1_def)
  then have "window_ok pgd (s\<lparr>mem := m\<rparr>)" using inv by (intro window_write) (auto simp: heap_inv_def)
  moreover have "heap_end (pre @ ?new # post) = heap_end ?bs" by (simp add: heap_end_def)
  moreover have "contig (unat V_MM_START) (pre @ ?new # post) (heap_end ?bs)"
    using inv by (auto simp: heap_inv_def contig_append add.assoc)
  ultimately show ?thesis
    using inv front mid tail b(2) unfolding eq by (auto simp: heap_inv_def seg_append)
qed


text \<open>\<open>merge_prev\<close> does nothing when there is no free block in front.\<close>

lemma merge_prev_used:
  assumes "heap_inv pgd s (pre @ b # post)" "pre = [] \<or> used (last pre)"
  shows "merge_prev (addr b) (mem s) = (mem s, addr b)"
proof (cases pre rule: rev_cases)
  case Nil
  then show ?thesis using assms(1) by (auto simp: heap_inv_def merge_prev_def)
next
  case (snoc pre' a)
  then show ?thesis
    using assms by (auto simp: heap_inv_def merge_prev_def seg_append)
qed

lemma h_next_tail:
  assumes "heap_inv pgd s (pre @ b # c # post)"
  shows "h_next (mem s) (addr b) = addr c" "addr c \<noteq> 0"
  using assms heap_block(5) [OF assms, of c] by (auto simp: heap_inv_def seg_append)

lemma merge_next_frames:
  assumes inv: "heap_inv pgd s (pre @ b # c # post)" and d: "d \<in> set (pre @ b # c # post)" "payload d x"
  shows "merge_next (addr b) (mem s) x = mem s x"
proof -
  have nx: "h_next (mem s) (addr c) = (if post = [] then 0 else addr (hd post))"
    using inv by (cases post) (auto simp: heap_inv_def seg_append)
  have ap: "apart (addr b) (addr c)" using heap_apart_any [OF inv, of c] by simp
  have nr: "\<not> in_range (addr e) 12 x" if "e = b \<or> post \<noteq> [] \<and> e = hd post" for e
    using payload_not_header [OF inv, of e d x] d that by (cases post) auto
  have "h_next (set_length (addr b) l (mem s)) (addr b) = addr c" for l
    using h_next_tail [OF inv] by simp
  then show ?thesis
    using h_next_tail [OF inv] nx nr [of b] nr [of "hd post"] ap
    by (cases post) (simp_all add: merge_next_def Let_def)
qed

text \<open>C27: giving back the block at a header address, when the block in front, if any, is in use and the free
  memory does not come to lie at the end of the heap (the block has a successor, and if that is free it has
  one, too; otherwise the end of the heap is given to \<open>_free_memory\<close>): the block becomes free, is merged
  with a free successor, and the list stays well formed. Headers are all that is written: the bytes behind
  the header of every block, the one given back and its successor included, are unchanged.\<close>

theorem kfree_node_coalesces:
  assumes "heap_inv pgd s (pre @ b # c # post)" "pre = [] \<or> used (last pre)" "used c \<or> post \<noteq> []"
  shows "\<exists>s'. kfree_node pgd g (addr b) s = Inr s' \<and>
    heap_inv pgd s' (pre @ coalesce (with_used False b) (c # post)) \<and>
    (\<forall>d \<in> set (pre @ b # c # post). \<forall>x. payload d x \<longrightarrow> mem s' x = mem s x)"
proof -
  define s1 where "s1 = s\<lparr>mem := set_used (addr b) 0 (mem s)\<rparr>"
  have i1: "heap_inv pgd s1 (pre @ with_used False b # c # post)"
    unfolding s1_def by (rule set_used_inv [OF assms(1)]) simp
  define s2 where "s2 = s1\<lparr>mem := merge_next (addr b) (mem s1)\<rparr>"
  have "s2 = s1" if "used c" using merge_next_used [OF i1 that] by (simp add: s2_def)
  then have i2: "heap_inv pgd s2 (pre @ coalesce (with_used False b) (c # post))"
    using merge_next_free [OF i1] i1 by (auto simp: s2_def)
  obtain b' d post' where bs: "coalesce (with_used False b) (c # post) = b' # d # post'" "addr b' = addr b"
    using assms(3) by (cases "used c"; cases post) (simp_all add: with_used_def)
  have "merge_prev (addr b) (mem s2) = (mem s2, addr b)" "h_next (mem s2) (addr b) \<noteq> 0"
    using merge_prev_used [OF i2 [unfolded bs(1)] assms(2)] h_next_tail [OF i2 [unfolded bs(1)]] bs(2)
    by simp_all
  then have r: "kfree_node pgd g (addr b) s = Inr s2"
    by (simp add: kfree_node_def s2_def s1_def Let_def)
  have "mem s2 x = mem s x" if d: "d \<in> set (pre @ b # c # post)" "payload d x" for d x
  proof -
    have "payload (if d = b then with_used False b else d) x" using d(2) by (auto simp: payload_def)
    moreover have "(if d = b then with_used False b else d) \<in> set (pre @ with_used False b # c # post)" using d(1) by auto
    ultimately have "merge_next (addr b) (mem s1) x = mem s1 x" using merge_next_frames [OF i1] by simp
    then show ?thesis using payload_not_header [OF assms(1), of b d x] d by (simp add: s2_def s1_def)
  qed
  then show ?thesis using r i2 by blast
qed

theorem kfree_node_coalesces_witness:
  "\<exists>s s'. kfree_node demo_pgd 0 0xE0000000 (s :: heap_state) = Inr s' \<and>
    heap_inv demo_pgd s' [Block 0xE0000000 False 144, Block 0xE0000090 True 32]"
proof -
  obtain s :: heap_state where s: "heap_inv demo_pgd s
    ([Block 0xE0000000 True 112] @ Block 0xE0000070 True 32 # [Block 0xE0000090 True 32])"
    by (rule demo_three) simp
  define t where "t = s\<lparr>mem := set_used 0xE0000070 0 (mem s)\<rparr>"
  have "heap_inv demo_pgd t
    ([] @ Block 0xE0000000 True 112 # Block 0xE0000070 False 32 # [Block 0xE0000090 True 32])"
    using set_used_inv [OF s, of 0 False] by (simp add: with_used_def t_def)
  from kfree_node_coalesces [OF this, of 0] show ?thesis by (auto simp: with_used_def)
qed

text \<open>Merging with a free block in front is incomplete: \<open>kfree\<close> adds the two lengths, but
  never unlinks the block it was given. The enlarged free block still has it as successor, so
  its header now lies inside memory the heap regards as free.\<close>

theorem kfree_node_merges_stale:
  assumes "heap_inv pgd s (pre @ a # b # c # post)" "\<not> used a" "used c" "pre = [] \<or> used (last pre)"
  shows "\<exists>s'. kfree_node pgd g (addr b) s = Inr s' \<and> h_used (mem s') (addr a) = 0 \<and>
    unat (h_length (mem s') (addr a)) = len a + len b \<and> h_next (mem s') (addr a) = addr b \<and>
    payload (Block (addr a) False (len a + len b)) (addr b)"
proof -
  have i0: "heap_inv pgd s ((pre @ [a]) @ b # c # post)" using assms(1) by simp
  define s1 where "s1 = s\<lparr>mem := set_used (addr b) 0 (mem s)\<rparr>"
  have i1: "heap_inv pgd s1 ((pre @ [a]) @ with_used False b # c # post)"
    unfolding s1_def by (rule set_used_inv [OF i0]) simp
  have n: "merge_next (addr b) (mem s1) = mem s1" using merge_next_used [OF i1 assms(3)] by simp
  have f: "h_used (mem s1) (addr a) = 0" "h_next (mem s1) (addr a) = addr b"
      "unat (h_length (mem s1) (addr a)) = len a" "unat (h_length (mem s1) (addr b)) = len b"
      "h_prev (mem s1) (addr b) = addr a" "h_prev (mem s1) (addr a) = last_addr pre"
      "unat (addr b) = unat (addr a) + len a"
    using i1 assms(2) seg_last by (fastforce simp: heap_inv_def seg_append contig_append last_addr_def)+
  have nz: "addr a \<noteq> 0" "12 \<le> len a" "12 \<le> len b" "addr b \<noteq> 0"
    using heap_block [OF assms(1), of a] heap_block [OF assms(1), of b] by auto
  let ?L = "h_length (mem s1) (addr b) + h_length (mem s1) (addr a)"
  have L: "?L < 2 ^ 31" "unat ?L = len b + len a"
    using f(3,4) block_len_small [OF assms(1), of a] block_len_small [OF assms(1), of b]
    by (simp_all add: unat_plus_if' word_less_nat_alt)
  have ap: "apart (addr a) (addr b)" and
    app: "pre \<noteq> [] \<Longrightarrow> apart (addr (last pre)) (addr a) \<and> apart (addr (last pre)) (addr b)"
    using heap_apart_any [OF assms(1), of b] heap_apart_any [OF assms(1), of "last pre"]
      heap_apart_any [OF i0, of "last pre"] by (simp_all add: apart_commute)
  define m where "m = set_length (addr a) ?L (mem s1)"
  define m' where "m' = (if pre = [] then m else set_next (addr (last pre)) (addr a) m)"
  have pz: "last_addr pre = 0 \<longleftrightarrow> pre = []"
    using heap_block(5) [OF assms(1), of "last pre"] by (auto simp: last_addr_def)
  have "merge_prev (addr b) (mem s1) = (m', addr a)"
    using f nz ap pz app by (auto simp: merge_prev_def Let_def m_def m'_def last_addr_def)
  moreover have m': "h_used m' (addr a) = 0" "h_next m' (addr a) = addr b"
      "unat (h_length m' (addr a)) = len a + len b"
    using f app L by (auto simp: m_def m'_def header_same(16))
  ultimately have "kfree_node pgd g (addr b) s = Inr (s1\<lparr>mem := m'\<rparr>)"
    using n nz(4) by (simp add: kfree_node_def s1_def Let_def)
  moreover have "payload (Block (addr a) False (len a + len b)) (addr b)"
    using f(7) nz by (simp add: payload_def)
  ultimately show ?thesis using m' by auto
qed

theorem kfree_node_merges_stale_witness:
  "\<exists>s s'. kfree_node demo_pgd 0 0xE0000070 (s :: heap_state) = Inr s' \<and>
    h_next (mem s') 0xE0000000 = 0xE0000070 \<and> unat (h_length (mem s') 0xE0000000) = 144"
proof -
  obtain s :: heap_state where s: "heap_inv demo_pgd s ([] @ Block 0xE0000000 False 112 #
      Block 0xE0000070 True 32 # Block 0xE0000090 True 32 # [])"
    by (rule demo_first_free) simp
  from kfree_node_merges_stale [OF s, of 0] show ?thesis by auto
qed

lemma h_used_block:
  "heap_inv pgd s (pre @ b # post) \<Longrightarrow> h_used (mem s) (addr b) = (if used b then 1 else 0)"
  by (auto simp: heap_inv_def seg_append)

lemma heap_payload_change:
  assumes "heap_inv pgd s bs" "\<And>x. m x \<noteq> mem s x \<Longrightarrow> \<exists>b \<in> set bs. payload b x"
  shows "heap_inv pgd (s\<lparr>mem := m\<rparr>) bs"
proof -
  have "m x = mem s x" if "c \<in> set bs" "in_range (addr c) 12 x" for c x
    using assms(2) [of x] payload_not_header [OF assms(1) that(1)] that(2) by blast
  then have "seg m p n bs p' n' \<longleftrightarrow> seg (mem s) p n bs p' n'" for p n p' n'
    using seg_cong [of bs m "mem s"] by blast
  moreover have "m x = mem s x" if "x < V_MM_START" for x
  proof (rule ccontr)
    assume "m x \<noteq> mem s x"
    then obtain b where b: "b \<in> set bs" "payload b x" using assms(2) by blast
    show False using heap_block(1) [OF assms(1) b(1)] b(2) that
      by (simp add: payload_def word_less_nat_alt)
  qed
  then have "window_ok pgd (s\<lparr>mem := m\<rparr>)"
    using assms(1) by (intro window_write) (simp_all add: heap_inv_def)
  ultimately show ?thesis using assms(1) by (simp add: heap_inv_def)
qed

text \<open>Callers cannot disturb the allocator by staying inside their blocks: any change to bytes
  that all lie in payloads keeps the heap well formed.\<close>

theorem payload_writes_keep_heap:
  assumes "heap_inv pgd s bs" "\<And>x. m x \<noteq> mem s x \<Longrightarrow> \<exists>b \<in> set bs. payload b x"
  shows "heap_inv pgd (s\<lparr>mem := m\<rparr>) bs"
  using assms by (rule heap_payload_change)

theorem payload_writes_keep_heap_witness:
  "\<exists>s :: heap_state. heap_inv demo_pgd (s\<lparr>mem := (mem s)(0xE0000010 := 7)\<rparr>)
     [Block 0xE0000000 True 112, Block 0xE0000070 True 32, Block 0xE0000090 True 32]"
proof -
  obtain s :: heap_state where "heap_inv demo_pgd s
     [Block 0xE0000000 True 112, Block 0xE0000070 True 32, Block 0xE0000090 True 32]"
    by (rule demo_three)
  note s = this
  have "\<exists>b \<in> set [Block 0xE0000000 True 112, Block 0xE0000070 True 32, Block 0xE0000090 True 32]. payload b x"
    if "((mem s)(0xE0000010 := 7)) x \<noteq> mem s x" for x
    using that by (simp add: payload_def split: if_splits)
  then show ?thesis using payload_writes_keep_heap [OF s] by blast
qed

text \<open>C38: \<open>kfree\<close> of a pointer that \<open>kmalloc\<close> returned does not release the block: the header it
  works on lies 132 bytes in front of the block's header. When what it finds there asks for
  no merge, the block is still in use afterwards.\<close>

theorem kfree_misses:
  assumes "heap_inv pgd s (pre @ b # post)" "used b" "kfree pgd g (addr b + 12) s = Inr s'"
    and "h_next (mem s) (addr b - 132) \<noteq> 0" "h_prev (mem s) (addr b - 132) = 0"
    and "h_used (mem s) (h_next (mem s) (addr b - 132)) = 1" "apart (addr b - 132) (h_next (mem s) (addr b - 132))"
  shows "mem s' = set_used (addr b - 132) 0 (mem s) \<and> h_used (mem s') (addr b) = 1"
proof -
  have "unat (addr b - 132) = unat (addr b) - 132"
    using heap_block [OF assms(1), of b] by (simp add: unat_sub_if')
  then have "apart (addr b - 132) (addr b)"
    using heap_block [OF assms(1), of b] by (simp add: apart_def)
  moreover have "h_used (mem s) (addr b) = 1" using assms(1,2) by (auto simp: heap_inv_def seg_append)
  moreover have "addr b + 12 - 144 = addr b - 132" by simp
  ultimately show ?thesis
    using assms(3-7) by (auto simp: kfree_def kfree_node_def merge_next_def merge_prev_def Let_def)
qed


theorem kfree_misses_witness:
  "\<exists>s s'. kfree demo_pgd 0 0xE000009C (s :: heap_state) = Inr s' \<and> h_used (mem s') 0xE0000090 = 1 \<and>
     mem s' = set_used 0xE000000C 0 (mem s)"
proof -
  let ?bs = "[Block 0xE0000000 True 112, Block 0xE0000070 True 32, Block 0xE0000090 True 32]"
  obtain s0 :: heap_state where s0: "heap_inv demo_pgd s0 ?bs" by (rule demo_three)
  define s where "s = s0\<lparr>mem := set_next 0xE000000C 0xE0000070 (set_prev 0xE000000C 0 (mem s0))\<rparr>"
  have ap: "apart 0xE000000C 0xE0000070" by (simp add: apart_def)
  have "payload (Block 0xE0000000 True 112) x" if "mem s x \<noteq> mem s0 x" for x
  proof -
    have "in_range 0xE000000C 12 x" using that by (rule_tac ccontr) (simp add: s_def)
    then show ?thesis by (simp add: in_range_nat payload_def)
  qed
  then have "heap_inv demo_pgd (s0\<lparr>mem := mem s\<rparr>) ?bs"
    by (intro heap_payload_change [OF s0]) auto
  then have i: "heap_inv demo_pgd s ([Block 0xE0000000 True 112, Block 0xE0000070 True 32]
      @ Block 0xE0000090 True 32 # [])" by (simp add: s_def)
  have f: "h_next (mem s) 0xE000000C = 0xE0000070" "h_prev (mem s) 0xE000000C = 0"
    by (simp_all add: s_def)
  moreover have u: "h_used (mem s) 0xE0000070 = 1"
    using h_used_block [of demo_pgd s "[Block 0xE0000000 True 112]" "Block 0xE0000070 True 32"] i by simp
  ultimately have "kfree demo_pgd 0 0xE000009C s = Inr (s\<lparr>mem := set_used 0xE000000C 0 (mem s)\<rparr>)"
    using ap by (simp add: kfree_def kfree_node_def merge_next_def merge_prev_def Let_def)
  moreover from kfree_misses [OF i, of 0] this f u ap
  have "h_used (set_used 0xE000000C 0 (mem s)) 0xE0000090 = 1" by simp
  ultimately show ?thesis by (rule_tac exI [of _ s]) simp
qed

text \<open>When the last block is given back and the heap shrinks by a page, the loop looks up
  \<open>mm_top\<close> itself, the page above the one it gives up. Nothing is mapped there, so
  \<open>get_mapping\<close> leaves \<open>page\<close> unset: what goes onto the frame stack is the stale content of
  a local variable, and the page given up stays mapped.\<close>

theorem free_memory_pushes_garbage:
  assumes "window_ok pgd s" "pg_top s \<noteq> PAGE_MAX_SIZE" "unat (mm_top s) < 0xFFFFF000"
    and "V_MM_START \<le> node" "mm_top s - PAGE_SIZE \<ge> node" "mm_top s - 2 * PAGE_SIZE < node"
  shows "\<exists>s'. free_memory_loop pgd node page s = Inr s' \<and> frames s' = page # frames s \<and>
    mm_top s' = mm_top s - PAGE_SIZE \<and> (\<forall>v. pte_entry (mem s') pgd v = pte_entry (mem s) pgd v)"
proof -
  let ?t = "mm_top s" and ?u = "unmap pgd (mm_top s) s"
  have w: "paging_inv pgd s" "stack_ok s" "page_aligned ?t" "V_MM_START \<le> ?t"
      "\<And>v. V_MM_START \<le> v \<Longrightarrow> pte_entry (mem s) pgd v \<noteq> 0 \<longleftrightarrow> v < ?t"
    using assms(1) by (auto simp: window_ok_def)
  have none: "pte_entry (mem s) pgd v = 0" if "?t \<le> v" for v using w(5) [of v] order_trans [OF w(4) that] that leD by blast
  obtain k where k: "unat ?t = 4096 * k" using w(3) by (auto elim!: dvdE)
  then have "unat ?t + 4096 < 2 ^ 32" using assms(3) by simp
  then have same: "pte_entry (mem ?u) pgd v = pte_entry (mem s) pgd v" for v
    using unmap_facts(3) [OF w(1), of ?t v] page_of_top [OF w(3), of v] none [of v] by auto
  obtain s1 where s1: "free_page page ?u = Inr s1" "frames s1 = page # frames s" "mem s1 = mem ?u"
      "mm_top s1 = ?t"
    using free_page_spec [of ?u page] assms(2) w(2) unmap_facts(2) [OF w(1), of ?t]
    by (auto simp: free_page_def frames_def stack_ok_def split: if_splits)
  let ?s' = "s1\<lparr>mm_top := ?t - PAGE_SIZE\<rparr>"
  have stop: "\<not> node \<le> ?t - 8192" using assms(6) by (simp add: not_le)
  have "free_memory_loop pgd node page s = free_memory_loop pgd node page ?s'"
    using assms(5) none [of ?t] s1(1,4)
    by (intro trans [OF free_memory_loop.simps]) (simp add: get_mapping_entry)
  also have "\<dots> = Inr ?s'"
    using stop by (intro trans [OF free_memory_loop.simps]) simp
  finally show ?thesis using s1(2,3) same by simp
qed


text \<open>The first heap grown by one page.\<close>

lemma demo_grown:
  obtains t :: heap_state where "window_ok demo_pgd t" "mm_top t = 0xE0001000" "pg_top t \<noteq> PAGE_MAX_SIZE"
proof -
  have w: "window_ok demo_pgd empty_heap" using empty_heap_inv by (simp add: heap_inv_def)
  obtain s1 where a: "alloc_page empty_heap = Inr (0x208000, s1)" "pg_top s1 = 7" "mm_top s1 = 0xE0000000"
    by (auto simp: alloc_page_def)
  have "frames s1 \<noteq> []" using a(2) by (simp add: frames_empty_iff)
  then obtain s2 where m: "map_page demo_pgd (mm_top s1) 0x208000 3 s1 = Inr s2"
    using map_page_Inl by (metis sum.exhaust)
  let ?t = "s2\<lparr>mm_top := mm_top s2 + PAGE_SIZE\<rparr>"
  note g = grow_step [OF w _ _ a(1) m, of "0xE0000001"]
  have "mm_top ?t = 0xE0001000" using heap_fields_map [OF m] a(3) by simp
  moreover have "pg_top ?t \<noteq> PAGE_MAX_SIZE" using map_page_pg_top [OF m] a(2) by auto
  ultimately show thesis using that [of ?t] g by simp
qed

theorem free_memory_pushes_garbage_witness:
  "\<exists>s s'. free_memory_loop demo_pgd 0xE0000000 0xDEADBEEF (s :: heap_state) = Inr s' \<and>
    frames s' = 0xDEADBEEF # frames s"
proof -
  obtain t :: heap_state where t: "window_ok demo_pgd t" "mm_top t = 0xE0001000" "pg_top t \<noteq> PAGE_MAX_SIZE"
    by (rule demo_grown)
  from free_memory_pushes_garbage [OF t(1,3), where node = "0xE0000000" and page = "0xDEADBEEF"] t(2) show ?thesis by auto
qed

end
