(* ===== verification/Footprint.thy ===== *)
theory Footprint
  imports Heap_Correct
begin

text \<open>
  What an allocation may write below the heap: the directory, its page tables and the pages that wait
  on the frame stack. Everything else, program variables included, is left alone by \<open>kmalloc\<close>, and
  writing it does not disturb the allocator.
\<close>

section \<open>The cells of the page tables\<close>

definition page_cell :: "u32 \<Rightarrow> 'a vm_state_scheme \<Rightarrow> u32 \<Rightarrow> bool" where
  "page_cell pgd s x \<longleftrightarrow> in_range pgd 4096 x \<or>
     (\<exists>i < 1024. present (mem s) pgd i \<and> in_range (table (mem s) pgd i) 4096 x) \<or>
     (\<exists>f \<in> set (frames s). in_range (f + PAGE_OFFSET) 4096 x)"

lemma load_cell_cong:
  assumes "page_aligned a" "i < 1024" "\<And>x. in_range a 4096 x \<Longrightarrow> m' x = m x"
  shows "load32 m' (a + 4 * i) = load32 m (a + 4 * i)"
  using assms cell_in_page [of a i] by (intro load32_cong) blast

lemma page_cell_cong:
  assumes inv: "paging_inv pgd s" and eq: "\<And>x. page_cell pgd s x \<Longrightarrow> mem s' x = mem s x"
    and fr: "frames s' = frames s"
  shows "paging_inv pgd s'" and "pte_entry (mem s') pgd v = pte_entry (mem s) pgd v"
    and "page_cell pgd s' x = page_cell pgd s x"
proof -
  have kp: "kpage pgd" using paging_invD(1) [OF inv] .
  have pde: "load32 (mem s') (pgd + 4 * i) = load32 (mem s) (pgd + 4 * i)" if "i < 1024" for i
    by (rule load_cell_cong) (use kp that eq in \<open>auto simp: page_cell_def\<close>)
  then have pt: "present (mem s') pgd i = present (mem s) pgd i" "table (mem s') pgd i = table (mem s) pgd i"
    if "i < 1024" for i
    using that by (simp_all add: present_def table_def)
  show "paging_inv pgd s'" using inv unfolding paging_inv_def fr by (simp add: pt)
  show "page_cell pgd s' x = page_cell pgd s x" unfolding page_cell_def fr using pt by auto
  show "pte_entry (mem s') pgd v = pte_entry (mem s) pgd v"
  proof (cases "present (mem s) pgd (PGD_INDEX v)")
    case True
    have "load32 (mem s') (table (mem s) pgd (PGD_INDEX v) + 4 * PTE_INDEX v) =
        load32 (mem s) (table (mem s) pgd (PGD_INDEX v) + 4 * PTE_INDEX v)"
      by (rule load_cell_cong) (use True in \<open>auto simp: page_cell_def intro!: eq exI [of _ "PGD_INDEX v"]\<close>)
    then show ?thesis using True by (simp add: pte_entry_def pt)
  qed (simp add: pte_entry_def pt)
qed

lemma alloc_page_cells:
  assumes "alloc_page s = Inr (f, s1)"
  shows "page_cell pgd s1 x \<Longrightarrow> page_cell pgd s x" "mem s1 = mem s"
  using alloc_page_Inr(1,3) [OF assms] by (auto simp: page_cell_def)

lemma new_table_cells:
  assumes "page_aligned pgd" "i < 1024" "\<not> in_range pgd 4096 x" "\<not> in_range (f + PAGE_OFFSET) 4096 x"
  shows "new_table m pgd i f x = m x"
  using assms cell_in_page [of pgd i x] by (auto simp: new_table_def fill_def intro!: store32_other)

lemma map_page_cells:
  assumes inv: "paging_inv pgd s" and r: "map_page pgd va pa flags s = Inr s'"
  shows "page_cell pgd s' x \<Longrightarrow> page_cell pgd s x" "\<not> page_cell pgd s x \<Longrightarrow> mem s' x = mem s x"
proof -
  let ?i = "PGD_INDEX va" and ?e = "(pa AND PAGE_MASK) OR flags"
  have kp: "page_aligned pgd" using paging_invD(1) [OF inv] by simp
  have "(page_cell pgd s' x \<longrightarrow> page_cell pgd s x) \<and> (\<not> page_cell pgd s x \<longrightarrow> mem s' x = mem s x)"
  proof (cases "present (mem s) pgd ?i")
    case True
    have s': "mem s' = store32 (mem s) (table (mem s) pgd ?i + 4 * PTE_INDEX va) ?e" "frames s' = frames s"
      using r True by (auto simp: map_page_present)
    have ne: "table (mem s) pgd ?i \<noteq> pgd" using paging_invD(2) [OF inv] True by simp
    have "page_cell pgd s' x \<longleftrightarrow> page_cell pgd s x"
      using pde_store_cell [OF kp table_aligned ne] by (simp add: page_cell_def s' cong: conj_cong)
    moreover have "mem s' x = mem s x" if "\<not> page_cell pgd s x"
      using that True cell_in_page [of "table (mem s) pgd ?i" "PTE_INDEX va" x]
      unfolding s' by (intro store32_other) (auto simp: page_cell_def)
    ultimately show ?thesis by blast
  next
    case False
    obtain f s1 where a: "alloc_page s = Inr (f, s1)"
      using r False by (cases "alloc_page s") (auto simp: map_page_def present_def Let_def)
    have f: "frames s = f # frames s1" using alloc_page_Inr(1) [OF a] .
    then have kf: "kpage (f + PAGE_OFFSET)" "f + PAGE_OFFSET \<noteq> pgd" using inv by (auto simp: paging_inv_def)
    let ?m = "new_table (mem s) pgd ?i f"
    have s': "mem s' = store32 ?m (f + PAGE_OFFSET + 4 * PTE_INDEX va) ?e" "frames s' = frames s1"
      using r map_page_absent [OF False a] by auto
    note view = new_table_view(1,2) [OF inv f index_lt(2) False]
    have "page_cell pgd s' x \<Longrightarrow> page_cell pgd s x"
      using pde_store_cell [OF kp kpage_aligned [OF kf(1)] kf(2)] view f by (auto simp: page_cell_def s' split: if_splits)
    moreover have "mem s' x = mem s x" if x: "\<not> page_cell pgd s x"
    proof -
      have nx: "\<not> in_range (f + PAGE_OFFSET) 4096 x" "\<not> in_range pgd 4096 x" using x f by (auto simp: page_cell_def)
      then have "mem s' x = ?m x"
        using cell_in_page [OF kpage_aligned [OF kf(1)], of "PTE_INDEX va" x] unfolding s' by (intro store32_other) auto
      then show ?thesis using new_table_cells [OF kp index_lt(2) nx(2,1)] by simp
    qed
    ultimately show ?thesis by blast
  qed
  then show "page_cell pgd s' x \<Longrightarrow> page_cell pgd s x" "\<not> page_cell pgd s x \<Longrightarrow> mem s' x = mem s x" by blast+
qed

lemma page_cell_low: "paging_inv pgd s \<Longrightarrow> page_cell pgd s x \<Longrightarrow> x < V_MM_START"
  using paging_invD(1,4,5) [of pgd s] kpage_window by (auto simp: page_cell_def)

section \<open>Allocation keeps to its cells\<close>

lemma page_cell_upd [simp]:
  "page_cell pgd (s\<lparr>first := f\<rparr>) = page_cell pgd s" "page_cell pgd (s\<lparr>mm_top := t\<rparr>) = page_cell pgd s"
  by (simp_all add: page_cell_def [abs_def])

lemma kmalloc_grow_cells:
  "window_ok pgd s \<Longrightarrow> unat lim \<le> 0xFFFFF000 \<Longrightarrow> kmalloc_grow pgd lim s = Inr s' \<Longrightarrow>
     (page_cell pgd s' x \<longrightarrow> page_cell pgd s x) \<and> (\<not> page_cell pgd s x \<longrightarrow> mem s' x = mem s x)"
proof (induction pgd lim s rule: kmalloc_grow.induct)
  case (1 pgd lim s)
  show ?case
  proof (cases "mm_top s < lim")
    case False
    then show ?thesis using "1.prems" by (subst (asm) kmalloc_grow.simps) simp
  next
    case True
    then obtain page s1 s2 where st: "alloc_page s = Inr (page, s1)"
        "map_page pgd (mm_top s1) page (1 OR 2) s1 = Inr s2"
        "kmalloc_grow pgd lim (s2\<lparr>mm_top := mm_top s2 + PAGE_SIZE\<rparr>) = Inr s'"
      using "1.prems"(3) by (subst (asm) kmalloc_grow.simps) (auto simp: bindE_eq_Inr)
    have i1: "paging_inv pgd s1" using "1.prems"(1) paging_inv_alloc [OF _ st(1)] by (simp add: window_ok_def)
    have w: "window_ok pgd (s2\<lparr>mm_top := mm_top s2 + PAGE_SIZE\<rparr>)"
      using grow_step(1) [OF "1.prems"(1) True "1.prems"(2) st(1)] st(2) by simp
    from "1.IH" [OF True st(1) refl st(2) w "1.prems"(2) st(3)]
    have "(page_cell pgd s' x \<longrightarrow> page_cell pgd s2 x) \<and> (\<not> page_cell pgd s2 x \<longrightarrow> mem s' x = mem s2 x)" by simp
    then show ?thesis
      using map_page_cells [OF i1 st(2), of x] alloc_page_cells(1) [OF st(1), of pgd x] alloc_page_cells(2) [OF st(1)] by metis
  qed
qed

lemma kmalloc_extend_cells:
  assumes inv: "heap_inv pgd s bs" and room: "heap_end bs + unat sz + 12 \<le> 0xFFFFF000"
    and r: "kmalloc_extend pgd (sz + 12) (last_addr bs) s = Inr (p, s')" and x: "\<not> page_cell pgd s x" "x < V_MM_START"
  shows "mem s' x = mem s x" "\<not> page_cell pgd s' x"
proof -
  define a where "a = (if last_addr bs \<noteq> 0 then last_addr bs + h_length (mem s) (last_addr bs) else V_MM_START)"
  have ua: "unat a = heap_end bs" unfolding a_def by (rule heap_end_addr [OF inv])
  have ge: "unat V_MM_START \<le> heap_end bs" by (simp add: heap_end_def)
  have usz: "unat (sz + 12) = unat sz + 12" using room ge by (simp add: unat_plus_if')
  have lim: "unat (a + (sz + 12)) \<le> 0xFFFFF000" using room ua usz by (simp add: unat_plus_if')
  define s1 where "s1 = (if last_addr bs \<noteq> 0 then s else s\<lparr>first := a\<rparr>)"
  obtain s2 where g: "kmalloc_grow pgd (a + (sz + 12)) s1 = Inr s2" and p: "p = a + 12"
    and s': "s' = s2\<lparr>mem := link_new a (last_addr bs) (sz + 12) (mem s2)\<rparr>"
    using r unfolding kmalloc_extend_eq Let_def a_def [symmetric] s1_def [symmetric]
    by (auto simp: bindE_eq_Inr)
  have w1: "window_ok pgd s1" using inv by (auto simp: s1_def heap_inv_def window_ok_def)
  have c1: "page_cell pgd s1 x = page_cell pgd s x" "mem s1 = mem s" by (simp_all add: s1_def)
  note g2 = kmalloc_grow_cells [OF w1 lim g, of x]
  have a12: "heap_end bs + 12 \<le> 2 ^ 32" using room by simp
  note low = link_new_low [OF inv ua a12]
  show "mem s' x = mem s x" using g2 c1 x low by (simp add: s')
  have w2: "paging_inv pgd s2" using kmalloc_grow_spec [OF w1 lim g] by (simp add: window_ok_def)
  have "page_cell pgd s' x = page_cell pgd s2 x"
  proof (rule page_cell_cong(3) [OF w2])
    show "mem s' y = mem s2 y" if "page_cell pgd s2 y" for y
      using low page_cell_low [OF w2 that] by (simp add: s')
  qed (simp add: s')
  then show "\<not> page_cell pgd s' x" using g2 c1 x by simp
qed

text \<open>
  Other code keeps the heap well formed when it writes the payload of blocks, and below the heap none of
  these cells.
\<close>

lemma heap_inv_change:
  assumes inv: "heap_inv pgd s bs" and fr: "frames s' = frames s" "pg_top s' = pg_top s" "first s' = first s" "mm_top s' = mm_top s"
    and ch: "\<And>x. mem s' x \<noteq> mem s x \<Longrightarrow> (\<exists>b \<in> set bs. payload b x) \<or> x < V_MM_START \<and> \<not> page_cell pgd s x"
  shows "heap_inv pgd s' bs" "page_cell pgd s' x = page_cell pgd s x"
proof -
  have w: "window_ok pgd s" and pv: "paging_inv pgd s" using inv by (simp_all add: heap_inv_def window_ok_def)
  have eq: "mem s' x = mem s x" if "page_cell pgd s x" for x
  proof (rule ccontr)
    assume "mem s' x \<noteq> mem s x"
    then obtain b where b: "b \<in> set bs" "payload b x" using ch [of x] \<open>page_cell pgd s x\<close> by blast
    then show False using heap_block(1) [OF inv b(1)] page_cell_low [OF pv that] by (simp add: payload_def word_less_nat_alt)
  qed
  show "page_cell pgd s' x = page_cell pgd s x" by (rule page_cell_cong(3) [OF pv eq fr(1)])
  have "paging_inv pgd s'" "\<And>v. pte_entry (mem s') pgd v = pte_entry (mem s) pgd v"
    using page_cell_cong(1,2) [of pgd s s'] pv eq fr(1) by auto
  then have "window_ok pgd s'" using w fr by (auto simp: window_ok_def stack_ok_def)
  moreover have "mem s' x = mem s x" if "c \<in> set bs" "in_range (addr c) 12 x" for c x
  proof -
    have "\<not> x < V_MM_START"
      using header_above [of "addr c" x] heap_block [OF inv that(1)] that(2) by auto
    then show ?thesis using ch [of x] payload_not_header [OF inv that(1)] that(2) by blast
  qed
  then have "seg (mem s') 0 (first s) bs (last_addr bs) 0 = seg (mem s) 0 (first s) bs (last_addr bs) 0"
    using seg_cong [of bs "mem s'" "mem s"] by blast
  ultimately show "heap_inv pgd s' bs" using inv fr by (simp add: heap_inv_def)
qed

lemma heap_inv_elsewhere:
  assumes "heap_inv pgd s bs" "frames s' = frames s" "pg_top s' = pg_top s" "first s' = first s" "mm_top s' = mm_top s"
    and "\<And>x. page_cell pgd s x \<or> V_MM_START \<le> x \<Longrightarrow> mem s' x = mem s x"
  shows "heap_inv pgd s' bs"
  using assms(6) by (intro heap_inv_change(1) [OF assms(1-5)]) (meson linorder_not_le)

section \<open>What allocation changes\<close>

text \<open>A state in which only memory, the top of the frame stack and the heap's two variables differ.\<close>

definition heap_moved :: "'a heap_state_scheme \<Rightarrow> 'a heap_state_scheme \<Rightarrow> bool" where
  "heap_moved s s' \<longleftrightarrow> s'\<lparr>mem := mem s, pg_top := pg_top s, first := first s, mm_top := mm_top s\<rparr> = s"

lemma heap_moved_upd [simp]:
  "heap_moved s (t\<lparr>mem := m\<rparr>) = heap_moved s t" "heap_moved s (t\<lparr>pg_top := g\<rparr>) = heap_moved s t"
  "heap_moved s (t\<lparr>first := f\<rparr>) = heap_moved s t" "heap_moved s (t\<lparr>mm_top := n\<rparr>) = heap_moved s t"
  "heap_moved s s"
  by (simp_all add: heap_moved_def)

lemma heap_moved_eq:
  fixes s s' :: "'a heap_state_scheme"
  assumes "heap_moved s s'"
  shows "s' = s\<lparr>mem := mem s', pg_top := pg_top s', first := first s', mm_top := mm_top s'\<rparr>"
proof -
  define f where "f = (\<lambda>z :: 'a heap_state_scheme. z\<lparr>mem := mem s', pg_top := pg_top s', first := first s', mm_top := mm_top s'\<rparr>)"
  have "f (s'\<lparr>mem := mem s, pg_top := pg_top s, first := first s, mm_top := mm_top s\<rparr>) = f s"
    using assms unfolding heap_moved_def by (rule arg_cong)
  then show ?thesis by (simp add: f_def)
qed

lemma alloc_page_moved: "alloc_page t = Inr (p, u) \<Longrightarrow> heap_moved s t \<Longrightarrow> heap_moved s u"
  by (auto simp: alloc_page_def split: if_splits)

lemma map_page_moved: "map_page pgd va pa flags t = Inr u \<Longrightarrow> heap_moved s t \<Longrightarrow> heap_moved s u"
  by (auto simp: map_page_def Let_def bindE_eq_Inr dest: alloc_page_moved split: if_splits)

lemma kmalloc_grow_moved: "kmalloc_grow pgd lim t = Inr u \<Longrightarrow> heap_moved s t \<Longrightarrow> heap_moved s u"
proof (induction pgd lim t rule: kmalloc_grow.induct)
  case (1 pgd lim t)
  show ?case
  proof (cases "mm_top t < lim")
    case False
    then show ?thesis using "1.prems" by (subst (asm) kmalloc_grow.simps) simp
  next
    case True
    then obtain page s1 s2 where st: "alloc_page t = Inr (page, s1)" "map_page pgd (mm_top s1) page (1 OR 2) s1 = Inr s2"
        "kmalloc_grow pgd lim (s2\<lparr>mm_top := mm_top s2 + PAGE_SIZE\<rparr>) = Inr u"
      using "1.prems"(1) by (subst (asm) kmalloc_grow.simps) (auto simp: bindE_eq_Inr)
    have "heap_moved s s2" using "1.prems"(2) alloc_page_moved [OF st(1)] map_page_moved [OF st(2)] by blast
    then show ?thesis using "1.IH" [OF True st(1) refl st(2,3)] by simp
  qed
qed

lemma kmalloc_moved: "kmalloc pgd sz s = Inr (p, s') \<Longrightarrow> heap_moved s s'"
  by (auto simp: kmalloc_def kmalloc_extend_eq Let_def bindE_eq_Inr elim!: kmalloc_grow_moved
      split: option.splits sum.splits if_splits)

section \<open>How many frames are left\<close>

text \<open>The pages that are missing up to an address; two frames suffice for each.\<close>

definition missing :: "nat \<Rightarrow> 'a heap_state_scheme \<Rightarrow> nat" where
  "missing lim s = (lim - unat (mm_top s) + 4095) div 4096"

lemma missing_step:
  assumes "unat (mm_top s) < lim" "unat (mm_top t) = unat (mm_top s) + 4096"
  shows "missing lim s = missing lim t + 1"
proof -
  define d where "d = lim - unat (mm_top s)"
  have d: "0 < d" "lim - unat (mm_top t) = d - 4096" using assms by (simp_all add: d_def)
  show ?thesis
  proof (cases "4096 \<le> d")
    case True
    then obtain e where "d = 4096 + e" using le_Suc_ex by blast
    then show ?thesis using d by (simp add: missing_def d_def [symmetric])
  next
    case False
    then have "(d + 4095) div 4096 = 1" using d(1) by (simp add: div_nat_eqI)
    then show ?thesis using d(2) False by (simp add: missing_def d_def [symmetric])
  qed
qed

lemma kmalloc_grow_frames:
  "window_ok pgd s \<Longrightarrow> unat lim \<le> 0xFFFFF000 \<Longrightarrow> kmalloc_grow pgd lim s = Inr s' \<Longrightarrow> unat lim \<le> L \<Longrightarrow>
     2 * missing L s \<le> length (frames s) \<Longrightarrow> 2 * missing L s' \<le> length (frames s')"
proof (induction pgd lim s rule: kmalloc_grow.induct)
  case (1 pgd lim s)
  show ?case
  proof (cases "mm_top s < lim")
    case False
    then show ?thesis using "1.prems" by (subst (asm) kmalloc_grow.simps) simp
  next
    case True
    then obtain page s1 s2 where st: "alloc_page s = Inr (page, s1)"
        "map_page pgd (mm_top s1) page (1 OR 2) s1 = Inr s2"
        "kmalloc_grow pgd lim (s2\<lparr>mm_top := mm_top s2 + PAGE_SIZE\<rparr>) = Inr s'"
      using "1.prems"(3) by (subst (asm) kmalloc_grow.simps) (auto simp: bindE_eq_Inr)
    let ?t = "s2\<lparr>mm_top := mm_top s2 + PAGE_SIZE\<rparr>"
    note g = grow_step [OF "1.prems"(1) True "1.prems"(2) st(1)] st(2)
    have w1: "paging_inv pgd s1" "stack_ok s1"
      using "1.prems"(1) paging_inv_alloc [OF _ st(1)] alloc_page_Inr(2) [OF st(1)] by (auto simp: window_ok_def)
    have "length (frames s) = length (frames s1) + 1" using alloc_page_Inr(1) [OF st(1)] by simp
    moreover have "length (frames s1) \<le> length (frames s2) + 1"
      using map_page_Inr(2) [OF w1 st(2)] by (simp split: if_splits)
    moreover have "missing L s = missing L ?t + 1"
      using missing_step [of s L ?t] True "1.prems"(4) g by (simp add: word_less_nat_alt)
    ultimately have "2 * missing L ?t \<le> length (frames ?t)" using "1.prems"(5) by simp
    moreover have "window_ok pgd ?t" using g by simp
    ultimately show ?thesis using "1.IH" [OF True st(1) refl st(2)] "1.prems"(2,4) st(3) by blast
  qed
qed

text \<open>
  Allocation at the end of a heap whose blocks are all in use: it succeeds, leaves enough frames for
  what is still planned up to \<open>L\<close>, and changes nothing but its cells and the heap.
\<close>

definition appended :: "block list \<Rightarrow> nat \<Rightarrow> block list" where
  "appended bs n = bs @ [Block (of_nat (heap_end bs)) True (n + 12)]"

lemma kmalloc_appends_frame:
  assumes inv: "heap_inv pgd s bs" and us: "\<And>b. b \<in> set bs \<Longrightarrow> used b"
    and room: "heap_end bs + unat sz + 12 \<le> L" "L \<le> 0xFFFFF000" and fr: "2 * missing L s \<le> length (frames s)"
  obtains s' where "kmalloc pgd sz s = Inr (of_nat (heap_end bs + 12), s')" "heap_inv pgd s' (appended bs (unat sz))"
    "heap_moved s s'" "2 * missing L s' \<le> length (frames s')"
    "\<And>x. \<not> page_cell pgd s x \<Longrightarrow> x < V_MM_START \<Longrightarrow> mem s' x = mem s x \<and> \<not> page_cell pgd s' x"
    "\<And>b x. b \<in> set bs \<Longrightarrow> payload b x \<Longrightarrow> mem s' x = mem s x"
proof -
  have m: "kmalloc pgd sz s = kmalloc_extend pgd (sz + 12) (last_addr bs) s"
    using us by (intro kmalloc_miss [OF inv]) (simp add: fits_def)
  have room': "heap_end bs + unat sz + 12 \<le> 0xFFFFF000" using room by simp
  have "missing (heap_end bs + unat sz + 12) s \<le> missing L s" using room(1) by (simp add: missing_def div_le_mono)
  then have "2 * ((heap_end bs + unat sz + 12 - unat (mm_top s) + 4095) div 4096) \<le> length (frames s)"
    using fr by (simp add: missing_def)
  from kmalloc_extend_enough [OF inv room' this] obtain p s' where r: "kmalloc_extend pgd (sz + 12) (last_addr bs) s = Inr (p, s')" by blast
  note spec = kmalloc_extend_spec [OF inv room' r]
  have p: "p = of_nat (heap_end bs + 12)" by (simp flip: spec(1))
  have "2 * missing L s' \<le> length (frames s')"
  proof -
    define a where "a = (if last_addr bs \<noteq> 0 then last_addr bs + h_length (mem s) (last_addr bs) else V_MM_START)"
    have ua: "unat a = heap_end bs" unfolding a_def by (rule heap_end_addr [OF inv])
    have "unat (sz + 12) = unat sz + 12" using room' by (simp add: unat_plus_if' heap_end_def)
    then have lim: "unat (a + (sz + 12)) = heap_end bs + unat sz + 12" using room' ua by (simp add: unat_plus_if')
    define s1 where "s1 = (if last_addr bs \<noteq> 0 then s else s\<lparr>first := a\<rparr>)"
    obtain s2 where g: "kmalloc_grow pgd (a + (sz + 12)) s1 = Inr s2"
      and s': "s' = s2\<lparr>mem := link_new a (last_addr bs) (sz + 12) (mem s2)\<rparr>"
      using r unfolding kmalloc_extend_eq Let_def a_def [symmetric] s1_def [symmetric] by (auto simp: bindE_eq_Inr)
    have w1: "window_ok pgd s1" using inv by (auto simp: s1_def heap_inv_def window_ok_def)
    have "2 * missing L s1 \<le> length (frames s1)" using fr by (simp add: s1_def missing_def)
    from kmalloc_grow_frames [OF w1 _ g _ this] show ?thesis using lim room by (simp add: s' missing_def)
  qed
  moreover have "heap_inv pgd s' (appended bs (unat sz))"
    using spec(2) p by (simp add: appended_def)
  ultimately show thesis
    using that [of s'] m r p kmalloc_moved [of pgd sz s p s'] kmalloc_extend_cells [OF inv room' r] spec(3) by simp
qed

end
