(* ===== verification/Demo.thy ===== *)
theory Demo
  imports Session Footprint
begin

text \<open>
  The demonstrations of \<open>src/test.c\<close>: the banner that \<open>_init\<close> shows, the menu, and what the keys F1
  (\<open>testMalloc\<close>) and F2 (\<open>testProcess\<close>) start, on a world, with the interrupts that arrive while they
  run. String literals, local arrays and functions have addresses that are arguments.
\<close>

section \<open>Addresses\<close>

text \<open>The string literals of \<open>src/test.c\<close>, without their NUL.\<close>

datatype literal = L_welcome | L_init_system | L_bar | L_f1 | L_f2
  | L_title | L_prompt | L_string | L_malloc | L_ask_size | L_number | L_started
  | L_free | L_ask_item | L_freed | L_exit | L_line_A | L_line_B | L_line_C
  | L_proc_title | L_ask_A | L_ask_B | L_ask_C | L_newline

primrec literal_text :: "literal \<Rightarrow> u8 list" where
  "literal_text L_welcome = ascii ''===============Welcome to OceanOS==============='' @ [10]"
| "literal_text L_init_system = ascii ''    Init system'' @ [10]"
| "literal_text L_bar = ascii ''==''"
| "literal_text L_f1 = ascii ''f1 ----------- test memory'' @ [10]"
| "literal_text L_f2 = ascii ''f2 ----------- test process'' @ [10]"
| "literal_text L_title = ascii ''Memory malloc and free test'' @ [10]"
| "literal_text L_prompt = ascii '' your code: ''"
| "literal_text L_string = ascii ''%s''"
| "literal_text L_malloc = ascii ''malloc''"
| "literal_text L_ask_size = ascii ''please input size : ''"
| "literal_text L_number = ascii ''%d''"
| "literal_text L_started = ascii ''the %d memory start from 0x%X'' @ [10, 10]"
| "literal_text L_free = ascii ''free''"
| "literal_text L_ask_item = ascii ''please input free item : ''"
| "literal_text L_freed = ascii ''the memory free at 0x%X'' @ [10, 10]"
| "literal_text L_exit = ascii ''exit''"
| "literal_text L_line_A = ascii '' * proc A : %s  %d* '' @ [10]"
| "literal_text L_line_B = ascii '' * proc B : %s  %d* '' @ [10]"
| "literal_text L_line_C = ascii '' * proc C : %s  %d* '' @ [10]"
| "literal_text L_proc_title = ascii ''process test'' @ [10]"
| "literal_text L_ask_A = ascii ''Process A print string : '' @ [10]"
| "literal_text L_ask_B = ascii ''Process B print string : '' @ [10]"
| "literal_text L_ask_C = ascii ''Process C print string : '' @ [10]"
| "literal_text L_newline = [10]"

text \<open>
  Where the literals, the functions, the directory and the local variables of the demonstrations are.
  \<open>a_empty\<close> is the literal \<open>""\<close> of \<open>getLast\<close>; \<open>stale_page\<close> is what \<open>_free_memory\<close> finds in its
  uninitialised variable, and \<open>stale_locals\<close> what the cells of the local variables hold once the function
  has returned and its stack is used again.
\<close>

record demo_image =
  lits :: "literal \<Rightarrow> u32"
  a_empty :: u32
  a_pgd_kern :: u32
  a_thread_exit :: u32
  a_testA :: u32
  a_testB :: u32
  a_testC :: u32
  stale_page :: u32
  a_code :: u32
  a_size :: u32
  a_id :: u32
  a_item :: u32
  a_strA :: u32
  a_strB :: u32
  a_strC :: u32
  stale_locals :: memory

section \<open>Banner and menu\<close>

definition w_clear :: "world \<Rightarrow> world" where
  "w_clear w = set_con w (monitor_clear (con w))"

definition w_printf_color :: "u32 \<Rightarrow> u32 \<Rightarrow> u32 \<Rightarrow> u32 list \<Rightarrow> world \<Rightarrow> world result option" where
  "w_printf_color back fore format ap = on_keysO (printf_color back fore format ap)"

text \<open>\<open>printf\<close> of a literal.\<close>

definition say :: "demo_image \<Rightarrow> literal \<Rightarrow> u32 list \<Rightarrow> world \<Rightarrow> world result option" where
  "say im l ap = w_printf (lits im l) ap"

definition ask :: "(u8 \<Rightarrow> world \<Rightarrow> world result) \<Rightarrow> demo_image \<Rightarrow> literal \<Rightarrow> u32 \<Rightarrow> world \<Rightarrow> world result option" where
  "ask run im l a = w_scanf run (a_empty im) (lits im l) [a]"

definition showMemu :: "demo_image \<Rightarrow> world \<Rightarrow> world result option" where
  "showMemu im w = bindO (say im L_f1 [] (w_clear w)) (say im L_f2 [])"

text \<open>The inner loop prints \<open>n\<close> bars.\<close>

primrec say_bars :: "demo_image \<Rightarrow> nat \<Rightarrow> world \<Rightarrow> world result option" where
  "say_bars im 0 w = Some (Inr w)"
| "say_bars im (Suc n) w = bindO (say im L_bar [] w) (say_bars im n)"

text \<open>The outer loop; \<open>n\<close> rounds are left of the 30, so \<open>i\<close> is \<open>30 - n\<close>.\<close>

primrec banner :: "(u8 \<Rightarrow> world \<Rightarrow> world result) \<Rightarrow> demo_image \<Rightarrow> nat \<Rightarrow> world \<Rightarrow> world result option" where
  "banner run im 0 w = Some (Inr w)"
| "banner run im (Suc n) w =
     (let i = 30 - Suc n
      in bindO (say im L_welcome [] w) (\<lambda>w.
         bindO (say im L_init_system [] w) (\<lambda>w.
         bindO (say_bars im (i + 1) w) (\<lambda>w.
         bindO (w_sleep run 20 w) (\<lambda>w.
         banner run im n (w_clear w))))))"

definition showStart :: "(u8 \<Rightarrow> world \<Rightarrow> world result) \<Rightarrow> demo_image \<Rightarrow> world \<Rightarrow> world result option" where
  "showStart run im w = bindO (banner run im 30 (w_clear w)) (showMemu im)"

section \<open>The memory demonstration\<close>

text \<open>One \<open>if (!strcmp(code, literal))\<close> of the loop.\<close>

definition when_code ::
    "demo_image \<Rightarrow> literal \<Rightarrow> (world \<Rightarrow> 'b result option) \<Rightarrow> (world \<Rightarrow> 'b) \<Rightarrow> world \<Rightarrow> 'b result option" where
  "when_code im l act skip w =
     (case strcmp (mem w) (a_code im) (lits im l) of
        None \<Rightarrow> None
      | Some r \<Rightarrow> if r = 0 then act w else Some (Inr (skip w)))"

text \<open>\<open>item\<close> has 20 elements; an index behind them is out of bounds.\<close>

definition cmd_malloc :: "(u8 \<Rightarrow> world \<Rightarrow> world result) \<Rightarrow> demo_image \<Rightarrow> nat \<Rightarrow> world \<Rightarrow> (nat \<times> world) result option" where
  "cmd_malloc run im p w =
     bindO (say im L_ask_size [] w) (\<lambda>w.
     bindO (ask run im L_number (a_size im) w) (\<lambda>w.
     bindO (Some (kmalloc (a_pgd_kern im) (load32 (mem w) (a_size im)) w)) (\<lambda>(v, w).
     if p \<ge> 20 then Some (Inl Undefined)
     else
       let w = w\<lparr>mem := store32 (mem w) (a_item im + 4 * of_nat p) v\<rparr>
       in bindO (say im L_started [load32 (mem w) (a_size im), load32 (mem w) (a_item im + 4 * of_nat p)] w) (\<lambda>w.
            Some (Inr (p + 1, w))))))"

definition cmd_free :: "(u8 \<Rightarrow> world \<Rightarrow> world result) \<Rightarrow> demo_image \<Rightarrow> world \<Rightarrow> world result option" where
  "cmd_free run im w =
     bindO (say im L_ask_item [] w) (\<lambda>w.
     bindO (ask run im L_number (a_id im) w) (\<lambda>w.
     let i = load32 (mem w) (a_id im); v = load32 (mem w) (a_item im + 4 * i)
     in if \<not> i < 20 then Some (Inl Undefined)
        else if v \<noteq> 0
        then bindO (Some (kfree (a_pgd_kern im) (stale_page im) v w)) (\<lambda>w.
               say im L_freed [load32 (mem w) (a_item im + 4 * i)] w)
        else Some (Inr w)))"

text \<open>One turn of the loop: \<open>p\<close>, \<open>flag\<close> and the world after it.\<close>

definition malloc_turn ::
    "(u8 \<Rightarrow> world \<Rightarrow> world result) \<Rightarrow> demo_image \<Rightarrow> nat \<Rightarrow> world \<Rightarrow> (nat \<times> bool \<times> world) result option" where
  "malloc_turn run im p w =
     bindO (say im L_prompt [] w) (\<lambda>w.
     bindO (ask run im L_string (a_code im) w) (\<lambda>w.
     bindO (when_code im L_malloc (cmd_malloc run im p) (\<lambda>w. (p, w)) w) (\<lambda>(p, w).
     bindO (when_code im L_free (cmd_free run im) (\<lambda>w. w) w) (\<lambda>w.
     when_code im L_exit (\<lambda>w. Some (Inr (p, False, w))) (\<lambda>w. (p, True, w)) w))))"

partial_function (option) malloc_loop ::
    "(u8 \<Rightarrow> world \<Rightarrow> world result) \<Rightarrow> demo_image \<Rightarrow> nat \<Rightarrow> world \<Rightarrow> world result option" where
  "malloc_loop run im p w =
     bindO (malloc_turn run im p w) (\<lambda>z.
       if fst (snd z) then malloc_loop run im (fst z) (snd (snd z)) else Some (Inr (snd (snd z))))"

definition testMalloc :: "(u8 \<Rightarrow> world \<Rightarrow> world result) \<Rightarrow> demo_image \<Rightarrow> world \<Rightarrow> world result option" where
  "testMalloc run im w =
     (let w = w_clear (w\<lparr>sti_flag := True\<rparr>)
      in bindO (say im L_title [] w) (\<lambda>w.
         bindO (malloc_loop run im 0 w) (showMemu im)))"

section \<open>The process demonstration\<close>

text \<open>
  The body of the threads: \<open>n\<close> turns are left of the 15, so \<open>k\<close> is \<open>15 - n\<close> after the increment. The
  functions return nothing, into \<open>thread_exit\<close>.
\<close>

primrec proc_lines ::
    "(u8 \<Rightarrow> world \<Rightarrow> world result) \<Rightarrow> u32 \<Rightarrow> u32 \<Rightarrow> u32 \<Rightarrow> nat \<Rightarrow> world \<Rightarrow> world result option" where
  "proc_lines run colour format str 0 w = Some (Inr w)"
| "proc_lines run colour format str (Suc n) w =
     (let k = 15 - n
      in bindO (w_printf_color colour colour format [str, of_nat k] w) (\<lambda>w.
         bindO (w_sleep run 2 w) (proc_lines run colour format str n)))"

definition testA :: "(u8 \<Rightarrow> world \<Rightarrow> world result) \<Rightarrow> demo_image \<Rightarrow> u32 \<Rightarrow> world \<Rightarrow> world result option" where
  "testA run im str = proc_lines run 4 (lits im L_line_A) str 15"

definition testB :: "(u8 \<Rightarrow> world \<Rightarrow> world result) \<Rightarrow> demo_image \<Rightarrow> u32 \<Rightarrow> world \<Rightarrow> world result option" where
  "testB run im str = proc_lines run 2 (lits im L_line_B) str 15"

definition testC :: "(u8 \<Rightarrow> world \<Rightarrow> world result) \<Rightarrow> demo_image \<Rightarrow> u32 \<Rightarrow> world \<Rightarrow> world result option" where
  "testC run im str = proc_lines run 1 (lits im L_line_C) str 15"

text \<open>The question for the string of one thread.\<close>

definition ask_string :: "(u8 \<Rightarrow> world \<Rightarrow> world result) \<Rightarrow> demo_image \<Rightarrow> literal \<Rightarrow> u32 \<Rightarrow> world \<Rightarrow> world result option" where
  "ask_string run im l a w =
     bindO (say im l [] w) (\<lambda>w. bindO (ask run im L_string a w) (say im L_newline []))"

definition start_thread :: "demo_image \<Rightarrow> u32 \<Rightarrow> u32 \<Rightarrow> world \<Rightarrow> world result option" where
  "start_thread im fn arg w =
     bindO (Some (init_thread (a_pgd_kern im) (a_thread_exit im) fn arg w)) (\<lambda>(pid, w). Some (Inr w))"

definition testProcess :: "(u8 \<Rightarrow> world \<Rightarrow> world result) \<Rightarrow> demo_image \<Rightarrow> world \<Rightarrow> world result option" where
  "testProcess run im w =
     (let w = w\<lparr>sti_flag := False\<rparr>
      in bindO (Some (init_timer 5 w)) (\<lambda>w.
         let w = w_clear (w\<lparr>sti_flag := True\<rparr>)
         in bindO (say im L_proc_title [] w) (\<lambda>w.
            bindO (ask_string run im L_ask_A (a_strA im) w) (\<lambda>w.
            bindO (ask_string run im L_ask_B (a_strB im) w) (\<lambda>w.
            bindO (ask_string run im L_ask_C (a_strC im) w) (\<lambda>w.
            bindO (start_thread im (a_testA im) (a_strA im) w) (\<lambda>w.
            bindO (start_thread im (a_testB im) (a_strB im) w) (\<lambda>w.
            start_thread im (a_testC im) (a_strC im) w))))))))"

section \<open>Where they are started\<close>

text \<open>The cells of the local variables of \<open>testMalloc\<close> (key 1) and of \<open>testProcess\<close> (key 2).\<close>

definition demo_locals :: "demo_image \<Rightarrow> u8 \<Rightarrow> u32 \<Rightarrow> bool" where
  "demo_locals im i x \<longleftrightarrow>
     (if i = 1 then in_range (a_code im) 20 x \<or> in_range (a_size im) 4 x \<or> in_range (a_id im) 4 x \<or> in_range (a_item im) 80 x
      else in_range (a_strA im) 20 x \<or> in_range (a_strB im) 20 x \<or> in_range (a_strC im) 20 x)"

definition drop_locals :: "demo_image \<Rightarrow> u8 \<Rightarrow> world \<Rightarrow> world" where
  "drop_locals im i w = w\<lparr>mem := (\<lambda>x. if demo_locals im i x then stale_locals im x else mem w x)\<rparr>"

text \<open>
  \<open>func\<close> calls the demonstration of its key. When it has returned, its local variables are gone. One that
  does not return leaves its caller waiting. \<open>run\<close> is what a function key does while a demonstration runs
  already.
\<close>

definition demo :: "(u8 \<Rightarrow> world \<Rightarrow> world result) \<Rightarrow> demo_image \<Rightarrow> u8 \<Rightarrow> world \<Rightarrow> world result" where
  "demo run im i w =
     (case (if i = 1 then testMalloc run im w else if i = 2 then testProcess run im w else Some (Inr w)) of
        None \<Rightarrow> Inl Hang
      | Some r \<Rightarrow> bindE r (\<lambda>w. Inr (drop_locals im i w)))"

text \<open>\<open>_init\<close>: the components, the banner and the menu; then it waits for interrupts.\<close>

definition init ::
    "(u8 \<Rightarrow> world \<Rightarrow> world result) \<Rightarrow> image \<Rightarrow> demo_image \<Rightarrow> world \<Rightarrow> world result option" where
  "init run im dim w = bindO (init_components im w) (showStart run dim)"

section \<open>Printing and waiting\<close>

text \<open>The abstract screen after text.\<close>

definition shown :: "u32 \<Rightarrow> u32 \<Rightarrow> u8 list \<Rightarrow> screen \<Rightarrow> screen" where
  "shown bg fg xs z = foldl (\<lambda>z c. screen_put (attr bg fg) c z) z xs"

lemma shown_append: "shown bg fg (xs @ ys) z = shown bg fg ys (shown bg fg xs z)"
  by (simp add: shown_def)

definition blank_screen :: screen where
  "blank_screen = \<lparr>grid = replicate 2000 blank, col = 0, row = 0\<rparr>"

text \<open>From \<open>w\<close> to \<open>w'\<close> the screen changes by \<open>F\<close>; the rest of memory and the kernel stay.\<close>

definition displays :: "world \<Rightarrow> (screen \<Rightarrow> screen) \<Rightarrow> world \<Rightarrow> bool" where
  "displays w F w' \<longleftrightarrow> same_kernel w w' \<and> (\<forall>x. \<not> in_video x \<longrightarrow> mem w' x = mem w x) \<and> screen_of (con w') = F (screen_of (con w))"

lemma displays_trans: "displays w F v \<Longrightarrow> displays v G u \<Longrightarrow> displays w (\<lambda>z. G (F z)) u"
  by (auto simp: displays_def intro: same_kernel_trans)

text \<open>A kernel that serves interrupts, with the literals in place and away from the screen.\<close>

definition ready :: "demo_image \<Rightarrow> u32 \<Rightarrow> world \<Rightarrow> bool" where
  "ready im p w \<longleftrightarrow> serves p w \<and> (\<forall>l. text_at (mem w) (lits im l) (literal_text l @ [0])) \<and>
     (\<forall>l x. in_range (lits im l) (length (literal_text l) + 1) x \<longrightarrow> \<not> in_video x)"

lemma ready_set_reads [simp]: "ready im p (set_reads bs w) = ready im p w"
  by (simp add: ready_def)

lemma literal_short: "length (literal_text l) < 60"
  by (cases l) (simp_all add: ascii_def)

lemma text_at_cong:
  "length xs \<le> 2 ^ 32 \<Longrightarrow> (\<And>x. in_range p (length xs) x \<Longrightarrow> m' x = m x) \<Longrightarrow> text_at m' p xs = text_at m p xs"
proof (induction xs arbitrary: p)
  case (Cons c xs)
  have "text_at m' (p + 1) xs = text_at m (p + 1) xs"
    by (rule Cons.IH) (use Cons.prems in_range_Suc [of "length xs" p] in auto)
  then show ?case using Cons.prems(2) [of p] Cons.prems(1) in_range_Suc [of "length xs" p p] by simp
qed simp

lemma ready_keeps:
  assumes "ready im p w" "serves p w'" "\<And>l x. in_range (lits im l) (length (literal_text l) + 1) x \<Longrightarrow> mem w' x = mem w x"
  shows "ready im p w'"
proof -
  have "text_at (mem w') (lits im l) (literal_text l @ [0])" for l
    using text_at_cong [of "literal_text l @ [0]" "lits im l" "mem w'" "mem w"] assms(1,3) literal_short [of l]
    by (simp add: ready_def del: text_at_append)
  then show ?thesis using assms(1,2) by (simp add: ready_def del: text_at_append)
qed

text \<open>\<open>printf\<close> and \<open>printf_color\<close> of a format made of pieces.\<close>

lemma w_puts:
  assumes "ready im p w"
  shows "ready im p (kernel_of (puts_color bg fg xs (keys w)))" "displays w (shown bg fg xs) (kernel_of (puts_color bg fg xs (keys w)))"
    "events (kernel_of (puts_color bg fg xs (keys w))) = events w" "ticks (kernel_of (puts_color bg fg xs (keys w))) = ticks w"
proof -
  let ?c = "puts_color bg fg xs (keys w)"
  have ok: "cursor_ok (keys w)" using assms by (simp add: ready_def serves_def)
  note spec = con.puts_spec [OF ok, of bg fg xs, folded puts_color_con]
  have q: "quiet (keys w) ?c" by (rule quiet.kept_puts [OF quiet.kept_refl])
  have o: "owner ?c = Part w" using owner_more [OF more_kept.kept_puts [OF refl, of bg fg xs "keys w"]] by simp
  have s: "serves p (kernel_of (keys w))" using assms by (simp add: ready_def serves_view) (simp add: serves_def)
  have "serves p (kernel_of ?c)"
    by (rule serves_quiet [OF s q]) (use same_keys_puts [of "keys w" bg fg xs] o in \<open>simp_all add: same_keys_def\<close>)
  moreover have m: "\<And>x. \<not> in_video x \<Longrightarrow> mem ?c x = mem w x" using spec by (simp add: same_outside_def)
  ultimately show "ready im p (kernel_of ?c)"
    by (intro ready_keeps [OF assms]) (use assms in \<open>auto simp: ready_def\<close>)
  have "same_kernel (kernel_of (keys w)) (kernel_of ?c)"
    using q by (intro same_view) (simp_all add: o quiet_def)
  moreover have "same_kernel w (kernel_of (keys w))" by (simp add: kernel_of_def)
  ultimately show "displays w (shown bg fg xs) (kernel_of ?c)"
    using spec m by (auto simp: displays_def shown_def intro: same_kernel_trans)
  show "events (kernel_of ?c) = events w" "ticks (kernel_of ?c) = ticks w" by (simp_all add: o) (simp add: kernel_of_def o)
qed

lemma w_printf_color_pieces:
  assumes "ready im p w" "literal_text l = format_of ps" "list_all (piece_ok (mem w)) ps" "length (output_of ps) < 1024"
  shows "\<exists>w'. w_printf_color bg fg (lits im l) (concat (map args_of ps)) w = Some (Inr w') \<and> ready im p w' \<and>
    displays w (shown bg fg (output_of ps)) w' \<and> events w' = events w \<and> ticks w' = ticks w"
proof -
  have "text_at (mem (keys w)) (lits im l) (format_of ps @ [0])" using assms(1,2) by (metis ready_def keys_fields(3))
  from printf_color_pieces [OF this, of bg fg] assms(3,4)
  show ?thesis using w_puts [OF assms(1), of bg fg "output_of ps"] by (simp add: w_printf_color_def on_keysO_def)
qed

lemma say_pieces:
  assumes "ready im p w" "literal_text l = format_of ps" "list_all (piece_ok (mem w)) ps" "length (output_of ps) < 1024"
  shows "\<exists>w'. say im l (concat (map args_of ps)) w = Some (Inr w') \<and> ready im p w' \<and>
    displays w (shown 0 15 (output_of ps)) w' \<and> events w' = events w \<and> ticks w' = ticks w"
  using w_printf_color_pieces [OF assms, of 0 15] by (simp add: say_def w_printf_def w_printf_color_def printf_def [abs_def])

lemma say_plain:
  assumes "ready im p w" "plain (literal_text l)"
  shows "\<exists>w'. say im l [] w = Some (Inr w') \<and> ready im p w' \<and> displays w (shown 0 15 (literal_text l)) w' \<and>
    events w' = events w \<and> ticks w' = ticks w"
  using say_pieces [OF assms(1), of l "[Text (literal_text l)]"] assms(2) literal_short [of l] by simp

lemma literal_plain:
  "l \<notin> {L_string, L_number, L_started, L_freed, L_line_A, L_line_B, L_line_C} \<Longrightarrow> plain (literal_text l)"
  by (cases l) (simp_all add: plain_def ascii_def)

lemma w_clear_ready:
  assumes "ready im p w"
  shows "ready im p (w_clear w)" "displays w (\<lambda>_. blank_screen) (w_clear w)" "events (w_clear w) = events w" "ticks (w_clear w) = ticks w"
proof -
  have q: "quiet (con w) (monitor_clear (con w))" "mode (monitor_clear (con w)) = mode (con w)"
    "reads (monitor_clear (con w)) = reads (con w)"
    using cursor_clear [of "con w"] fill_cells_outside [of 0 2000 _ "mem w"]
    by (auto simp: quiet_def same_outside_def) (simp_all add: monitor_clear_def move_cursor_def outb_def Let_def)
  have s: "serves p (w_clear w)"
    unfolding w_clear_def by (rule serves_set_con) (use assms q in \<open>simp_all add: ready_def serves_def\<close>)
  have m: "\<And>x. \<not> in_video x \<Longrightarrow> mem (w_clear w) x = mem w x"
    using q(1) assms by (simp add: w_clear_def quiet_def same_outside_def ready_def serves_def)
  show "ready im p (w_clear w)" by (rule ready_keeps [OF assms s]) (use m assms in \<open>auto simp: ready_def\<close>)
  show "displays w (\<lambda>_. blank_screen) (w_clear w)"
    using m q(1,3) monitor_clear_blanks [of "con w"] by (simp add: displays_def w_clear_def quiet_def blank_screen_def)
  show "events (w_clear w) = events w" "ticks (w_clear w) = ticks w" by (simp_all add: w_clear_def set_con_def share_def)
qed

section \<open>Sleeping\<close>

definition ticks_only :: "event list \<Rightarrow> bool" where
  "ticks_only evs \<longleftrightarrow> list_all (\<lambda>e. is_tick e \<and> benign e) evs"

lemma ticks_only_simps [simp]:
  "ticks_only []" "ticks_only (e # evs) \<longleftrightarrow> is_tick e \<and> benign e \<and> ticks_only evs"
  "ticks_only (xs @ ys) \<longleftrightarrow> ticks_only xs \<and> ticks_only ys"
  by (simp_all add: ticks_only_def)

lemma deliver_tick:
  assumes "ready im p w" "events w = e # rest" "is_tick e" "benign e"
  shows "\<exists>w'. deliver run w = Inr w' \<and> ready im p w' \<and> displays w (\<lambda>z. z) w' \<and> events w' = rest \<and> ticks w' = ticks w + 1"
proof -
  obtain c st bs where e: "e = Event c 32 st bs" using assms(3) by (cases e) (auto simp: is_tick_def)
  obtain ip csel fl r where st: "st = ip # csel # fl # r"
    using assms(4) by (auto simp: benign_def e numeral_3_eq_3 Suc_le_length_iff)
  let ?w = "w\<lparr>events := rest\<rparr>"
  have w: "serves p ?w" "con ?w = con w" "same_kernel w k = same_kernel ?w k" for k
    using assms(1) by (simp_all add: ready_def con_def share_def serves_def same_kernel_def)
  obtain k' where k': "interrupt run c 32 st bs ?w = Inr k'" "serves p k'" "same_kernel ?w (set_reads (reads (con w)) k')" "ticks k' = ticks w + 1"
      "mem k' = mem w" "con k' = (con w)\<lparr>reads := bs, ports := ports w @ [(0x20, 0x20)]\<rparr>" "kernel.more k' = kernel.more ?w"
    using interrupt_tick [OF w(1) st, of run c bs] w(2) by auto
  moreover have "ready im p k'" by (rule ready_keeps [OF assms(1) k'(2)]) (simp add: k'(5))
  moreover have on: "sti_flag w" using assms(1) by (simp add: ready_def serves_def)
  ultimately show ?thesis
    using w(3) events_more [OF k'(7)] assms(2)
    by (intro exI [of _ "set_reads (reads (con w)) k'"]) (simp add: deliver_def e on displays_def screen_of_def)
qed

lemma sleep_loop_ticks:
  "ready im p w \<Longrightarrow> events w = evs @ rest \<Longrightarrow> ticks_only evs \<Longrightarrow> unat (ticks w - s0) + length evs = unat t \<Longrightarrow>
     \<exists>w'. sleep_loop (deliver run) s0 t w = Some (Inr w') \<and> ready im p w' \<and> displays w (\<lambda>z. z) w' \<and> events w' = rest \<and>
       ticks w' = ticks w + of_nat (length evs)"
proof (induction evs arbitrary: w)
  case Nil
  then show ?case by (subst sleep_loop.simps) (simp add: displays_def word_less_nat_alt)
next
  case (Cons e evs)
  obtain v where v: "deliver run w = Inr v" "ready im p v" "displays w (\<lambda>z. z) v" "events v = evs @ rest" "ticks v = ticks w + 1"
    using deliver_tick [OF Cons.prems(1), of e "evs @ rest" run] Cons.prems(2,3) by auto
  have lt: "ticks w - s0 < t" using Cons.prems(4) by (simp add: word_less_nat_alt)
  have "unat (ticks v - s0) = unat (ticks w - s0) + 1"
  proof -
    define d where "d = ticks w - s0"
    then have "ticks v - s0 = d + 1" by (simp add: v(5))
    moreover have "unat d + 1 < 2 ^ 32" using Cons.prems(4) unat_lt32 [of t] d_def by simp
    ultimately show ?thesis unfolding d_def [symmetric] by (simp add: unat_plus_if')
  qed
  then have "unat (ticks v - s0) + length evs = unat t" using Cons.prems(4) by simp
  from Cons.IH [OF v(2,4) _ this] Cons.prems(3) obtain w' where w': "sleep_loop (deliver run) s0 t v = Some (Inr w')"
      "ready im p w'" "displays v (\<lambda>z. z) w'" "events w' = rest" "ticks w' = ticks v + of_nat (length evs)" by auto
  have "cur_proc v = cur_proc w" using v(2) Cons.prems(1) by (simp add: ready_def serves_def)
  then have "sleep_loop (deliver run) s0 t w = Some (Inr w')" using v(1) w'(1) lt by (subst sleep_loop.simps) simp
  then show ?case using w' v displays_trans [OF v(3) w'(3)] by (intro exI [of _ w']) simp
qed

lemma w_sleep_ticks:
  assumes "ready im p w" "events w = evs @ rest" "ticks_only evs" "length evs = unat t"
  shows "\<exists>w'. w_sleep run t w = Some (Inr w') \<and> ready im p w' \<and> displays w (\<lambda>z. z) w' \<and> events w' = rest \<and> ticks w' = ticks w + t"
  using sleep_loop_ticks [OF assms(1-3), of "ticks w" t run] assms(4) by (simp add: w_sleep_def sleep_def getTicks_def)

section \<open>Banner and menu\<close>

lemma say_bars_prints:
  "ready im p w \<Longrightarrow> \<exists>w' F. say_bars im n w = Some (Inr w') \<and> ready im p w' \<and> displays w F w' \<and> events w' = events w \<and> ticks w' = ticks w"
proof (induction n arbitrary: w)
  case 0
  then show ?case by (intro exI [of _ w] exI [of _ "\<lambda>z. z"]) (simp add: displays_def)
next
  case (Suc n)
  obtain v where v: "say im L_bar [] w = Some (Inr v)" "ready im p v" "displays w (shown 0 15 (literal_text L_bar)) v"
      "events v = events w" "ticks v = ticks w"
    using say_plain [OF Suc.prems literal_plain, of L_bar] by auto
  from Suc.IH [OF v(2)] obtain w' F where "say_bars im n v = Some (Inr w')" "ready im p w'" "displays v F w'" "events w' = events v"
      "ticks w' = ticks v" by blast
  then show ?case using v displays_trans [OF v(3)] by (intro exI [of _ w']) auto
qed

lemma banner_sleeps:
  "ready im p w \<Longrightarrow> events w = evs @ rest \<Longrightarrow> ticks_only evs \<Longrightarrow> length evs = 20 * n \<Longrightarrow>
     \<exists>w' F. banner run im n w = Some (Inr w') \<and> ready im p w' \<and> displays w F w' \<and> events w' = rest \<and> ticks w' = ticks w + of_nat (20 * n)"
proof (induction n arbitrary: w evs)
  case 0
  then show ?case by (intro exI [of _ w] exI [of _ "\<lambda>z. z"]) (simp add: displays_def)
next
  case (Suc n)
  obtain w1 where w1: "say im L_welcome [] w = Some (Inr w1)" "ready im p w1" "displays w (shown 0 15 (literal_text L_welcome)) w1"
      "events w1 = events w" "ticks w1 = ticks w"
    using say_plain [OF Suc.prems(1) literal_plain, of L_welcome] by auto
  obtain w2 where w2: "say im L_init_system [] w1 = Some (Inr w2)" "ready im p w2" "displays w1 (shown 0 15 (literal_text L_init_system)) w2"
      "events w2 = events w" "ticks w2 = ticks w"
    using say_plain [OF w1(2) literal_plain, of L_init_system] w1(4,5) by auto
  obtain w3 F3 where w3: "say_bars im (30 - Suc n + 1) w2 = Some (Inr w3)" "ready im p w3" "displays w2 F3 w3" "events w3 = events w" "ticks w3 = ticks w"
    using say_bars_prints [OF w2(2), of "30 - Suc n + 1"] w2(4,5) by (metis (no_types, lifting))
  have evs: "evs = take 20 evs @ drop 20 evs" "length (take 20 evs) = unat (20 :: u32)" "length (drop 20 evs) = 20 * n"
    using Suc.prems(4) by simp_all
  have tk: "ticks_only (take 20 evs)" "ticks_only (drop 20 evs)" using Suc.prems(3) evs(1) by (metis ticks_only_simps(3))+
  have "events w3 = take 20 evs @ drop 20 evs @ rest" using w3(4) Suc.prems(2) by simp
  from w_sleep_ticks [OF w3(2) this tk(1) evs(2), of run]
  obtain w4 where w4: "w_sleep run 20 w3 = Some (Inr w4)" "ready im p w4" "displays w3 (\<lambda>z. z) w4" "events w4 = drop 20 evs @ rest"
      "ticks w4 = ticks w3 + 20" by blast
  note cl = w_clear_ready [OF w4(2)]
  from Suc.IH [OF cl(1) _ tk(2) evs(3)] obtain w' F where w': "banner run im n (w_clear w4) = Some (Inr w')" "ready im p w'"
      "displays (w_clear w4) F w'" "events w' = rest" "ticks w' = ticks (w_clear w4) + of_nat (20 * n)"
    using cl(3) w4(4) by auto
  have "banner run im (Suc n) w = Some (Inr w')"
    using w1(1) w2(1) w3(1) w4(1) w'(1) by (simp add: Let_def)
  moreover have "\<exists>G. displays w G w'"
    using displays_trans [OF w1(3) displays_trans [OF w2(3) displays_trans [OF w3(3) displays_trans [OF w4(3) displays_trans [OF cl(2) w'(3)]]]]]
    by blast
  ultimately show ?case using w' w4(5) w3(5) cl(4) by (auto simp: algebra_simps)
qed

lemma showMemu_shows:
  assumes "ready im p w"
  shows "\<exists>w'. showMemu im w = Some (Inr w') \<and> ready im p w' \<and>
    displays w (\<lambda>_. shown 0 15 (literal_text L_f1 @ literal_text L_f2) blank_screen) w' \<and> events w' = events w \<and> ticks w' = ticks w"
proof -
  note c = w_clear_ready [OF assms]
  obtain w1 where w1: "say im L_f1 [] (w_clear w) = Some (Inr w1)" "ready im p w1" "displays (w_clear w) (shown 0 15 (literal_text L_f1)) w1"
      "events w1 = events w" "ticks w1 = ticks w"
    using say_plain [OF c(1) literal_plain, of L_f1] c(3,4) by auto
  obtain w2 where w2: "say im L_f2 [] w1 = Some (Inr w2)" "ready im p w2" "displays w1 (shown 0 15 (literal_text L_f2)) w2"
      "events w2 = events w" "ticks w2 = ticks w"
    using say_plain [OF w1(2) literal_plain, of L_f2] w1(4,5) by auto
  show ?thesis
    using w1(1) w2 displays_trans [OF c(2) displays_trans [OF w1(3) w2(3)]] by (simp add: showMemu_def shown_append del: literal_text.simps)
qed

text \<open>
  \<open>showStart\<close> runs to its end: with 600 clock ticks to come its thirty banners are shown for 20 ticks
  each, and then the screen holds the two lines of the menu and nothing else.
\<close>

lemma showStart_shows:
  assumes "ready im p w" "events w = evs @ rest" "ticks_only evs" "length evs = 600"
  shows "\<exists>w'. showStart run im w = Some (Inr w') \<and> events w' = rest \<and> ticks w' = ticks w + 600 \<and> ready im p w' \<and>
    displays w (\<lambda>_. shown 0 15 (literal_text L_f1 @ literal_text L_f2) blank_screen) w'"
proof -
  note c = w_clear_ready [OF assms(1)]
  obtain w1 F where w1: "banner run im 30 (w_clear w) = Some (Inr w1)" "ready im p w1" "displays (w_clear w) F w1"
      "events w1 = rest" "ticks w1 = ticks w + 600"
    using banner_sleeps [OF c(1), of evs rest 30 run] assms(2-4) c(3,4) by auto
  obtain w2 where w2: "showMemu im w1 = Some (Inr w2)" "ready im p w2"
      "displays w1 (\<lambda>_. shown 0 15 (literal_text L_f1 @ literal_text L_f2) blank_screen) w2" "events w2 = events w1" "ticks w2 = ticks w1"
    using showMemu_shows [OF w1(2)] by blast
  show ?thesis
    using w1 w2 displays_trans [OF c(2) displays_trans [OF w1(3) w2(3)]] by (simp add: showStart_def del: literal_text.simps)
qed

section \<open>From the reset to the menu\<close>

lemma boot_serves:
  assumes "init_components im k = Some (Inr k')" "image_ok im"
  shows "serves (boot_thread im) k'"
proof -
  note b = boot_inv [OF assms]
  have "\<not> in_video x" if "in_range (p_next (boot_thread im)) 4 x" for x
    using that in_range_sub [of "boot_thread im" 40 4 x 44] assms(2) by (auto simp: p_next_def image_ok_def)
  then show ?thesis using b by (simp add: serves_def kernel_inv_def boot_handlers_def)
qed

text \<open>The literals are loaded, away from the screen, the kernel's tables and the boot thread's block.\<close>

definition literals_loaded :: "image \<Rightarrow> demo_image \<Rightarrow> memory \<Rightarrow> bool" where
  "literals_loaded im dim m \<longleftrightarrow> (\<forall>l. text_at m (lits dim l) (literal_text l @ [0]) \<and>
     (\<forall>x. in_range (lits dim l) (length (literal_text l) + 1) x \<longrightarrow> \<not> in_video x \<and> \<not> in_range (boot_thread im) 44 x \<and>
        \<not> in_range (pgd_kern im) 4096 x \<and> \<not> in_range (pte_kern im) 0x80000 x))"

lemma boot_ready:
  assumes "init_components im w = Some (Inr w')" "image_ok im" "literals_loaded im dim (mem w)"
  shows "ready dim (boot_thread im) w' \<and> events w' = events w \<and> ticks w' = 0"
proof -
  have "mem w' x = mem w x" if "in_range (lits dim l) (length (literal_text l) + 1) x" for l x
    using assms(3) that by (intro init_components_bytes [OF assms(1)]) (auto simp: literals_loaded_def)
  then have "text_at (mem w') (lits dim l) (literal_text l @ [0])" for l
    using text_at_cong [of "literal_text l @ [0]" "lits dim l" "mem w'" "mem w"] literal_short [of l] assms(3)
    by (simp add: literals_loaded_def del: text_at_append)
  then have "ready dim (boot_thread im) w'"
    using boot_serves [OF assms(1,2)] assms(3) by (auto simp: ready_def literals_loaded_def simp del: text_at_append)
  then show ?thesis using boot_inv [OF assms(1,2)] events_more [OF init_components_more [OF assms(1)]] by simp
qed

lemma init_shows_menu:
  assumes "elf_from_multiboot (lit_strtab im) (lit_symtab im) (stack_elf im) (mboot im) (mem w) = Some e"
    and "stack_ok w" "frames w = []" "start = load32 (mem w) (mmap_addr (mboot im))" "regions = unat (load32 (mem w) (mmap_length (mboot im)))"
    and "unat start + 24 * regions < 2 ^ 32"
    and "length (map_pages (image_size im) (mem w) start regions) \<le> unat PAGE_MAX_SIZE"
    and "reads (content (con_part w)) = bs @ b # bs' @ b' # bs2" "\<forall>x \<in> set (bs @ bs'). x AND 2 \<noteq> 0" "b AND 2 = 0" "b' AND 2 = 0"
    and "image_ok im" "literals_loaded im dim (mem w)" "events w = evs @ rest" "ticks_only evs" "length evs = 600"
  shows "\<exists>v w'. init_components im w = Some (Inr v) \<and> stack_ok v \<and> frames v = rev (map_pages (image_size im) (mem w) start regions) \<and>
    init run im dim w = Some (Inr w') \<and> ready dim (boot_thread im) w' \<and> cr3 v = pgd_kern im - PAGE_OFFSET \<and> ticks v = 0 \<and>
    displays v (\<lambda>_. shown 0 15 (literal_text L_f1 @ literal_text L_f2) blank_screen) w' \<and> ticks w' = 600 \<and> events w' = rest"
proof -
  obtain v where v: "init_components im w = Some (Inr v)" "frames v = rev (map_pages (image_size im) (mem w) start regions)" "stack_ok v"
    using init_runs [OF assms(1-11)] by blast
  note r = boot_ready [OF v(1) assms(12,13)] and inv = boot_inv [OF v(1) assms(12)]
  obtain w' where w': "showStart run dim v = Some (Inr w')" "events w' = rest" "ticks w' = ticks v + 600" "ready dim (boot_thread im) w'"
      "displays v (\<lambda>_. shown 0 15 (literal_text L_f1 @ literal_text L_f2) blank_screen) w'"
    using showStart_shows [where im = dim and w = v and rest = rest and run = run, OF _ _ assms(15,16)] r assms(14) by auto
  have "init run im dim w = Some (Inr w')" using v(1) w'(1) by (simp add: init_def)
  moreover have "cr3 v = pgd_kern im - PAGE_OFFSET" "ticks v = 0" using r inv by (simp_all add: kernel_inv_def)
  ultimately show ?thesis using v w'(2-5) by (intro exI [of _ v] exI [of _ w']) (simp del: literal_text.simps)
qed

text \<open>C2: the whole boot: when the symbol tables can be read, the memory map is in bounds and the keyboard
  controller becomes ready, \<open>_init\<close> initialises the components, shows the banner while the clock ticks 600
  times, and comes to wait for interrupts with the menu on the screen, the usable pages of the memory map
  free and a kernel that serves the clock and the keyboard.\<close>

theorem init_reaches_menu:
  assumes "elf_from_multiboot (lit_strtab im) (lit_symtab im) (stack_elf im) (mboot im) (mem w) = Some e"
    and "stack_ok w" "frames w = []" "start = load32 (mem w) (mmap_addr (mboot im))" "regions = unat (load32 (mem w) (mmap_length (mboot im)))"
    and "unat start + 24 * regions < 2 ^ 32"
    and "length (map_pages (image_size im) (mem w) start regions) \<le> unat PAGE_MAX_SIZE"
    and "reads (content (con_part w)) = bs @ b # bs' @ b' # bs2" "\<forall>x \<in> set (bs @ bs'). x AND 2 \<noteq> 0" "b AND 2 = 0" "b' AND 2 = 0"
    and "image_ok im" "literals_loaded im dim (mem w)" "events w = evs @ rest" "ticks_only evs" "length evs = 600"
  shows "\<exists>w'. init run im dim w = Some (Inr w') \<and> frames w' = rev (map_pages (image_size im) (mem w) start regions) \<and>
    serves (boot_thread im) w' \<and> cr3 w' = pgd_kern im - PAGE_OFFSET \<and> ticks w' = 600 \<and> events w' = rest \<and>
    screen_of (con w') = shown 0 15 (literal_text L_f1 @ literal_text L_f2) blank_screen"
proof -
  obtain v w' where w': "frames v = rev (map_pages (image_size im) (mem w) start regions)" "init run im dim w = Some (Inr w')"
      "ready dim (boot_thread im) w'" "cr3 v = pgd_kern im - PAGE_OFFSET" "ticks w' = 600" "events w' = rest"
      "displays v (\<lambda>_. shown 0 15 (literal_text L_f1 @ literal_text L_f2) blank_screen) w'"
    using init_shows_menu [OF assms, of run] by (elim exE conjE) (rule that)
  have "frames w' = frames v" "cr3 w' = cr3 v" using w'(7) by (simp_all add: displays_def same_kernel_def frames_def)
  then show ?thesis using w' by (intro exI [of _ w']) (simp add: ready_def displays_def del: literal_text.simps)
qed

section \<open>A concrete machine\<close>

primrec literal_no :: "literal \<Rightarrow> nat" where
  "literal_no L_welcome = 0" | "literal_no L_init_system = 1" | "literal_no L_bar = 2" | "literal_no L_f1 = 3"
| "literal_no L_f2 = 4" | "literal_no L_title = 5" | "literal_no L_prompt = 6" | "literal_no L_string = 7"
| "literal_no L_malloc = 8" | "literal_no L_ask_size = 9" | "literal_no L_number = 10" | "literal_no L_started = 11"
| "literal_no L_free = 12" | "literal_no L_ask_item = 13" | "literal_no L_freed = 14" | "literal_no L_exit = 15"
| "literal_no L_line_A = 16" | "literal_no L_line_B = 17" | "literal_no L_line_C = 18" | "literal_no L_proc_title = 19"
| "literal_no L_ask_A = 20" | "literal_no L_ask_B = 21" | "literal_no L_ask_C = 22" | "literal_no L_newline = 23"

definition all_literals :: "literal list" where
  "all_literals = [L_welcome, L_init_system, L_bar, L_f1, L_f2, L_title, L_prompt, L_string, L_malloc, L_ask_size, L_number,
     L_started, L_free, L_ask_item, L_freed, L_exit, L_line_A, L_line_B, L_line_C, L_proc_title, L_ask_A, L_ask_B, L_ask_C, L_newline]"

lemma literal_no: "literal_no l < 24" "all_literals ! literal_no l = l"
  by (cases l; simp add: all_literals_def)+

text \<open>Every literal in its own 64 bytes from \<open>0xC0200000\<close> on.\<close>

definition demo_memory :: memory where
  "demo_memory x = (let d = unat (x - 0xC0200000)
     in if d < 1536 then (literal_text (all_literals ! (d div 64)) @ replicate 64 0) ! (d mod 64) else 0)"

definition literal_place :: "literal \<Rightarrow> u32" where
  "literal_place l = 0xC0200000 + of_nat (64 * literal_no l)"

definition bare_demo :: demo_image where
  "bare_demo = \<lparr>lits = literal_place, a_empty = 0xC0200700, a_pgd_kern = 0xC0113000, a_thread_exit = 0xC0104000, a_testA = 0xC0104100,
     a_testB = 0xC0104200, a_testC = 0xC0104300, stale_page = 0, a_code = 0xC0121000, a_size = 0xC0121020, a_id = 0xC0121024,
     a_item = 0xC0121028, a_strA = 0xC0121100, a_strB = 0xC0121114, a_strC = 0xC0121128,
     stale_locals = (\<lambda>_. 0xAA)\<rparr>"

lemma text_at_nth: "(\<And>i. i < length xs \<Longrightarrow> m (p + of_nat i) = xs ! i) \<Longrightarrow> text_at m p xs"
proof (induction xs arbitrary: p)
  case (Cons c xs)
  have "m p = c" using Cons.prems [of 0] by simp
  moreover have "text_at m (p + 1) xs" by (rule Cons.IH) (use Cons.prems [of "Suc _"] in \<open>simp add: add.assoc\<close>)
  ultimately show ?case by simp
qed simp

lemma demo_memory_place:
  assumes "i < 64"
  shows "demo_memory (literal_place l + of_nat i) = (literal_text l @ replicate 64 0) ! i"
proof -
  have "literal_place l + of_nat i - 0xC0200000 = of_nat (64 * literal_no l + i)" by (simp add: literal_place_def)
  moreover have "64 * literal_no l + i < 1536" using literal_no(1) [of l] assms by simp
  ultimately have "unat (literal_place l + of_nat i - 0xC0200000) = 64 * literal_no l + i" by (simp only: unat_of_nat) simp
  then show ?thesis using assms literal_no [of l] by (simp add: demo_memory_def Let_def)
qed

lemma demo_memory_literals: "text_at demo_memory (literal_place l) (literal_text l @ [0])"
proof (rule text_at_nth)
  fix i assume "i < length (literal_text l @ [0])"
  then have "i < 64" "i \<le> length (literal_text l)" using literal_short [of l] by simp_all
  then show "demo_memory (literal_place l + of_nat i) = (literal_text l @ [0]) ! i"
    by (simp add: demo_memory_place nth_append)
qed

lemma literal_place_bounds:
  assumes "in_range (literal_place l) (length (literal_text l) + 1) x"
  shows "0xC0200000 \<le> x" "x < 0xC0200600"
proof -
  define d where "d = unat (x - literal_place l)"
  have d: "d < 64" using assms literal_short [of l] by (simp add: in_range_def d_def)
  have "x = 0xC0200000 + of_nat (64 * literal_no l + d)" by (simp add: d_def literal_place_def)
  moreover have "64 * literal_no l + d < 1536" using literal_no(1) [of l] d by simp
  ultimately have "unat x = 0xC0200000 + (64 * literal_no l + d)" by (simp add: unat_word_ariths unat_of_nat)
  then show "0xC0200000 \<le> x" "x < 0xC0200600" using \<open>64 * literal_no l + d < 1536\<close>
    by (simp_all add: word_le_nat_alt word_less_nat_alt)
qed

lemma below_literals: "x < 0xC0200000 \<Longrightarrow> demo_memory x = 0"
proof -
  assume x: "x < 0xC0200000"
  have "unat (x - 0xC0200000) = 2 ^ 32 - 0xC0200000 + unat x" using x
    by (simp add: unat_sub_if' word_less_nat_alt)
  then show ?thesis by (simp add: demo_memory_def)
qed

lemma load32_below: "unat a < 0xC0100000 \<Longrightarrow> load32 demo_memory a = 0"
proof -
  assume a: "unat a < 0xC0100000"
  have "demo_memory (a + of_nat k) = 0" if "k < 4" for k
    by (rule below_literals) (use a that in \<open>simp add: word_less_nat_alt unat_word_ariths unat_of_nat\<close>)
  from this [of 0] this [of 1] this [of 2] this [of 3] show ?thesis by (simp add: load32_def)
qed

definition demo_world :: world where
  "demo_world = kernel.extend (bare_kernel\<lparr>mem := demo_memory\<rparr>) \<lparr>events = replicate 600 clock_tick\<rparr>"

lemma demo_world_fields:
  "mem demo_world = demo_memory" "pg_top demo_world = 0" "content (con_part demo_world) = idle_keyboard"
  "events demo_world = replicate 600 clock_tick"
  by (simp_all add: demo_world_def kernel.defs bare_kernel_def trap_state.defs)

lemma clock_ticks_only: "ticks_only (replicate n clock_tick)"
  by (induction n) (simp_all add: is_tick_def benign_def clock_tick_def)

lemma demo_runs:
  "elf_from_multiboot (lit_strtab bare_image) (lit_symtab bare_image) (stack_elf bare_image) (mboot bare_image) (mem demo_world)
      = Some (stack_elf bare_image)"
  "stack_ok demo_world" "frames demo_world = []" "load32 (mem demo_world) (mmap_addr (mboot bare_image)) = 0"
  "load32 (mem demo_world) (mmap_length (mboot bare_image)) = 0"
  "reads (content (con_part demo_world)) = [] @ 0 # [] @ 0 # []"
  by (simp_all add: demo_world_fields elf_from_multiboot_def load32_below bare_image_def stack_ok_def frames_def idle_keyboard_def)

lemma literals_in_place: "literals_loaded bare_image bare_demo demo_memory"
proof -
  have far: "\<not> in_range p n x" if x: "in_range (literal_place l) (length (literal_text l) + 1) x" and p: "unat p + n \<le> 0xC0200000" for p x :: u32 and n l
  proof -
    have "unat (x - p) = unat x - unat p"
      using literal_place_bounds(1) [OF x] p by (intro unat_sub) (simp add: word_le_nat_alt)
    then show ?thesis using literal_place_bounds(1) [OF x] p by (simp add: in_range_def word_le_nat_alt)
  qed
  have "\<not> in_video x" if "in_range (literal_place l) (length (literal_text l) + 1) x" for x l
    using literal_place_bounds(1) [OF that] by (auto simp: in_video_def word_le_nat_alt word_less_nat_alt)
  moreover have "lits bare_demo = literal_place" by (simp add: bare_demo_def)
  ultimately show ?thesis
    using demo_memory_literals far by (simp add: literals_loaded_def bare_image_def boot_thread_def del: text_at_append)
qed

theorem init_reaches_menu_witness:
  "\<exists>w'. init (\<lambda>_ w. Inr w) bare_image bare_demo demo_world = Some (Inr w') \<and> ticks w' = 600 \<and> serves 0xC0120000 w' \<and>
     screen_of (con w') = shown 0 15 (literal_text L_f1 @ literal_text L_f2) blank_screen"
proof -
  have m: "map_pages (image_size bare_image) (mem demo_world) 0 0 = []" by simp
  have "literals_loaded bare_image bare_demo (mem demo_world)" using literals_in_place by (simp add: demo_world_fields)
  from init_reaches_menu [OF demo_runs(1-3) demo_runs(4) [symmetric] _ _ _ demo_runs(6) _ _ _ bare_image_ok this, of 0 "replicate 600 clock_tick" "[]"]
  obtain w' where "init (\<lambda>_ w. Inr w) bare_image bare_demo demo_world = Some (Inr w')" "serves (boot_thread bare_image) w'" "ticks w' = 600"
      "screen_of (con w') = shown 0 15 (literal_text L_f1 @ literal_text L_f2) blank_screen"
    using clock_ticks_only [of 600] m demo_runs(5) demo_world_fields(4) by auto
  moreover have "boot_thread bare_image = 0xC0120000" by (simp add: boot_thread_def bare_image_def)
  ultimately show ?thesis by metis
qed

end
