(* ===== verification/Threads.thy ===== *)
theory Threads
  imports Process Footprint
begin

text \<open>
  Starting one thread after the other: \<open>init_thread\<close> on a heap whose blocks are in use, with the run list
  and the threads that wait in it. Each gets a block of its own; the heap, the list and the saved
  contexts of the others stay as they were.
\<close>

section \<open>Blocks do not overlap\<close>

lemma contig_apart:
  "contig q bs e \<Longrightarrow> b \<in> set bs \<Longrightarrow> c \<in> set bs \<Longrightarrow> b \<noteq> c \<Longrightarrow>
     unat (addr b) + len b \<le> unat (addr c) \<or> unat (addr c) + len c \<le> unat (addr b)"
proof (induction bs arbitrary: q)
  case (Cons d bs)
  have tl: "contig (q + len d) bs e" "unat (addr d) = q" using Cons.prems(1) by auto
  show ?case
    using Cons.IH [OF tl(1)] Cons.prems(2-4) contig_bounds [OF tl(1), of b] contig_bounds [OF tl(1), of c] tl(2) by auto
qed simp

lemma payload_apart:
  assumes "heap_inv pgd s bs" "b \<in> set bs" "c \<in> set bs" "b \<noteq> c" "payload b x" shows "\<not> payload c x"
proof -
  have "contig (unat V_MM_START) bs (heap_end bs)" using assms(1) by (simp add: heap_inv_def)
  from contig_apart [OF this assms(2-4)] show ?thesis using assms(5) by (auto simp: payload_def)
qed

text \<open>The 8192 bytes of a thread in its block.\<close>

lemma thread_payload:
  assumes "heap_inv pgd s bs" "b \<in> set bs" "q = addr b + 12" "8204 \<le> len b" "in_range q 8192 x"
  shows "payload b x" "V_MM_START \<le> x"
proof -
  note hb = heap_block [OF assms(1,2)]
  have u: "unat q = unat (addr b) + 12" using hb assms(3,4) by (simp add: unat_plus_if')
  then have "in_range q 8192 x \<longleftrightarrow> unat q \<le> unat x \<and> unat x < unat q + 8192"
    using hb assms(4) by (intro in_range_nat) simp
  then show "payload b x" "V_MM_START \<le> x" using assms(4,5) u hb by (auto simp: payload_def word_le_nat_alt)
qed

section \<open>The invariant\<close>

text \<open>The boot process \<open>p\<close> and the threads \<open>ths\<close>, each with its function and argument, in blocks of the heap.\<close>

definition thread_in :: "u32 \<Rightarrow> memory \<Rightarrow> block list \<Rightarrow> u32 \<times> u32 \<times> u32 \<Rightarrow> bool" where
  "thread_in texit m bs th \<longleftrightarrow> thread_ready m (fst th) texit (fst (snd th)) (snd (snd th)) \<and>
     (\<exists>b \<in> set bs. fst th = addr b + 12 \<and> 8204 \<le> len b)"

definition threads_inv ::
    "u32 \<Rightarrow> u32 \<Rightarrow> u32 \<Rightarrow> block list \<Rightarrow> (u32 \<times> u32 \<times> u32) list \<Rightarrow> 'a proc_state_scheme \<Rightarrow> bool" where
  "threads_inv pgd texit p bs ths s \<longleftrightarrow> heap_inv pgd s bs \<and> (\<forall>b \<in> set bs. used b) \<and>
     ring (mem s) (run_head s) (p # map fst ths) \<and> (\<forall>th \<in> set ths. thread_in texit (mem s) bs th) \<and>
     (\<forall>x. in_range p 44 x \<longrightarrow> \<not> page_cell pgd s x \<and> x < V_MM_START)"

lemma threads_apart:
  assumes "threads_inv pgd texit p bs ths s" shows "areas_apart (p # map fst ths)"
proof -
  let ?ps = "p # map fst ths"
  have h: "heap_inv pgd s bs" and d: "distinct ?ps" and
    lo: "\<And>x. in_range p 44 x \<Longrightarrow> x < V_MM_START" and
    th: "\<And>th. th \<in> set ths \<Longrightarrow> \<exists>b \<in> set bs. fst th = addr b + 12 \<and> 8204 \<le> len b"
    using assms by (auto simp: threads_inv_def ring_def thread_in_def)
  have blk: "\<exists>b \<in> set bs. q = addr b + 12 \<and> 8204 \<le> len b" if "q \<in> set (map fst ths)" for q
    using that th by auto
  have pay: "payload b x \<and> V_MM_START \<le> x" if "b \<in> set bs" "q = addr b + 12" "8204 \<le> len b" "in_range q 44 x" for b q x
    using thread_payload [OF h that(1-3), of x] that(4) by (auto simp: in_range_def)
  have hi: "\<not> in_range p 44 x" if "q \<in> set (map fst ths)" "in_range q 44 x" for q x
    using blk [OF that(1)] pay [of _ q x] that(2) lo [of x] by (meson linorder_not_le)
  have "\<not> in_range r 44 x" if q: "q \<in> set ?ps" and r: "r \<in> set ?ps" and "q \<noteq> r" "in_range q 44 x" for q r x
  proof (cases "q = p \<or> r = p")
    case True
    then show ?thesis using q r that(3,4) hi [of q x] hi [of r x] by (elim disjE) (simp_all, blast+)
  next
    case False
    then obtain b c where bc: "b \<in> set bs" "q = addr b + 12" "8204 \<le> len b" "c \<in> set bs" "r = addr c + 12" "8204 \<le> len c"
      using q r blk [of q] blk [of r] by auto
    then have "b \<noteq> c" using that(3) by auto
    then show ?thesis using pay [OF bc(1-3) that(4)] pay [OF bc(4-6)] payload_apart [OF h bc(1,4)] by blast
  qed
  then have "sep q 44 r 44" if "q \<in> set ?ps" "r \<in> set ?ps" "q \<noteq> r" for q r
    using that by (intro sep_disjoint) auto
  then show ?thesis using d by (simp add: areas_apart_def)
qed

section \<open>Starting a thread\<close>

lemma thread_ready_cong:
  assumes "\<And>y. y \<in> {0, 16, 36, 8180, 8184, 8188} \<Longrightarrow> load32 m' (q + y) = load32 m (q + y)"
  shows "thread_ready m' q texit fn arg = thread_ready m q texit fn arg"
  using assms [of 0] assms [of 16] assms [of 36] assms [of 8180] assms [of 8184] assms [of 8188]
  by (simp add: thread_ready_def p_fields add.commute)

text \<open>The link field of the last process is none of the fields that a waiting thread needs.\<close>

lemma link_field_other:
  assumes inv: "threads_inv pgd texit p bs ths s" and th: "th \<in> set ths"
    and y: "y \<in> {0, 16, 36, 8180, 8184, 8188}" and x: "in_range (fst th + y) 4 x"
  shows "\<not> in_range (p_next (last (p # map fst ths))) 4 x"
proof -
  let ?r = "last (p # map fst ths)"
  have h: "heap_inv pgd s bs" and lo: "\<And>x. in_range p 44 x \<Longrightarrow> x < V_MM_START"
    and ex: "\<And>th. th \<in> set ths \<Longrightarrow> \<exists>b \<in> set bs. fst th = addr b + 12 \<and> 8204 \<le> len b"
    using inv by (auto simp: threads_inv_def thread_in_def)
  have x8: "in_range (fst th) 8192 x" by (rule in_range_sub [OF x]) (use y in auto)
  obtain b where b: "b \<in> set bs" "fst th = addr b + 12" "8204 \<le> len b" using ex [OF th] by blast
  note pb = thread_payload [OF h b x8]
  have nx: "in_range r 44 x \<and> in_range r 8192 x" if "in_range (p_next r) 4 x" for r
    using in_range_sub [of r 40 4 x 44] in_range_sub [of r 40 4 x 8192] that by (simp add: p_next_def)
  consider "?r = p" | th' where "th' \<in> set ths" "?r = fst th'" by (cases ths rule: rev_cases) auto
  then show ?thesis
  proof cases
    case 1
    then show ?thesis using nx [of p] lo [of x] pb(2) by (auto dest: leD)
  next
    case 2
    show ?thesis
    proof (cases "fst th' = fst th")
      case True
      have "sep (fst th + 40) 4 (fst th + y) 4" using y by (auto simp: sep_def)
      then show ?thesis using sep_in_range [of "fst th + 40" 4 "fst th + y" 4 x] x 2(2) True by (auto simp: p_next_def)
    next
      case False
      obtain c where c: "c \<in> set bs" "fst th' = addr c + 12" "8204 \<le> len c" using ex [OF 2(1)] by blast
      have "b \<noteq> c" using False b(2) c(2) by auto
      then show ?thesis
        using thread_payload(1) [OF h c, of x] nx [of "fst th'"] payload_apart [OF h b(1) c(1) _ pb(1)] 2(2) by auto
    qed
  qed
qed

text \<open>Where the blocks of the processes lie: the boot process below the heap, the threads in payloads.\<close>

lemma process_bytes:
  assumes inv: "threads_inv pgd texit p bs ths s" and q: "q \<in> set (p # map fst ths)" "in_range q 44 x"
  shows "q = p \<and> \<not> page_cell pgd s x \<and> x < V_MM_START \<or> (\<exists>b \<in> set bs. payload b x)"
proof (cases "q = p")
  case True
  then show ?thesis using inv q(2) unfolding threads_inv_def by blast
next
  case False
  then have "q \<in> fst ` set ths" using q(1) by simp
  then obtain th where th: "th \<in> set ths" "q = fst th" by blast
  obtain b where b: "b \<in> set bs" "fst th = addr b + 12" "8204 \<le> len b"
    using inv th(1) by (auto simp: threads_inv_def thread_in_def)
  have "heap_inv pgd s bs" using inv by (simp add: threads_inv_def)
  from thread_payload(1) [OF this b, of x] show ?thesis using q(2) th(2) b(1) by (auto simp: in_range_def)
qed

text \<open>The step: a block that \<open>kmalloc\<close> appended becomes a thread at the end of the run list.\<close>

lemma spawn_bytes:
  assumes inv: "threads_inv pgd texit p bs ths s" and room: "heap_end bs + 8204 < 2 ^ 32"
    and hi: "heap_inv pgd s1 (appended bs 8192)" and new: "new = of_nat (heap_end bs + 12)" "in_range new 8192 x"
  shows "payload (Block (of_nat (heap_end bs)) True 8204) x" "V_MM_START \<le> x"
    and "b \<in> set bs \<Longrightarrow> \<not> payload b x" and "q \<in> set (p # map fst ths) \<Longrightarrow> \<not> in_range q 44 x"
proof -
  define nb where "nb = Block (of_nat (heap_end bs)) True 8204"
  have nb: "nb \<in> set (appended bs 8192)" "new = addr nb + 12" "8204 \<le> len nb" by (simp_all add: appended_def nb_def new)
  show p: "payload (Block (of_nat (heap_end bs)) True 8204) x" and lo: "V_MM_START \<le> x"
    using thread_payload [OF hi nb new(2)] by (simp_all add: nb_def)
  have un: "unat (addr nb) = heap_end bs" using room by (simp add: nb_def unat_of_nat)
  have h: "heap_inv pgd s bs" using inv by (simp add: threads_inv_def)
  show b: "\<not> payload b x" if "b \<in> set bs" for b
    using p heap_block(2) [OF h that] un by (simp add: payload_def nb_def)
  show "\<not> in_range q 44 x" if "q \<in> set (p # map fst ths)"
    using process_bytes [OF inv that] b lo by (auto dest: leD)
qed

text \<open>
  One more thread: its block is appended to the heap, it waits at the end of the run list, and what lies
  below the heap stays, but for the link of the boot process.
\<close>

text \<open>What starting threads may change besides the memory: the allocators' variables and the next number.\<close>

definition spawned :: "'a proc_state_scheme \<Rightarrow> 'a proc_state_scheme \<Rightarrow> bool" where
  "spawned s s' \<longleftrightarrow> (\<exists>m g f t n. s' = s\<lparr>mem := m, pg_top := g, first := f, mm_top := t, cur_pid := n\<rparr>)"

lemma spawned_upd: "spawned s (s\<lparr>mem := m, pg_top := g, first := f, mm_top := t, cur_pid := n\<rparr>)"
  unfolding spawned_def by (intro exI) (rule refl)

lemma spawned_trans: "spawned s t \<Longrightarrow> spawned t u \<Longrightarrow> spawned s u"
  by (auto simp: spawned_def [of s t] spawned_def [of t u] intro!: spawned_upd)

lemma thread_in_kept:
  assumes inv: "threads_inv pgd texit p bs ths s" and th: "th \<in> set ths" and more: "set bs \<subseteq> set bs'"
    and keep: "\<And>b x. b \<in> set bs \<Longrightarrow> payload b x \<Longrightarrow> \<not> in_range (p_next (last (p # map fst ths))) 4 x \<Longrightarrow> m x = mem s x"
  shows "thread_in texit m bs' th"
proof -
  have h: "heap_inv pgd s bs" "thread_in texit (mem s) bs th" using inv th by (auto simp: threads_inv_def)
  then obtain b where b: "b \<in> set bs" "fst th = addr b + 12" "8204 \<le> len b" by (auto simp: thread_in_def)
  have "load32 m (fst th + y) = load32 (mem s) (fst th + y)" if y: "y \<in> {0, 16, 36, 8180, 8184, 8188}" for y
  proof (rule load32_cong)
    fix x assume x: "in_range (fst th + y) 4 x"
    have "in_range (fst th) 8192 x" by (rule in_range_sub [OF x]) (use y in auto)
    then have "payload b x" using thread_payload(1) [OF h(1) b] by blast
    then show "m x = mem s x" by (rule keep [OF b(1) _ link_field_other [OF inv th y x]])
  qed
  then have "thread_ready m (fst th) texit (fst (snd th)) (snd (snd th)) =
      thread_ready (mem s) (fst th) texit (fst (snd th)) (snd (snd th))" by (rule thread_ready_cong)
  then show ?thesis using h(2) b more by (auto simp: thread_in_def)
qed

text \<open>What the invariant does not look at: memory below the heap that is neither a page cell nor the boot process's.\<close>

lemma threads_inv_elsewhere:
  assumes inv: "threads_inv pgd texit p bs ths s"
    and k: "frames s' = frames s" "pg_top s' = pg_top s" "first s' = first s" "mm_top s' = mm_top s" "run_head s' = run_head s"
    and keep: "\<And>x. page_cell pgd s x \<or> V_MM_START \<le> x \<or> in_range p 44 x \<Longrightarrow> mem s' x = mem s x"
  shows "threads_inv pgd texit p bs ths s'"
proof -
  have h: "heap_inv pgd s bs" and rg: "ring (mem s) (run_head s) (p # map fst ths)" using inv by (simp_all add: threads_inv_def)
  have hi: "heap_inv pgd s' bs" by (rule heap_inv_elsewhere [OF h k(1-4)]) (use keep in blast)
  have pv: "paging_inv pgd s" using h by (simp add: heap_inv_def window_ok_def)
  have pc: "page_cell pgd s' x = page_cell pgd s x" for x by (rule page_cell_cong(3) [OF pv _ k(1)]) (use keep in blast)
  have pl: "mem s' x = mem s x" if "b \<in> set bs" "payload b x" for b x
    using heap_block(1) [OF h that(1)] that(2) by (intro keep) (auto simp: payload_def word_le_nat_alt)
  have "mem s' x = mem s x" if "q \<in> set (p # map fst ths)" "in_range (p_next q) 4 x" for q x
    using process_bytes [OF inv that(1) next_in_area [OF that(2)]] next_in_area [OF that(2)] keep pl by blast
  then have "ring (mem s') (run_head s) (p # map fst ths) = ring (mem s) (run_head s) (p # map fst ths)"
    by (intro ring_cong load32_cong) blast
  moreover have "thread_in texit (mem s') bs th" if "th \<in> set ths" for th
    by (rule thread_in_kept [OF inv that subset_refl]) (rule pl)
  ultimately show ?thesis using inv hi rg pc k(5) by (simp add: threads_inv_def)
qed

lemma init_thread_inv:
  assumes inv: "threads_inv pgd texit p bs ths s" and room: "heap_end bs + 8204 \<le> L" "L \<le> 0xFFFFF000"
    and fr: "2 * missing L s \<le> length (frames s)"
  obtains s' where "init_thread pgd texit fn arg s = Inr (cur_pid s, s')"
    "threads_inv pgd texit p (appended bs 8192) (ths @ [(of_nat (heap_end bs + 12), fn, arg)]) s'"
    "2 * missing L s' \<le> length (frames s')" "run_head s' = run_head s" "cur_proc s' = cur_proc s" "spawned s s'"
    "\<And>x. \<not> page_cell pgd s x \<Longrightarrow> x < V_MM_START \<Longrightarrow> \<not> in_range (p_next p) 4 x \<Longrightarrow> mem s' x = mem s x \<and> \<not> page_cell pgd s' x"
proof -
  let ?ps = "p # map fst ths" and ?bs = "appended bs 8192" and ?nb = "Block (of_nat (heap_end bs)) True 8204"
  define new :: u32 where "new = of_nat (heap_end bs + 12)"
  have h: "heap_inv pgd s bs" "\<And>b. b \<in> set bs \<Longrightarrow> used b" and rg: "ring (mem s) (run_head s) ?ps"
    and ths: "\<And>th. th \<in> set ths \<Longrightarrow> thread_in texit (mem s) bs th"
    and own: "\<And>x. in_range p 44 x \<Longrightarrow> \<not> page_cell pgd s x \<and> x < V_MM_START"
    using inv by (auto simp: threads_inv_def)
  have bs: "set ?bs = insert ?nb (set bs)" by (simp add: appended_def)
  obtain s1 where k: "kmalloc pgd STACK_SIZE s = Inr (new, s1)" "heap_inv pgd s1 ?bs" "heap_moved s s1"
      "2 * missing L s1 \<le> length (frames s1)"
      "\<And>x. \<not> page_cell pgd s x \<Longrightarrow> x < V_MM_START \<Longrightarrow> mem s1 x = mem s x \<and> \<not> page_cell pgd s1 x"
      "\<And>b x. b \<in> set bs \<Longrightarrow> payload b x \<Longrightarrow> mem s1 x = mem s x"
    using kmalloc_appends_frame [OF h, of STACK_SIZE L] room fr unfolding new_def by auto
  have room': "heap_end bs + 8204 < 2 ^ 32" using room by simp
  note nw = spawn_bytes [OF inv room' k(2) new_def]
  have "mem s1 x = mem s x" if "q \<in> set ?ps" "in_range (p_next q) 4 x" for q x
    using process_bytes [OF inv that(1) next_in_area [OF that(2)]] k(5,6) by blast
  then have "ring (mem s1) (run_head s) ?ps = ring (mem s) (run_head s) ?ps"
    by (intro ring_cong load32_cong) blast
  then have rg1: "ring (mem s1) (run_head s) ?ps" using rg by simp
  have far: "sep new 8192 q 44" if "q \<in> set ?ps" for q using nw(4) [OF _ that] by (intro sep_disjoint) simp_all
  obtain s' where s': "init_thread pgd texit fn arg s = Inr (cur_pid s, s')" "ring (mem s') (run_head s) (?ps @ [new])"
      "run_head s' = run_head s" "cur_proc s' = cur_proc s" "thread_ready (mem s') new texit fn arg"
      "s' = s1\<lparr>mem := store32 (init_proc_block texit fn arg new s1) (p_next (last ?ps)) new, cur_pid := cur_pid s1 + 1\<rparr>"
    using init_thread_spec [OF k(1) rg1 threads_apart [OF inv] far] by blast
  let ?link = "in_range (p_next (last ?ps)) 4"
  have m': "mem s' x = mem s1 x" if "\<not> in_range new 8192 x" "\<not> ?link x" for x
    using that by (simp add: s'(6) store32_other init_proc_block_bytes)
  have lk: "last ?ps = p \<and> \<not> page_cell pgd s x \<and> x < V_MM_START \<or> (\<exists>b \<in> set bs. payload b x)" if "?link x" for x
    by (rule process_bytes [OF inv last_in_set next_in_area [OF that]]) simp
  have fs: "frames s' = frames s1" "pg_top s' = pg_top s1" "first s' = first s1" "mm_top s' = mm_top s1" by (simp_all add: s'(6) frames_def)
  have ch: "(\<exists>b \<in> set ?bs. payload b x) \<or> x < V_MM_START \<and> \<not> page_cell pgd s1 x" if "mem s' x \<noteq> mem s1 x" for x
    using m' [of x] that nw(1) [of x] lk [of x] k(5) [of x] unfolding bs by blast
  have hi: "heap_inv pgd s' ?bs" and pc: "\<And>x. page_cell pgd s' x = page_cell pgd s1 x"
    using heap_inv_change [OF k(2) fs ch] by blast+
  have old: "thread_in texit (mem s') ?bs th" if th: "th \<in> set ths" for th
  proof (rule thread_in_kept [OF inv th])
    show "set bs \<subseteq> set ?bs" by (auto simp: bs)
    show "mem s' x = mem s x" if b: "b \<in> set bs" "payload b x" and "\<not> ?link x" for b x
      using m' [OF _ that(3)] nw(3) [OF _ b(1)] b(2) k(6) [OF b] by auto
  qed
  have "thread_in texit (mem s') ?bs (new, fn, arg)"
    using s'(5) by (simp add: thread_in_def bs new_def)
  then have "threads_inv pgd texit p ?bs (ths @ [(new, fn, arg)]) s'"
    using hi h(2) s'(2,3) old own k(5) pc by (auto simp: threads_inv_def bs)
  moreover have "mem s' x = mem s x \<and> \<not> page_cell pgd s' x" if "\<not> page_cell pgd s x" "x < V_MM_START" "\<not> in_range (p_next p) 4 x" for x
  proof -
    have "\<not> payload b x" if "b \<in> set bs" for b
      using heap_block(1) [OF h(1) that] \<open>x < V_MM_START\<close> by (auto simp: payload_def word_less_nat_alt)
    then have "\<not> in_range new 8192 x \<and> \<not> ?link x" using nw(2) [of x] lk [of x] that(2,3) by (auto dest: leD)
    then show ?thesis using m' k(5) [OF that(1,2)] pc by simp
  qed
  moreover have "2 * missing L s' \<le> length (frames s')" using k(4) fs by (simp add: missing_def)
  moreover have "spawned s s'"
  proof -
    obtain m g f t where "s1 = s\<lparr>mem := m, pg_top := g, first := f, mm_top := t\<rparr>" using heap_moved_eq [OF k(3)] by metis
    then have "s' = s\<lparr>mem := mem s', pg_top := g, first := f, mm_top := t, cur_pid := cur_pid s + 1\<rparr>" by (simp add: s'(6))
    then show ?thesis by (metis spawned_upd)
  qed
  ultimately show thesis using that s'(1,3,4) unfolding new_def by blast
qed

section \<open>The first switch\<close>

text \<open>What saving a context writes: the context and the slot below the stack pointer.\<close>

lemma save_context_bytes:
  assumes "\<not> in_range prev 24 x" "\<not> in_range (r_esp s - 4) 4 x"
  shows "mem (save_context prev s) x = mem s x"
proof -
  have "\<not> in_range (prev + y) 4 x" if "unat y + 4 \<le> 24" for y
    using in_range_sub [of prev y 4 x 24] that assms(1) by auto
  from this [of 0] this [of 4] this [of 8] this [of 12] this [of 16] this [of 20] assms(2)
  show ?thesis by (simp add: save_context_def Let_def store32_other)
qed

text \<open>The first process behind the boot process starts in its function, with its argument.\<close>

lemma first_switch:
  assumes inv: "threads_inv pgd texit p bs ((new, fn, arg) # ths) s" and cur: "cur_proc s = p" "p \<noteq> 0"
    and stack: "\<And>x. in_range (r_esp s - 4) 4 x \<Longrightarrow> x < V_MM_START \<and> \<not> in_range p 44 x"
  defines "t \<equiv> schedule s"
  shows "cur_proc t = new" "r_eip t = fn" "r_eflags t = 0x200" "load32 (mem t) (r_esp t) = texit" "load32 (mem t) (r_esp t + 4) = arg"
    and "x < V_MM_START \<Longrightarrow> \<not> in_range p 44 x \<Longrightarrow> \<not> in_range (r_esp s - 4) 4 x \<Longrightarrow> mem t x = mem s x"
proof -
  let ?s = "s\<lparr>cur_proc := new\<rparr>"
  have h: "heap_inv pgd s bs" and rg: "ring (mem s) (run_head s) (p # new # map fst ths)" and lo: "\<And>x. in_range p 44 x \<Longrightarrow> x < V_MM_START"
    and rdy: "thread_ready (mem s) new texit fn arg" and ex: "\<exists>b \<in> set bs. new = addr b + 12 \<and> 8204 \<le> len b"
    using inv by (auto simp: threads_inv_def thread_in_def)
  have hi: "V_MM_START \<le> x" if "in_range new 8192 x" for x using ex thread_payload(2) [OF h _ _ _ that] by blast
  have "load32 (mem s) (p_next p) = new" "p \<noteq> new" using rg by (auto simp: ring_def)
  then have t: "t = switch_to (p_context p) (p_context new) ?s" using cur by (simp add: t_def schedule_def change_proc_def)
  have pc: "in_range p 44 x" if "in_range (p_context p) 24 x" for x
    using in_range_sub [of p 16 24 x 44] that by (simp add: p_context_def)
  have sp: "sep (p_context p) 24 new 8192" "sep (r_esp ?s - 4) 4 new 8192" "sep (r_esp ?s - 4) 4 (p_context p) 24"
    by (rule sep_disjoint; use pc lo hi stack in \<open>fastforce simp: not_less [symmetric]\<close>)+
  have rdy': "thread_ready (mem ?s) new texit fn arg" using rdy by simp
  note f = fresh_thread [OF rdy' sp, folded t]
  show "r_eip t = fn" "r_eflags t = 0x200" "load32 (mem t) (r_esp t) = texit" "load32 (mem t) (r_esp t + 4) = arg" using f by simp_all
  show "cur_proc t = new" by (simp add: t)
  assume x: "x < V_MM_START" "\<not> in_range p 44 x" "\<not> in_range (r_esp s - 4) 4 x"
  define u where "u = save_context (p_context p) ?s"
  have u: "mem u x = mem s x" using save_context_bytes [of "p_context p" x ?s] x pc by (auto simp: u_def)
  have e: "load32 (mem u) (p_context new) = new + 8180"
  proof -
    have "load32 (mem u) (p_context new) = load32 (mem ?s) (p_context new)"
      using save_context_at(2) [OF sp(3)] sep_sub [OF sp(1), of 0 24 16 4] sep_sub [OF sp(2), of 0 4 16 4] by (simp add: u_def p_context_def)
    then show ?thesis using rdy by (simp add: thread_ready_def p_fields)
  qed
  have "\<not> in_range new 8192 x" using hi [of x] x(1) by (auto simp: not_less [symmetric])
  then have "\<not> in_range (new + 8176) 4 x" using in_range_sub [of new 8176 4 x 8192] by fastforce
  moreover have "new + 8180 - 4 = new + 8176" by simp
  ultimately have "\<not> in_range (new + 8180 - 4) 4 x" by (simp only: not_False_eq_True)
  then have "mem (load_context (p_context new) u) x = mem u x" by (simp add: load_context_def Let_def e store32_other)
  then show "mem t x = mem s x" using u by (simp add: t switch_to_def u_def)
qed

end
