(* ===== verification/Demo_Session.thy ===== *)
theory Demo_Session
  imports Demo Threads
begin

text \<open>
  What the two demonstrations share: a kernel that serves interrupts, with a heap, the literals and the
  local variables, each away from the others; printing, reading and allocating on it.
\<close>

section \<open>The variables and their neighbours\<close>

definition local_cell :: "demo_image \<Rightarrow> u32 \<Rightarrow> bool" where
  "local_cell im x \<longleftrightarrow> in_range (a_code im) 20 x \<or> in_range (a_size im) 4 x \<or> in_range (a_id im) 4 x \<or> in_range (a_item im) 80 x \<or>
     in_range (a_strA im) 20 x \<or> in_range (a_strB im) 20 x \<or> in_range (a_strC im) 20 x"

lemma demo_locals_cell: "demo_locals im i x \<Longrightarrow> local_cell im x"
  by (auto simp: demo_locals_def local_cell_def split: if_splits)

definition literal_cell :: "demo_image \<Rightarrow> u32 \<Rightarrow> bool" where
  "literal_cell im x \<longleftrightarrow> (\<exists>l. in_range (lits im l) (length (literal_text l) + 1) x)"

text \<open>The compiler and the linker keep variables, literals, screen and the process block apart.\<close>

definition locals_apart :: "demo_image \<Rightarrow> u32 \<Rightarrow> bool" where
  "locals_apart im p \<longleftrightarrow> sep (a_size im) 4 (a_code im) 20 \<and> sep (a_item im) 80 (a_code im) 20 \<and> sep (a_item im) 80 (a_size im) 4 \<and>
     (\<forall>x. local_cell im x \<longrightarrow> \<not> in_video x \<and> \<not> in_range (p_next p) 4 x \<and> \<not> literal_cell im x) \<and> (ucast (a_empty im) :: u8) \<noteq> 10"

text \<open>A kernel that serves interrupts, with a heap \<open>bs\<close> in use, away from what the program stores.\<close>

definition shop :: "demo_image \<Rightarrow> u32 \<Rightarrow> block list \<Rightarrow> world \<Rightarrow> bool" where
  "shop im p bs w \<longleftrightarrow> ready im p w \<and> heap_inv (a_pgd_kern im) w bs \<and> (\<forall>b \<in> set bs. used b) \<and>
     (\<forall>x. local_cell im x \<or> literal_cell im x \<or> in_video x \<or> in_range p 44 x \<longrightarrow>
        \<not> page_cell (a_pgd_kern im) w x \<and> x < V_MM_START)"

lemma ready_literal:
  assumes "ready im p w"
  shows "text_at (mem w) (lits im t) (literal_text t @ [0])"
    and "in_range (lits im t) (length (literal_text t) + 1) x \<Longrightarrow> \<not> in_video x"
proof -
  note r = assms [unfolded ready_def]
  show "text_at (mem w) (lits im t) (literal_text t @ [0])" by (rule r [THEN conjunct2, THEN conjunct1, THEN spec])
  show "in_range (lits im t) (length (literal_text t) + 1) x \<Longrightarrow> \<not> in_video x"
    by (rule r [THEN conjunct2, THEN conjunct2, THEN spec, THEN spec, THEN mp])
qed

lemma shop_keeps:
  assumes s: "shop im p bs w" and v: "serves p w'" "same_kernel w w'" and l: "locals_apart im p"
    and eq: "\<And>x. \<not> in_video x \<Longrightarrow> \<not> local_cell im x \<Longrightarrow> mem w' x = mem w x"
  shows "shop im p bs w'" "frames w' = frames w" "missing L w' = missing L w"
proof -
  have k: "pg_top w' = pg_top w" "first w' = first w" "mm_top w' = mm_top w" and fr: "frames w' = frames w"
    using v(2) by (simp_all add: same_kernel_def frames_def)
  have pg: "mem w' x = mem w x" if "page_cell (a_pgd_kern im) w x \<or> V_MM_START \<le> x" for x
    using s that eq [of x] by (auto simp: shop_def linorder_not_le [symmetric])
  have rd: "ready im p w" using s by (simp add: shop_def)
  have lt: "mem w' x = mem w x" if x: "in_range (lits im t) (length (literal_text t) + 1) x" for x t
  proof -
    have "literal_cell im x" using x unfolding literal_cell_def by (rule exI)
    then have "\<not> local_cell im x" using l by (auto simp: locals_apart_def)
    then show ?thesis using ready_literal(2) [OF rd x] by (intro eq)
  qed
  have "ready im p w'" by (rule ready_keeps [OF rd v(1) lt])
  moreover have hi: "heap_inv (a_pgd_kern im) w bs" using s by (simp add: shop_def)
  have "heap_inv (a_pgd_kern im) w' bs" by (rule heap_inv_elsewhere [OF hi fr k pg])
  moreover have pv: "paging_inv (a_pgd_kern im) w" using hi by (simp add: heap_inv_def window_ok_def)
  have "page_cell (a_pgd_kern im) w' x = page_cell (a_pgd_kern im) w x" for x
    by (rule page_cell_cong(3) [OF pv _ fr]) (simp add: pg)
  ultimately show "shop im p bs w'" using s by (simp add: shop_def)
  show "frames w' = frames w" by fact
  show "missing L w' = missing L w" using k by (simp add: missing_def)
qed

text \<open>Steps in which only the screen and the cells of \<open>A\<close> change and the events up to \<open>rest\<close> are consumed.\<close>

definition step :: "(u32 \<Rightarrow> bool) \<Rightarrow> world \<Rightarrow> event list \<Rightarrow> world \<Rightarrow> bool" where
  "step A w rest w' \<longleftrightarrow> same_kernel w w' \<and> (\<forall>x. \<not> in_video x \<longrightarrow> \<not> A x \<longrightarrow> mem w' x = mem w x) \<and> events w' = rest"

lemma shop_step:
  assumes "shop im p bs w" "serves p w'" "step A w rest w'" "locals_apart im p" "\<And>x. A x \<Longrightarrow> local_cell im x"
  shows "shop im p bs w'" "frames w' = frames w" "missing L w' = missing L w" "events w' = rest"
    "reads (con w') = reads (con w)"
  using shop_keeps [OF assms(1,2) _ assms(4)] assms(3,5) by (auto simp: step_def same_kernel_def)

lemma step_trans:
  assumes "step A w r v" "step B v r' u" "\<And>x. A x \<or> B x \<Longrightarrow> C x" shows "step C w r' u"
proof -
  have "\<not> A x \<and> \<not> B x" if "\<not> C x" for x using assms(3) that by blast
  then show ?thesis using assms(1,2) same_kernel_trans [of w v u] by (simp add: step_def)
qed

lemma step_bytes: "step A w rest w' \<Longrightarrow> \<not> in_video x \<Longrightarrow> \<not> A x \<Longrightarrow> mem w' x = mem w x"
  by (simp add: step_def)

lemma shop_say:
  assumes s: "shop im p bs w" and l: "locals_apart im p" and f: "literal_text t = format_of ps"
    "list_all (piece_ok (mem w)) ps" "length (output_of ps) < 1024"
  shows "\<exists>w'. say im t (concat (map args_of ps)) w = Some (Inr w') \<and> shop im p bs w' \<and> step (\<lambda>_. False) w (events w) w'"
proof -
  have "ready im p w" using s by (simp add: shop_def)
  from say_pieces [OF this f] obtain w' where w': "say im t (concat (map args_of ps)) w = Some (Inr w')" "ready im p w'"
      "displays w (shown 0 15 (output_of ps)) w'" "events w' = events w" by blast
  then have st: "step (\<lambda>_. False) w (events w) w'" by (simp add: step_def displays_def)
  have "serves p w'" using w'(2) by (simp add: ready_def)
  then show ?thesis using w'(1) st shop_step(1) [OF s _ st l] by blast
qed

lemma shop_say_plain:
  assumes "shop im p bs w" "locals_apart im p" "t \<notin> {L_string, L_number, L_started, L_freed, L_line_A, L_line_B, L_line_C}"
  shows "\<exists>w'. say im t [] w = Some (Inr w') \<and> shop im p bs w' \<and> step (\<lambda>_. False) w (events w) w'"
  using shop_say [OF assms(1,2), of t "[Text (literal_text t)]"] literal_plain [OF assms(3)] literal_short [of t] by simp

section \<open>Reading commands and sizes\<close>

definition word_ok :: "u8 list \<Rightarrow> bool" where
  "word_ok v \<longleftrightarrow> v \<noteq> [] \<and> length v < 20 \<and> (\<forall>c \<in> set v. \<not> isspace (uint c) \<and> c \<noteq> 0)"

lemma literal_region: "in_range (lits im l) (length (literal_text l) + 1) x \<Longrightarrow> literal_cell im x"
  by (auto simp: literal_cell_def)

lemma literal_2: "length (literal_text L_string) + 1 = 3" "length (literal_text L_number) + 1 = 3"
  by (simp_all add: ascii_def)

lemma literal_3: "t \<in> {L_string, L_number} \<Longrightarrow> in_range (lits im t) 3 x \<Longrightarrow> literal_cell im x"
  using literal_region [of im t x] literal_2 by auto

text \<open>A word goes into an array of 20 bytes, a number into \<open>size\<close>.\<close>

lemma shop_ask_word:
  assumes s: "shop im p bs w" and l: "locals_apart im p" and v: "word_ok v"
    and a: "\<And>x. in_range a 20 x \<Longrightarrow> local_cell im x" and e: "events w = evs @ rest" "line_events v evs"
  shows "\<exists>w'. ask run im L_string a w = Some (Inr w') \<and> shop im p bs w' \<and> step (in_range a 20) w rest w' \<and>
    cstr (mem w') a v"
proof -
  have len: "v \<noteq> []" "length v < 511" "length v + 1 \<le> 20" "\<forall>c \<in> set v. \<not> isspace (uint c) \<and> c \<noteq> 0"
    using v by (auto simp: word_ok_def)
  have rd: "ready im p w" and sv: "serves p w" using s by (simp_all add: shop_def ready_def)
  have loc: "in_range a (length v + 1) x \<Longrightarrow> local_cell im x" for x
    using len(3) by (intro a) (simp add: in_range_def)
  have ap: "local_cell im x \<Longrightarrow> \<not> in_video x \<and> \<not> in_range (p_next p) 4 x \<and> \<not> literal_cell im x" for x
    using l by (simp add: locals_apart_def)
  have sp: "sep a (length v + 1) (lits im L_string) 3" "sep a (length v + 1) (p_next p) 4"
    by (rule sep_disjoint; use loc ap literal_3 [of L_string im] in simp; blast)+
  have nv: "\<not> in_video x" if "in_range (lits im L_string) 3 x \<or> in_range a (length v + 1) x" for x
  proof -
    have "in_range (lits im L_string) 3 x \<Longrightarrow> \<not> in_video x"
      using ready_literal(2) [OF rd, of L_string x, unfolded literal_2] .
    then show ?thesis using that loc ap by auto
  qed
  have em: "(ucast (a_empty im) :: u8) \<noteq> 10" using l by (simp add: locals_apart_def)
  have t: "text_at (mem w) (lits im L_string) [37, 115, 0]" using ready_literal(1) [OF rd, of L_string] by (simp add: ascii_def)
  from w_scanf_word [OF sv e len(1,2,4) em t sp nv]
  obtain w' where w': "ask run im L_string a w = Some (Inr w')" "cstr (mem w') a v" "events w' = rest"
      "serves p w'" "same_kernel w w'" "\<forall>x. \<not> in_range a (length v + 1) x \<longrightarrow> \<not> in_video x \<longrightarrow> mem w' x = mem w x"
    unfolding ask_def by blast
  have st: "step (in_range a 20) w rest w'"
    using w'(3,5,6) len(3) by (auto simp: step_def in_range_def)
  show ?thesis using w'(1,2) st shop_step(1) [OF s w'(4) st l a] by blast
qed

lemma shop_ask_number:
  assumes s: "shop im p bs w" and l: "locals_apart im p" and e: "events w = evs @ rest" "line_events (decimal n) evs"
  shows "\<exists>w'. ask run im L_number (a_size im) w = Some (Inr w') \<and> shop im p bs w' \<and> step (in_range (a_size im) 4) w rest w' \<and>
    load32 (mem w') (a_size im) = n"
proof -
  have rd: "ready im p w" and sv: "serves p w" using s by (simp_all add: shop_def ready_def)
  have loc: "in_range (a_size im) 4 x \<Longrightarrow> local_cell im x" for x by (simp add: local_cell_def)
  have ap: "local_cell im x \<Longrightarrow> \<not> in_video x \<and> \<not> in_range (p_next p) 4 x \<and> \<not> literal_cell im x" for x
    using l by (simp add: locals_apart_def)
  have sp: "sep (a_size im) 4 (lits im L_number) 3" "sep (a_size im) 4 (p_next p) 4"
    by (rule sep_disjoint; use loc ap literal_3 [of L_number im] in simp; blast)+
  have nv: "\<not> in_video x" if "in_range (lits im L_number) 3 x \<or> in_range (a_size im) 4 x" for x
  proof -
    have "in_range (lits im L_number) 3 x \<Longrightarrow> \<not> in_video x"
      using ready_literal(2) [OF rd, of L_number x, unfolded literal_2] .
    then show ?thesis using that loc ap by auto
  qed
  have em: "(ucast (a_empty im) :: u8) \<noteq> 10" using l by (simp add: locals_apart_def)
  have t: "text_at (mem w) (lits im L_number) [37, 100, 0]" using ready_literal(1) [OF rd, of L_number] by (simp add: ascii_def)
  have bl: "line_events ([] @ decimal n) evs" "set [] \<subseteq> {32 :: u8}" "length ([] :: u8 list) < 500" using e(2) by simp_all
  from w_scanf_number [OF sv(1) e(1) bl em t sp nv]
  obtain w' where w': "ask run im L_number (a_size im) w = Some (Inr w')" "load32 (mem w') (a_size im) = n" "events w' = rest"
      "serves p w'" "same_kernel w w'" "\<forall>x. \<not> in_range (a_size im) 4 x \<longrightarrow> \<not> in_video x \<longrightarrow> mem w' x = mem w x"
    unfolding ask_def by auto
  have st: "step (in_range (a_size im) 4) w rest w'" using w'(3,5,6) by (auto simp: step_def)
  show ?thesis using w'(1,2) st shop_step(1) [OF s w'(4) st l] loc by blast
qed

text \<open>\<open>strcmp\<close> with a literal.\<close>

lemma text_at_cstr: "text_at m q (xs @ [0]) \<Longrightarrow> 0 \<notin> set xs \<Longrightarrow> cstr m q xs"
  by (induction xs arbitrary: q) (auto simp: algebra_simps)

lemma when_code_eq:
  assumes "shop im p bs w" "cstr (mem w) (a_code im) v" "plain (literal_text t)"
  shows "when_code im t act skip w = (if v = literal_text t then act w else Some (Inr (skip w)))"
proof -
  have c: "cstr (mem w) (lits im t) (literal_text t)"
    using assms(1,3) by (intro text_at_cstr) (simp_all add: shop_def ready_def plain_def del: text_at_append)
  show ?thesis
    using strcmp_cstr [OF assms(2) c] byte_diff_0_iff [OF cstr_no_nul [OF assms(2)] cstr_no_nul [OF c]]
    by (simp add: when_code_def)
qed

section \<open>Allocating\<close>

text \<open>Allocation leaves the rest of the kernel alone, with the block appended.\<close>

lemma serves_moved:
  assumes "serves p w" "heap_moved w w'" "\<And>x. in_range (p_next p) 4 x \<Longrightarrow> mem w' x = mem w x"
  shows "serves p w'" "events w' = events w" "reads (con w') = reads (con w)"
proof -
  define m g f t where "m = mem w'" and "g = pg_top w'" and "f = first w'" and "t = mm_top w'"
  have w': "w' = w\<lparr>mem := m, pg_top := g, first := f, mm_top := t\<rparr>"
    using heap_moved_eq [OF assms(2)] by (simp only: m_def g_def f_def t_def)
  have "load32 m (p_next p) = load32 (mem w) (p_next p)" using assms(3) by (intro load32_cong) (simp add: m_def)
  then show "serves p w'" using assms(1) by (simp add: w' serves_def ring1)
  show "events w' = events w" "reads (con w') = reads (con w)" by (simp_all add: w')
qed

lemma shop_kmalloc:
  assumes s: "shop im p bs w" and room: "heap_end bs + unat n + 12 \<le> L" "L \<le> 0xFFFFF000" and fr: "2 * missing L w \<le> length (frames w)"
  obtains w' where "kmalloc (a_pgd_kern im) n w = Inr (of_nat (heap_end bs + 12), w')" "shop im p (appended bs (unat n)) w'"
    "2 * missing L w' \<le> length (frames w')" "events w' = events w" "reads (con w') = reads (con w)"
    "\<And>x. local_cell im x \<Longrightarrow> mem w' x = mem w x"
proof -
  have h: "heap_inv (a_pgd_kern im) w bs" "\<And>b. b \<in> set bs \<Longrightarrow> used b" using s by (auto simp: shop_def)
  obtain w' where
      w': "kmalloc (a_pgd_kern im) n w = Inr (of_nat (heap_end bs + 12), w')" "heap_inv (a_pgd_kern im) w' (appended bs (unat n))"
        "heap_moved w w'" "2 * missing L w' \<le> length (frames w')"
      and eq: "\<And>x. \<not> page_cell (a_pgd_kern im) w x \<Longrightarrow> x < V_MM_START \<Longrightarrow>
        mem w' x = mem w x \<and> \<not> page_cell (a_pgd_kern im) w' x"
  proof -
    show ?thesis by (rule kmalloc_appends_frame [OF h room fr]) (assumption, rule that)
  qed
  define own where "own x \<longleftrightarrow> local_cell im x \<or> literal_cell im x \<or> in_video x \<or> in_range p 44 x" for x
  have own: "mem w' x = mem w x \<and> \<not> page_cell (a_pgd_kern im) w' x \<and> x < V_MM_START" if "own x" for x
    using s that eq [of x] unfolding shop_def own_def by blast
  have rd: "ready im p w" using s by (simp add: shop_def)
  then have sv: "serves p w" by (simp add: ready_def)
  note m = serves_moved [OF sv w'(3)]
  have "ready im p w'"
    by (rule ready_keeps [OF rd m(1)]) (use own literal_region next_in_area in \<open>auto simp: own_def\<close>)
  then have "shop im p (appended bs (unat n)) w'"
    using w'(2) h(2) own by (auto simp: shop_def own_def appended_def)
  moreover have "mem w' x = mem w x" if "local_cell im x" for x using own [of x] that by (simp add: own_def)
  moreover have "events w' = events w" "reads (con w') = reads (con w)"
    by (rule m(2), use own next_in_area in \<open>simp add: own_def\<close>) (rule m(3), use own next_in_area in \<open>simp add: own_def\<close>)
  ultimately show thesis using that w'(1,4) by blast
qed

text \<open>When a demonstration has returned its variables are gone; nothing else depends on them.\<close>

lemma drop_locals_fields [simp]:
  "events (drop_locals im i w) = events w" "reads (con (drop_locals im i w)) = reads (con w)" "cur_proc (drop_locals im i w) = cur_proc w"
  "handlers (drop_locals im i w) = handlers w" "r_esp (drop_locals im i w) = r_esp w" "same_kernel w (drop_locals im i w)"
  by (simp_all add: drop_locals_def same_kernel_def)

lemma drop_locals_serves:
  assumes "serves p w" "locals_apart im p"
  shows "serves p (drop_locals im i w)"
proof -
  have "load32 (mem (drop_locals im i w)) (p_next p) = load32 (mem w) (p_next p)"
    by (rule load32_cong) (use assms(2) demo_locals_cell in \<open>auto simp: locals_apart_def drop_locals_def\<close>)
  moreover have "con (drop_locals im i w) = (con w)\<lparr>mem := mem (drop_locals im i w)\<rparr>" by (simp add: drop_locals_def con_def share_def)
  ultimately show ?thesis using assms(1) by (simp add: serves_def ring1 cursor_ok_def) (simp add: drop_locals_def)
qed

lemma shop_drop:
  assumes "shop im p bs w" "locals_apart im p"
  shows "shop im p bs (drop_locals im i w)" "screen_of (con (drop_locals im i w)) = screen_of (con w)"
proof -
  have sv: "serves p (drop_locals im i w)" using drop_locals_serves [OF _ assms(2)] assms(1) by (simp add: shop_def ready_def)
  have loc: "mem (drop_locals im i w) x = mem w x" if "\<not> local_cell im x" for x
    using that demo_locals_cell by (auto simp: drop_locals_def)
  then show "shop im p bs (drop_locals im i w)" by (intro shop_keeps(1) [OF assms(1) sv _ assms(2)]) simp_all
  have nv: "\<not> local_cell im x" if "in_video x" for x using that assms(2) by (auto simp: locals_apart_def)
  show "screen_of (con (drop_locals im i w)) = screen_of (con w)"
    by (rule screen_of_cong) (use loc nv in simp_all, simp_all add: drop_locals_def con_def share_def)
qed

text \<open>\<open>monitor_clear\<close> at the start.\<close>

lemma shop_clear:
  assumes "shop im p bs w" "locals_apart im p"
  shows "shop im p bs (w_clear w)" "step (\<lambda>_. False) w (events w) (w_clear w)"
proof -
  have rd: "ready im p w" using assms(1) by (simp add: shop_def)
  note c = w_clear_ready [OF rd]
  show st: "step (\<lambda>_. False) w (events w) (w_clear w)" using c(2,3) by (simp add: step_def displays_def)
  have "serves p (w_clear w)" using c(1) by (simp add: ready_def)
  from shop_step(1) [OF assms(1) this st assms(2)] show "shop im p bs (w_clear w)" by simp
qed

text \<open>The specification: every block is appended to the heap, and its pointer follows its header.\<close>

primrec allocated :: "block list \<Rightarrow> nat list \<Rightarrow> block list" where
  "allocated bs [] = bs"
| "allocated bs (n # ns) = allocated (appended bs n) ns"

primrec pointers :: "block list \<Rightarrow> nat list \<Rightarrow> u32 list" where
  "pointers bs [] = []"
| "pointers bs (n # ns) = of_nat (heap_end bs + 12) # pointers (appended bs n) ns"

lemma heap_end_appended [simp]: "heap_end (appended bs n) = heap_end bs + n + 12"
  by (simp add: heap_end_def appended_def)

section \<open>A concrete kernel\<close>

definition workshop_demo :: demo_image where
  "workshop_demo = bare_demo\<lparr>a_pgd_kern := 0xC0100000\<rparr>"

definition workshop :: "event list \<Rightarrow> world" where
  "workshop evs = kernel.extend (bare_kernel\<lparr>mem := store32 demo_memory 0xC0120028 0xC0120000, pg_top := 16,
       pg_stack := (\<lambda>i. 0x200000 + 4096 * i), first := 0, mm_top := 0xE0000000,
       handlers := [32 \<mapsto> Timer_callback, 33 \<mapsto> Keyboard_handler], run_head := 0xC0120000, cur_proc := 0xC0120000, sti_flag := True\<rparr>)
     \<lparr>events = evs\<rparr>"

lemma workshop_fields:
  "mem (workshop evs) = store32 demo_memory 0xC0120028 0xC0120000" "pg_top (workshop evs) = 16" "pg_stack (workshop evs) = (\<lambda>i. 0x200000 + 4096 * i)"
  "first (workshop evs) = 0" "mm_top (workshop evs) = 0xE0000000" "handlers (workshop evs) = [32 \<mapsto> Timer_callback, 33 \<mapsto> Keyboard_handler]"
  "run_head (workshop evs) = 0xC0120000" "cur_proc (workshop evs) = 0xC0120000" "content (con_part (workshop evs)) = idle_keyboard"
  "events (workshop evs) = evs" "sti_flag (workshop evs)"
  by (simp_all add: workshop_def kernel.defs bare_kernel_def trap_state.defs)

lemma in_video_nat: "in_video x \<longleftrightarrow> 0xC00B8000 \<le> unat x \<and> unat x < 0xC00B8FA0"
  by (simp add: in_video_def word_le_nat_alt word_less_nat_alt)

lemma workshop_frames:
  "frames (workshop evs) =
    [0x210000, 0x20F000, 0x20E000, 0x20D000, 0x20C000, 0x20B000, 0x20A000, 0x209000,
     0x208000, 0x207000, 0x206000, 0x205000, 0x204000, 0x203000, 0x202000, 0x201000]"
proof -
  have "frames_from st 16 = map st [16, 15, 14, 13, 12, 11, 10, 9, 8, 7, 6, 5, 4, 3, 2, 1]" for st
    by (simp add: eval_nat_numeral)
  then show ?thesis by (simp add: frames_def workshop_fields)
qed

lemma workshop_shop: "shop workshop_demo 0xC0120000 [] (workshop evs)"
proof -
  have lp: "lits workshop_demo = literal_place" by (simp add: workshop_demo_def bare_demo_def)
  have lit: "0xC0200000 \<le> unat x \<and> unat x < 0xC0200600" if "in_range (literal_place l) (length (literal_text l) + 1) x" for l x
    using literal_place_bounds [OF that] by (simp add: word_le_nat_alt word_less_nat_alt)
  have nx: "in_range 0xC0120028 4 x \<longleftrightarrow> 0xC0120028 \<le> unat x \<and> unat x < 0xC012002C" for x :: u32
    by (simp add: in_range_nat)
  have nv: "\<not> in_video x" if "in_range 0xC0120028 4 x" for x using that by (simp add: nx in_video_nat)
  have sv: "serves 0xC0120000 (workshop evs)"
    by (simp add: serves_def workshop_fields ring1 p_next_def nv) (simp add: idle_keyboard_def cursor_ok_def)
  have mem: "mem (workshop evs) x = demo_memory x" if "\<not> in_range 0xC0120028 4 x" for x
    using that by (simp add: workshop_fields store32_other)
  have t: "text_at (mem (workshop evs)) (literal_place l) (literal_text l @ [0])" for l
  proof -
    have "text_at (mem (workshop evs)) (literal_place l) (literal_text l @ [0]) = text_at demo_memory (literal_place l) (literal_text l @ [0])"
      by (rule text_at_cong) (use literal_short [of l] lit [of l] nx mem in force)+
    then show ?thesis using demo_memory_literals by simp
  qed
  have rd: "ready workshop_demo 0xC0120000 (workshop evs)"
    unfolding ready_def lp using sv t by (auto simp: in_video_nat simp del: text_at_append dest!: lit [simplified])
  have pde: "load32 (mem (workshop evs)) (0xC0100000 + 4 * i) = 0" if "i < 1024" for i
  proof -
    have "load32 (mem (workshop evs)) (0xC0100000 + 4 * i) = load32 (\<lambda>_. 0) (0xC0100000 + 4 * i)"
    proof (rule load_cell_cong [OF _ that])
      fix x :: u32 assume "in_range 0xC0100000 4096 x"
      then have "unat x < 0xC0101000" by (simp add: in_range_nat)
      then show "mem (workshop evs) x = 0" using mem [of x] by (simp add: nx below_literals word_less_nat_alt)
    qed simp
    then show ?thesis by (simp add: load32_def)
  qed
  have pr: "\<not> present (mem (workshop evs)) 0xC0100000 i" if "i < 1024" for i using pde [OF that] by (simp add: present_def)
  note fr = workshop_frames
  have hi: "heap_inv 0xC0100000 (workshop evs) []"
    by (auto simp: heap_inv_def heap_end_def last_addr_def window_ok_def paging_inv_def stack_ok_def fr kpage_def pr pte_entry_def
        workshop_fields(2-) not_less [symmetric])
  have pg: "0xC0100000 \<le> unat x \<and> unat x < 0xC0101000 \<or> 0xC0201000 \<le> unat x \<and> unat x < 0xC0211000"
    if "page_cell 0xC0100000 (workshop evs) x" for x
    using that pr by (auto simp: page_cell_def fr in_range_nat)
  have "\<not> page_cell 0xC0100000 (workshop evs) x \<and> x < V_MM_START"
    if "local_cell workshop_demo x \<or> literal_cell workshop_demo x \<or> in_video x \<or> in_range 0xC0120000 44 x" for x
  proof -
    have "0xC00B8000 \<le> unat x \<and> unat x < 0xC00B9000 \<or> 0xC0120000 \<le> unat x \<and> unat x < 0xC0122000 \<or> 0xC0200000 \<le> unat x \<and> unat x < 0xC0200600"
      using that lit [of _ x] by (auto simp: local_cell_def literal_cell_def lp in_video_nat p_next_def nx in_range_nat workshop_demo_def bare_demo_def)
    then show ?thesis using pg [of x] by (auto simp: word_less_nat_alt)
  qed
  moreover have "a_pgd_kern workshop_demo = 0xC0100000" by (simp add: workshop_demo_def)
  ultimately show ?thesis using rd hi by (auto simp: shop_def)
qed

lemma workshop_apart: "locals_apart workshop_demo 0xC0120000"
proof -
  have lp: "lits workshop_demo = literal_place" by (simp add: workshop_demo_def bare_demo_def)
  have "\<not> in_video x \<and> \<not> in_range (p_next 0xC0120000) 4 x \<and> \<not> literal_cell workshop_demo x" if "local_cell workshop_demo x" for x
  proof -
    have "0xC0121000 \<le> unat x \<and> unat x < 0xC0122000"
      using that by (auto simp: local_cell_def in_range_nat workshop_demo_def bare_demo_def)
    then show ?thesis
      using literal_place_bounds(1) [of _ x] by (auto simp: in_video_nat p_next_def in_range_nat literal_cell_def lp word_le_nat_alt)
  qed
  then show ?thesis by (simp add: locals_apart_def workshop_demo_def bare_demo_def sep_def)
qed

end
