(* ===== verification/Demo_Malloc.thy ===== *)
theory Demo_Malloc
  imports Demo_Session
begin

text \<open>
  A session with the memory demonstration: commands and sizes are typed, blocks are allocated, and
  \<open>exit\<close> leads back to the menu. The allocator, the scanner, the keyboard driver and the console work
  on one state here.
\<close>

section \<open>The array of pointers\<close>

text \<open>The pointers in \<open>item\<close>.\<close>

definition items :: "demo_image \<Rightarrow> memory \<Rightarrow> u32 list \<Rightarrow> bool" where
  "items im m ps \<longleftrightarrow> (\<forall>i < length ps. load32 m (a_item im + 4 * of_nat i) = ps ! i)"

lemma item_cell:
  assumes "i < 20" "in_range (a_item im + 4 * of_nat i) 4 x" shows "in_range (a_item im) 80 x"
proof -
  have "unat (4 * of_nat i :: u32) = 4 * i" using assms(1) by (simp add: unat_word_ariths unat_of_nat)
  then show ?thesis using in_range_sub [OF assms(2), of 80] assms(1) by simp
qed

lemma items_cong:
  assumes "items im m ps" "length ps \<le> 20" "\<And>x. in_range (a_item im) 80 x \<Longrightarrow> m' x = m x"
  shows "items im m' ps"
proof -
  have "load32 m' (a_item im + 4 * of_nat i) = load32 m (a_item im + 4 * of_nat i)" if "i < length ps" for i
    by (rule load32_cong) (use item_cell [of i im] that assms(2,3) in auto)
  then show ?thesis using assms(1) by (simp add: items_def)
qed

lemma items_store:
  assumes "items im m ps" "length ps < 20"
  shows "items im (store32 m (a_item im + 4 * of_nat (length ps)) v) (ps @ [v])"
proof -
  have "load32 (store32 m (a_item im + 4 * of_nat (length ps)) v) (a_item im + 4 * of_nat i) = load32 m (a_item im + 4 * of_nat i)"
    if "i < length ps" for i
  proof -
    have u: "unat (4 * of_nat j :: u32) = 4 * j" if "j < 20" for j using that by (simp add: unat_word_ariths unat_of_nat)
    have lt: "(4 * of_nat i :: u32) < 4 * of_nat (length ps)" using u [of i] u [of "length ps"] that assms(2) by (simp add: word_less_nat_alt)
    define a b where "a = (4 * of_nat (length ps) :: u32)" and "b = (4 * of_nat i :: u32)"
    have ab: "unat a = 4 * length ps" "unat b = 4 * i" using u [of i] u [of "length ps"] that assms(2) by (simp_all add: a_def b_def)
    have "unat (a - b) = 4 * length ps - 4 * i" using ab lt by (subst unat_sub) (simp_all add: a_def b_def)
    moreover have "unat (b - a) = 2 ^ 32 + 4 * i - 4 * length ps"
      using ab lt that by (simp add: unat_sub_if' a_def b_def)
    ultimately have "sep (a_item im + a) 4 (a_item im + b) 4" using that assms(2) by (simp add: sep_def) arith
    then show ?thesis by (simp add: load32_store32_sep a_def b_def)
  qed
  then show ?thesis using assms(1) by (auto simp: items_def nth_append less_Suc_eq)
qed

text \<open>The line that reports an allocation.\<close>

lemma started_pieces:
  "literal_text L_started =
     format_of [Text (ascii ''the ''), Signed n, Text (ascii '' memory start from 0x''), Hex_upper v, Text [10, 10]]"
  by (simp add: ascii_def)

lemma shop_started:
  assumes "shop im p bs w" "locals_apart im p"
  shows "\<exists>w'. say im L_started [n, v] w = Some (Inr w') \<and> shop im p bs w' \<and> step (\<lambda>_. False) w (events w) w'"
proof -
  let ?ps = "[Text (ascii ''the ''), Signed n, Text (ascii '' memory start from 0x''), Hex_upper v, Text [10, 10]]"
  have "list_all (piece_ok (mem w)) ?ps" by (simp add: plain_def ascii_def)
  moreover have "length (output_of ?ps) < 1024"
    using decimal_length [of n] hexadecimal_length [of v] by (simp add: ascii_def hexadecimal_upper_def hexadecimal_def)
  ultimately show ?thesis using shop_say [OF assms started_pieces [of n v]] by simp
qed

lemma shop_item:
  assumes s: "shop im p bs w" and l: "locals_apart im p" and i: "i < 20"
  shows "shop im p bs (w\<lparr>mem := store32 (mem w) (a_item im + 4 * of_nat i) v\<rparr>)" (is "shop im p bs ?w")
proof -
  have loc: "local_cell im x" if "in_range (a_item im + 4 * of_nat i) 4 x" for x
    using item_cell [OF i that] by (simp add: local_cell_def)
  have other: "mem ?w x = mem w x" if "\<not> local_cell im x" for x using loc [of x] that by (auto intro: store32_other)
  have sv: "serves p w" using s by (simp add: shop_def ready_def)
  have "load32 (mem ?w) (p_next p) = load32 (mem w) (p_next p)"
    using l by (intro load32_cong other) (auto simp: locals_apart_def)
  then have "serves p ?w" using sv by (simp add: serves_def ring1)
  then show ?thesis by (rule shop_keeps(1) [OF s _ _ l]) (use other in \<open>simp_all add: same_kernel_def\<close>)
qed

lemma local_parts:
  assumes "locals_apart im p"
  shows "in_range (a_code im) 20 x \<Longrightarrow> \<not> in_video x \<and> \<not> in_range (a_item im) 80 x \<and> \<not> in_range (a_size im) 4 x"
    and "in_range (a_item im) 80 x \<Longrightarrow> \<not> in_video x \<and> \<not> in_range (a_code im) 20 x \<and> \<not> in_range (a_size im) 4 x"
    and "in_range (a_size im) 4 x \<Longrightarrow> \<not> in_video x \<and> \<not> in_range (a_code im) 20 x \<and> \<not> in_range (a_item im) 80 x"
proof -
  have "sep (a_size im) 4 (a_code im) 20" "sep (a_item im) 80 (a_code im) 20" "sep (a_item im) 80 (a_size im) 4"
    using assms by (simp_all add: locals_apart_def)
  moreover have "local_cell im x \<Longrightarrow> \<not> in_video x" using assms by (simp add: locals_apart_def)
  ultimately show "in_range (a_code im) 20 x \<Longrightarrow> \<not> in_video x \<and> \<not> in_range (a_item im) 80 x \<and> \<not> in_range (a_size im) 4 x"
    "in_range (a_item im) 80 x \<Longrightarrow> \<not> in_video x \<and> \<not> in_range (a_code im) 20 x \<and> \<not> in_range (a_size im) 4 x"
    "in_range (a_size im) 4 x \<Longrightarrow> \<not> in_video x \<and> \<not> in_range (a_code im) 20 x \<and> \<not> in_range (a_item im) 80 x"
    using sep_in_range by (auto simp: local_cell_def)
qed

lemma code_keeps:
  assumes "cstr m (a_code im) v" "word_ok v" "\<And>x. in_range (a_code im) 20 x \<Longrightarrow> m' x = m x"
  shows "cstr m' (a_code im) v"
proof -
  have "cstr m' (a_code im) v \<longleftrightarrow> cstr m (a_code im) v"
    by (rule cstr_cong) (use assms(2,3) in \<open>auto simp: word_ok_def in_range_def\<close>)
  then show ?thesis using assms(1) by simp
qed

section \<open>One turn\<close>

text \<open>The prompt and the word that is typed at it.\<close>

lemma turn_reads:
  assumes s: "shop im p bs w" and l: "locals_apart im p" and v: "word_ok v" and e: "events w = evs @ rest" "line_events v evs"
  obtains w1 w2 where "say im L_prompt [] w = Some (Inr w1)" "ask run im L_string (a_code im) w1 = Some (Inr w2)" "shop im p bs w2"
    "cstr (mem w2) (a_code im) v" "events w2 = rest" "frames w2 = frames w" "missing L w2 = missing L w"
    "reads (con w2) = reads (con w)" "\<And>x. in_range (a_item im) 80 x \<Longrightarrow> mem w2 x = mem w x"
proof -
  obtain w1 where w1: "say im L_prompt [] w = Some (Inr w1)" "shop im p bs w1" "step (\<lambda>_. False) w (events w) w1"
    using shop_say_plain [OF s l, of L_prompt] by auto
  have e1: "events w1 = evs @ rest" using w1(3) e(1) by (simp add: step_def)
  have loc: "\<And>x. in_range (a_code im) 20 x \<Longrightarrow> local_cell im x" by (simp add: local_cell_def)
  obtain w2 where w2: "ask run im L_string (a_code im) w1 = Some (Inr w2)" "shop im p bs w2" "step (in_range (a_code im) 20) w1 rest w2"
      "cstr (mem w2) (a_code im) v"
    using shop_ask_word [OF w1(2) l v loc e1 e(2)] by blast
  have sv: "serves p w1" "serves p w2" using w1(2) w2(2) by (simp_all add: shop_def ready_def)
  have k1: "frames w1 = frames w" "missing L w1 = missing L w" "reads (con w1) = reads (con w)"
    using shop_step(2,3,5) [OF s sv(1) w1(3) l] by simp_all
  have k2: "frames w2 = frames w1" "missing L w2 = missing L w1" "events w2 = rest" "reads (con w2) = reads (con w1)"
    using shop_step(2,3,4,5) [OF w1(2) sv(2) w2(3) l loc] by simp_all
  have "mem w2 x = mem w x" if "in_range (a_item im) 80 x" for x
    using step_bytes [OF w2(3), of x] step_bytes [OF w1(3), of x] local_parts(2) [OF l that] by simp
  then show thesis using that w1(1) w2(1,2,4) k1 k2 by simp
qed

text \<open>A word that is no command changes nothing; \<open>exit\<close> ends the loop.\<close>

lemma turn_word:
  assumes s: "shop im p bs w" and l: "locals_apart im p" and v: "word_ok v" and e: "events w = evs @ rest" "line_events v evs"
    and nc: "v \<noteq> literal_text L_malloc" "v \<noteq> literal_text L_free"
  obtains w' where "malloc_turn run im k w = Some (Inr (k, v \<noteq> literal_text L_exit, w'))" "shop im p bs w'" "events w' = rest"
    "frames w' = frames w" "missing L w' = missing L w" "reads (con w') = reads (con w)" "\<And>x. in_range (a_item im) 80 x \<Longrightarrow> mem w' x = mem w x"
proof -
  obtain w1 w2 where r: "say im L_prompt [] w = Some (Inr w1)" "ask run im L_string (a_code im) w1 = Some (Inr w2)" "shop im p bs w2"
      "cstr (mem w2) (a_code im) v" "events w2 = rest" "frames w2 = frames w" "missing L w2 = missing L w"
      "reads (con w2) = reads (con w)" "\<And>x. in_range (a_item im) 80 x \<Longrightarrow> mem w2 x = mem w x"
    using turn_reads [OF s l v e] by blast
  have pl: "plain (literal_text t)" if "t \<in> {L_malloc, L_free, L_exit}" for t using that literal_plain [of t] by auto
  have wc: "when_code im t act skip w2 = (if v = literal_text t then act w2 else Some (Inr (skip w2)))" if "t \<in> {L_malloc, L_free, L_exit}"
    for t and act :: "world \<Rightarrow> 'b result option" and skip by (rule when_code_eq [OF r(3,4) pl [OF that]])
  have "malloc_turn run im k w = Some (Inr (k, v \<noteq> literal_text L_exit, w2))"
    using r(1,2) nc by (auto simp: malloc_turn_def wc simp del: literal_text.simps)
  then show thesis using that r(3,5-9) by blast
qed

text \<open>\<open>malloc\<close> and a size: the block is appended to the heap and its pointer to \<open>item\<close>.\<close>

lemma malloc_word: "word_ok (literal_text L_malloc)" "word_ok (literal_text L_exit)"
  by (simp_all add: word_ok_def ascii_def isspace_def)

lemma cmd_malloc_appends:
  assumes s: "shop im p bs w" and l: "locals_apart im p" and e: "events w = evs @ rest" "line_events (decimal n) evs"
    and room: "heap_end bs + unat n + 12 \<le> L" "L \<le> 0xFFFFF000" and fr: "2 * missing L w \<le> length (frames w)"
    and it: "items im (mem w) ps" "length ps < 20"
  obtains w' where "cmd_malloc run im (length ps) w = Some (Inr (length ps + 1, w'))" "shop im p (appended bs (unat n)) w'"
    "events w' = rest" "2 * missing L w' \<le> length (frames w')" "items im (mem w') (ps @ [of_nat (heap_end bs + 12)])"
    "reads (con w') = reads (con w)" "\<And>x. in_range (a_code im) 20 x \<Longrightarrow> mem w' x = mem w x"
proof -
  let ?bs = "appended bs (unat n)"
  obtain v :: u32 where v: "v = of_nat (heap_end bs + 12)" by blast
  have lp: "length ps \<le> 20" using it(2) by simp
  have loc: "\<And>x. in_range (a_size im) 4 x \<Longrightarrow> local_cell im x" by (simp add: local_cell_def)
  obtain w1 where w1: "say im L_ask_size [] w = Some (Inr w1)" "shop im p bs w1" "step (\<lambda>_. False) w (events w) w1"
    using shop_say_plain [OF s l, of L_ask_size] by auto
  have e1: "events w1 = evs @ rest" using w1(3) e(1) by (simp add: step_def)
  obtain w2 where w2: "ask run im L_number (a_size im) w1 = Some (Inr w2)" "shop im p bs w2" "step (in_range (a_size im) 4) w1 rest w2"
      "load32 (mem w2) (a_size im) = n"
    using shop_ask_number [OF w1(2) l e1 e(2)] by blast
  have sv: "serves p w1" "serves p w2" using w1(2) w2(2) by (simp_all add: shop_def ready_def)
  have k: "2 * missing L w2 \<le> length (frames w2)" "events w2 = rest" "reads (con w2) = reads (con w)"
    using shop_step(2,3,5) [OF s sv(1) w1(3) l] shop_step(2,3,4,5) [OF w1(2) sv(2) w2(3) l loc] fr by simp_all
  obtain w3 where w3: "kmalloc (a_pgd_kern im) n w2 = Inr (v, w3)" "shop im p ?bs w3" "2 * missing L w3 \<le> length (frames w3)"
      "events w3 = events w2" "reads (con w3) = reads (con w2)" "\<And>x. local_cell im x \<Longrightarrow> mem w3 x = mem w2 x"
    using shop_kmalloc [OF w2(2) room k(1)] unfolding v by blast
  let ?m = "store32 (mem w3) (a_item im + 4 * of_nat (length ps)) v"
  note s4 = shop_item [OF w3(2) l it(2), of v]
  obtain w5 where w5: "say im L_started [n, v] (w3\<lparr>mem := ?m\<rparr>) = Some (Inr w5)" "shop im p ?bs w5"
      "step (\<lambda>_. False) (w3\<lparr>mem := ?m\<rparr>) (events w3) w5"
    using shop_started [OF s4 l, of n v] by auto
  have out: "?m x = mem w3 x" if "\<not> in_range (a_item im) 80 x" for x
    using item_cell [OF it(2), of im x] that by (intro store32_other) blast
  have sz: "load32 ?m (a_size im) = n"
  proof -
    have "load32 ?m (a_size im) = load32 (mem w2) (a_size im)"
      by (rule load32_cong) (use out local_parts(3) [OF l] w3(6) loc in auto)
    then show ?thesis using w2(4) by simp
  qed
  have "cmd_malloc run im (length ps) w = Some (Inr (length ps + 1, w5))"
    using w1(1) w2(1) w3(1) w5(1) it(2) by (simp add: cmd_malloc_def w2(4) sz Let_def)
  moreover have "items im (mem w5) (ps @ [v])"
  proof -
    have "items im (mem w2) ps"
      by (rule items_cong [OF it(1) lp]) (use step_bytes [OF w2(3)] step_bytes [OF w1(3)] local_parts(2) [OF l] in simp)
    then have "items im (mem w3) ps" by (rule items_cong [OF _ lp]) (simp add: w3(6) local_cell_def)
    then have "items im ?m (ps @ [v])" by (rule items_store) (rule it(2))
    then show ?thesis
      by (rule items_cong) (use it(2) step_bytes [OF w5(3)] local_parts(2) [OF l] in simp_all)
  qed
  moreover have "2 * missing L w5 \<le> length (frames w5)" "reads (con w5) = reads (con w)"
  proof -
    have "serves p w5" using w5(2) by (simp add: shop_def ready_def)
    from shop_step(2,3,5) [OF s4 this w5(3) l]
    show "2 * missing L w5 \<le> length (frames w5)" "reads (con w5) = reads (con w)"
      using w3(3,5) k(3) by (simp_all add: missing_def frames_def)
  qed
  moreover have "mem w5 x = mem w x" if c: "in_range (a_code im) 20 x" for x
  proof -
    have "local_cell im x" using c by (simp add: local_cell_def)
    then show ?thesis
      using step_bytes [OF w5(3), of x] step_bytes [OF w2(3), of x] step_bytes [OF w1(3), of x] local_parts(1) [OF l c] out [of x] w3(6) [of x]
      by simp
  qed
  moreover have "events w5 = rest" using w5(3) w3(4) k(2) by (simp add: step_def)
  ultimately show thesis using that w5(2) unfolding v by blast
qed

lemma turn_malloc:
  assumes s: "shop im p bs w" and l: "locals_apart im p"
    and e: "events w = e1 @ e2 @ rest" "line_events (literal_text L_malloc) e1" "line_events (decimal n) e2"
    and room: "heap_end bs + unat n + 12 \<le> L" "L \<le> 0xFFFFF000" and fr: "2 * missing L w \<le> length (frames w)"
    and it: "items im (mem w) ps" "length ps < 20"
  obtains w' where "malloc_turn run im (length ps) w = Some (Inr (length ps + 1, True, w'))" "shop im p (appended bs (unat n)) w'"
    "events w' = rest" "2 * missing L w' \<le> length (frames w')" "items im (mem w') (ps @ [of_nat (heap_end bs + 12)])"
    "reads (con w') = reads (con w)"
proof -
  let ?v = "literal_text L_malloc"
  obtain w1 w2 where r: "say im L_prompt [] w = Some (Inr w1)" "ask run im L_string (a_code im) w1 = Some (Inr w2)" "shop im p bs w2"
      "cstr (mem w2) (a_code im) ?v" "events w2 = e2 @ rest" "frames w2 = frames w" "missing L w2 = missing L w"
      "\<And>x. in_range (a_item im) 80 x \<Longrightarrow> mem w2 x = mem w x" "reads (con w2) = reads (con w)"
    using turn_reads [OF s l malloc_word(1) e(1,2)] by blast
  have it2: "items im (mem w2) ps" by (rule items_cong [OF it(1)]) (use it(2) r(8) in simp_all)
  have fr2: "2 * missing L w2 \<le> length (frames w2)" using fr r(6,7) by simp
  obtain w3 where w3: "cmd_malloc run im (length ps) w2 = Some (Inr (length ps + 1, w3))" "shop im p (appended bs (unat n)) w3"
    "events w3 = rest" "2 * missing L w3 \<le> length (frames w3)" "items im (mem w3) (ps @ [of_nat (heap_end bs + 12)])"
    "\<And>x. in_range (a_code im) 20 x \<Longrightarrow> mem w3 x = mem w2 x" "reads (con w3) = reads (con w2)"
    using cmd_malloc_appends [OF r(3) l r(5) e(3) room fr2 it2 it(2)] by blast
  have c3: "cstr (mem w3) (a_code im) ?v" by (rule code_keeps [OF r(4) malloc_word(1) w3(6)])
  have pl: "plain (literal_text t)" if "t \<in> {L_malloc, L_free, L_exit}" for t using that literal_plain [of t] by auto
  have ne: "?v \<noteq> literal_text L_free" "?v \<noteq> literal_text L_exit" by (simp_all add: ascii_def)
  have "malloc_turn run im (length ps) w = Some (Inr (length ps + 1, True, w3))"
    using r(1,2) w3(1) ne
    by (simp add: malloc_turn_def when_code_eq [OF r(3,4) pl] when_code_eq [OF w3(2) c3 pl] del: literal_text.simps)
  moreover have "reads (con w3) = reads (con w)" using w3(7) r(9) by simp
  ultimately show thesis using that w3(2-5) by blast
qed

section \<open>A session\<close>

text \<open>What is typed: \<open>malloc\<close> with a size, or a word that is no command.\<close>

datatype command = Malloc u32 | Other "u8 list"

primrec typed_command :: "command \<Rightarrow> event list \<Rightarrow> bool" where
  "typed_command (Malloc n) evs \<longleftrightarrow>
     (\<exists>e1 e2. evs = e1 @ e2 \<and> line_events (literal_text L_malloc) e1 \<and> line_events (decimal n) e2)"
| "typed_command (Other v) evs \<longleftrightarrow> line_events v evs \<and> word_ok v \<and> v \<notin> literal_text ` {L_malloc, L_free, L_exit}"

text \<open>Commands, and \<open>exit\<close> at the end.\<close>

primrec typed_session :: "command list \<Rightarrow> event list \<Rightarrow> bool" where
  "typed_session [] evs \<longleftrightarrow> line_events (literal_text L_exit) evs"
| "typed_session (c # cmds) evs \<longleftrightarrow> (\<exists>e1 e2. evs = e1 @ e2 \<and> typed_command c e1 \<and> typed_session cmds e2)"

primrec sizes :: "command list \<Rightarrow> nat list" where
  "sizes [] = []"
| "sizes (c # cmds) = (case c of Malloc n \<Rightarrow> unat n # sizes cmds | Other v \<Rightarrow> sizes cmds)"

lemma malloc_loop_session:
  "shop im p bs w \<Longrightarrow> locals_apart im p \<Longrightarrow> typed_session cmds evs \<Longrightarrow> events w = evs @ rest \<Longrightarrow> items im (mem w) ps \<Longrightarrow>
     length ps + length (sizes cmds) \<le> 20 \<Longrightarrow> heap_end bs + sum_list (map (\<lambda>n. n + 12) (sizes cmds)) \<le> L \<Longrightarrow> L \<le> 0xFFFFF000 \<Longrightarrow>
     2 * missing L w \<le> length (frames w) \<Longrightarrow>
   \<exists>w'. malloc_loop run im (length ps) w = Some (Inr w') \<and> shop im p (allocated bs (sizes cmds)) w' \<and> events w' = rest \<and>
     items im (mem w') (ps @ pointers bs (sizes cmds)) \<and> reads (con w') = reads (con w)"
proof (induction cmds arbitrary: bs w evs ps)
  case Nil
  have e: "line_events (literal_text L_exit) evs" using Nil.prems(3) by simp
  have ne: "literal_text L_exit \<noteq> literal_text L_malloc" "literal_text L_exit \<noteq> literal_text L_free" by (simp_all add: ascii_def)
  obtain w' where w': "malloc_turn run im (length ps) w = Some (Inr (length ps, False, w'))" "shop im p bs w'" "events w' = rest"
      "\<And>x. in_range (a_item im) 80 x \<Longrightarrow> mem w' x = mem w x" "reads (con w') = reads (con w)"
    using turn_word [OF Nil.prems(1,2) malloc_word(2) Nil.prems(4) e ne, of run "length ps" L] by auto
  have "items im (mem w') ps" by (rule items_cong [OF Nil.prems(5)]) (use Nil.prems(6) w'(4) in simp_all)
  moreover have "malloc_loop run im (length ps) w = Some (Inr w')" using w'(1) by (subst malloc_loop.simps) simp
  ultimately show ?case using w'(2,3,5) by simp
next
  case (Cons c cmds)
  obtain e1 e2 where e: "evs = e1 @ e2" "typed_command c e1" "typed_session cmds e2" using Cons.prems(3) by auto
  show ?case
  proof (cases c)
    case (Malloc n)
    obtain d1 d2 where d: "e1 = d1 @ d2" "line_events (literal_text L_malloc) d1" "line_events (decimal n) d2"
      using e(2) Malloc by auto
    have ev: "events w = d1 @ d2 @ e2 @ rest" using Cons.prems(4) e(1) d(1) by simp
    have room: "heap_end bs + unat n + 12 \<le> L" "length ps < 20" using Cons.prems(6,7) Malloc by simp_all
    obtain v where v: "malloc_turn run im (length ps) w = Some (Inr (length ps + 1, True, v))" "shop im p (appended bs (unat n)) v"
        "events v = e2 @ rest" "2 * missing L v \<le> length (frames v)" "items im (mem v) (ps @ [of_nat (heap_end bs + 12)])"
        "reads (con v) = reads (con w)"
      using turn_malloc [OF Cons.prems(1,2) ev d(2,3) room(1) Cons.prems(8,9,5) room(2)] by blast
    have "malloc_loop run im (length ps) w = malloc_loop run im (length (ps @ [of_nat (heap_end bs + 12)])) v"
      using v(1) by (subst malloc_loop.simps) simp
    moreover have "length (ps @ [of_nat (heap_end bs + 12)]) + length (sizes cmds) \<le> 20" using Cons.prems(6) Malloc by simp
    moreover have "heap_end (appended bs (unat n)) + sum_list (map (\<lambda>n. n + 12) (sizes cmds)) \<le> L"
      using Cons.prems(7) Malloc by simp
    ultimately show ?thesis
      using Cons.IH [OF v(2) Cons.prems(2) e(3) v(3,5) _ _ Cons.prems(8) v(4)] Malloc v(6) by auto
  next
    case (Other x)
    have o: "line_events x e1" "word_ok x" "x \<noteq> literal_text L_malloc" "x \<noteq> literal_text L_free" "x \<noteq> literal_text L_exit"
      using e(2) Other by (auto simp del: literal_text.simps)
    have ev: "events w = e1 @ e2 @ rest" using Cons.prems(4) e(1) by simp
    obtain v where v: "malloc_turn run im (length ps) w = Some (Inr (length ps, x \<noteq> literal_text L_exit, v))" "shop im p bs v"
        "events v = e2 @ rest" "frames v = frames w" "missing L v = missing L w"
        "\<And>x. in_range (a_item im) 80 x \<Longrightarrow> mem v x = mem w x" "reads (con v) = reads (con w)"
      using turn_word [OF Cons.prems(1,2) o(2) ev o(1,3,4), of run "length ps" L] by blast
    have it: "items im (mem v) ps" by (rule items_cong [OF Cons.prems(5)]) (use Cons.prems(6) v(6) in simp_all)
    have "malloc_loop run im (length ps) w = malloc_loop run im (length ps) v"
      using v(1) o(5) by (subst malloc_loop.simps) (simp del: literal_text.simps)
    then show ?thesis
      using Cons.IH [OF v(2) Cons.prems(2) e(3) v(3) it] Cons.prems(6-9) v(4,5,7) Other by simp
  qed
qed

text \<open>
  The whole demonstration, called with interrupts on or off: when the lines of \<open>malloc\<close> commands with their sizes, of words that are no
  command, and finally of \<open>exit\<close> are typed, it comes back to the menu, with one block more for each size.
\<close>

lemma testMalloc_runs:
  assumes "shop im p bs (w\<lparr>sti_flag := True\<rparr>)" "locals_apart im p" "typed_session cmds evs" "events w = evs @ rest"
    and "length (sizes cmds) \<le> 20" "heap_end bs + sum_list (map (\<lambda>n. n + 12) (sizes cmds)) \<le> L" "L \<le> 0xFFFFF000"
    and "2 * missing L w \<le> length (frames w)"
  shows "\<exists>w'. testMalloc run im w = Some (Inr w') \<and> shop im p (allocated bs (sizes cmds)) w' \<and>
    items im (mem w') (pointers bs (sizes cmds)) \<and> events w' = rest \<and> reads (con w') = reads (con w) \<and>
    screen_of (con w') = shown 0 15 (literal_text L_f1 @ literal_text L_f2) blank_screen"
proof -
  let ?w = "w\<lparr>sti_flag := True\<rparr>"
  note s0 = assms(1)
  note c = shop_clear [OF s0 assms(2)]
  obtain w1 where w1: "say im L_title [] (w_clear ?w) = Some (Inr w1)" "shop im p bs w1" "step (\<lambda>_. False) (w_clear ?w) (events (w_clear ?w)) w1"
    using shop_say_plain [OF c(1) assms(2), of L_title] by auto
  have sv: "serves p (w_clear ?w)" "serves p w1" using c(1) w1(2) by (simp_all add: shop_def ready_def)
  have "2 * missing L w1 \<le> length (frames w1)"
    using shop_step(2,3) [OF c(1) sv(2) w1(3) assms(2)] shop_step(2,3) [OF s0 sv(1) c(2) assms(2)] assms(8)
    by (simp add: missing_def frames_def)
  moreover have "events w1 = evs @ rest" using w1(3) c(2) assms(4) by (simp add: step_def)
  moreover have "items im (mem w1) []" by (simp add: items_def)
  ultimately obtain w2 where w2: "malloc_loop run im 0 w1 = Some (Inr w2)" "shop im p (allocated bs (sizes cmds)) w2" "events w2 = rest"
      "items im (mem w2) (pointers bs (sizes cmds))" "reads (con w2) = reads (con w1)"
    using malloc_loop_session [OF w1(2) assms(2,3), of rest "[]" L run] assms(5-7) by auto
  have rd: "ready im p w2" using w2(2) by (simp add: shop_def)
  obtain w3 where w3: "showMemu im w2 = Some (Inr w3)" "ready im p w3"
      "displays w2 (\<lambda>_. shown 0 15 (literal_text L_f1 @ literal_text L_f2) blank_screen) w3" "events w3 = events w2"
    using showMemu_shows [OF rd] by blast
  have st: "step (\<lambda>_. False) w2 rest w3" using w3(3,4) w2(3) by (simp add: step_def displays_def)
  have sv3: "serves p w3" using w3(2) by (simp add: ready_def)
  note s3 = shop_step(1,4) [OF w2(2) sv3 st assms(2)]
  have len: "length (pointers bs ns) = length ns" for bs ns by (induction ns arbitrary: bs) simp_all
  have "items im (mem w3) (pointers bs (sizes cmds))"
    by (rule items_cong [OF w2(4)]) (use assms(5) len step_bytes [OF st] local_parts(2) [OF assms(2)] in simp_all)
  moreover have "testMalloc run im w = Some (Inr w3)" using w1(1) w2(1) w3(1) by (simp add: testMalloc_def Let_def)
  moreover have "reads (con w3) = reads (con w)"
    using st w2(5) w1(3) c(2) by (simp add: step_def same_kernel_def)
  ultimately show ?thesis
    using s3 w3(3) by (intro exI [of _ w3]) (simp add: displays_def del: literal_text.simps)
qed

section \<open>A concrete session\<close>

text \<open>\<open>malloc\<close>, \<open>100\<close> and \<open>exit\<close>, with a clock tick after the first line.\<close>

definition malloc_line :: "event list" where
  "malloc_line = [key_event 0x32, key_event 0x1E, key_event 0x26, key_event 0x26, key_event 0x18, key_event 0x2E, key_event 0x1C]"

definition hundred_line :: "event list" where
  "hundred_line = [clock_tick, key_event 0x02, key_event 0x0B, key_event 0x0B, key_event 0x1C]"

definition exit_line :: "event list" where
  "exit_line = [key_event 0x12, key_event 0x2D, key_event 0x17, key_event 0x14, key_event 0x1C]"

lemma decimal_100: "decimal 100 = [49, 48, 48]"
  by (simp add: decimal_def sint32 digits_of_def low_digits.simps)

lemma session_lines:
  "typed_session [Malloc 100] ((malloc_line @ hundred_line) @ exit_line)"
proof -
  note d = line_events_def key_event_def clock_tick_def benign_def types_of_def typed_by_def key_tab_def key_map_def ascii_def
  have "line_events (literal_text L_malloc) malloc_line" by (simp add: malloc_line_def d)
  moreover have "line_events (decimal 100) hundred_line" by (simp add: hundred_line_def decimal_100 d)
  moreover have "line_events (literal_text L_exit) exit_line" by (simp add: exit_line_def d)
  ultimately show ?thesis unfolding typed_session.simps typed_command.simps by blast
qed

end
