(* ===== verification/Demo_Process.thy ===== *)
theory Demo_Process
  imports Demo_Session
begin

text \<open>
  The process demonstration: three strings are read from the keyboard, and three threads are started
  that print them. The run list then holds the boot process and the three threads, in this order.
\<close>

section \<open>The clock is set up again\<close>

text \<open>\<open>init_timer\<close> sets the handler that is set already, the clock, and the divisor of the timer.\<close>

lemma init_timer_shop:
  assumes s: "shop im p bs (w\<lparr>sti_flag := True\<rparr>)" and l: "locals_apart im p"
  shows "\<exists>w'. init_timer 5 (w\<lparr>sti_flag := False\<rparr>) = Inr w' \<and> shop im p bs (w'\<lparr>sti_flag := True\<rparr>) \<and>
    step (\<lambda>_. False) (w\<lparr>sti_flag := True\<rparr>) (events w) (w'\<lparr>sti_flag := True\<rparr>) \<and> ticks w' = 0"
proof -
  let ?w = "w\<lparr>sti_flag := True\<rparr>"
  have sv: "serves p ?w" using s by (simp add: shop_def ready_def)
  then have h: "handlers w 32 = Some Timer_callback" by (simp add: serves_def)
  have idem: "(handlers w)(32 \<mapsto> Timer_callback) = handlers w" using h by (simp add: fun_upd_idem)
  define w' where "w' = w\<lparr>ticks := 0, ports := ports w @ [(0x43, 0x36), (0x40, 44), (0x40, 164)], sti_flag := False\<rparr>"
  have r: "init_timer 5 (w\<lparr>sti_flag := False\<rparr>) = Inr w'"
    by (simp add: init_timer_def Let_def outb_def register_interrupt_handler_def idem w'_def)
  have "serves p (w'\<lparr>sti_flag := True\<rparr>)" using sv by (simp add: w'_def serves_def)
  moreover have st: "step (\<lambda>_. False) ?w (events w) (w'\<lparr>sti_flag := True\<rparr>)" by (simp add: step_def w'_def same_kernel_def)
  ultimately show ?thesis using r shop_step(1) [OF s _ st l] by (simp add: w'_def)
qed

section \<open>Asking for the strings\<close>

text \<open>One question: the string is stored, the other variables stay.\<close>

lemma ask_string_stores:
  assumes s: "shop im p bs w" and l: "locals_apart im p" and t: "t \<in> {L_ask_A, L_ask_B, L_ask_C}" and v: "word_ok v"
    and a: "\<And>x. in_range a 20 x \<Longrightarrow> local_cell im x" and e: "events w = evs @ rest" "line_events v evs"
  obtains w' where "ask_string run im t a w = Some (Inr w')" "shop im p bs w'" "step (in_range a 20) w rest w'"
    "frames w' = frames w" "missing L w' = missing L w" "cstr (mem w') a v" "reads (con w') = reads (con w)"
proof -
  obtain w1 where w1: "say im t [] w = Some (Inr w1)" "shop im p bs w1" "step (\<lambda>_. False) w (events w) w1"
    using shop_say_plain [OF s l, of t] t by auto
  have e1: "events w1 = evs @ rest" using w1(3) e(1) by (simp add: step_def)
  obtain w2 where w2: "ask run im L_string a w1 = Some (Inr w2)" "shop im p bs w2" "step (in_range a 20) w1 rest w2" "cstr (mem w2) a v"
    using shop_ask_word [OF w1(2) l v a e1 e(2)] by blast
  obtain w3 where w3: "say im L_newline [] w2 = Some (Inr w3)" "shop im p bs w3" "step (\<lambda>_. False) w2 (events w2) w3"
    using shop_say_plain [OF w2(2) l, of L_newline] by auto
  have st: "step (in_range a 20) w rest w3"
    using step_trans [OF step_trans [OF w1(3) w2(3), of "in_range a 20"] w3(3), of "in_range a 20"] w2(3) by (auto simp: step_def)
  have sv: "serves p w3" using w3(2) by (simp add: shop_def ready_def)
  have "in_range a 20 x \<Longrightarrow> \<not> in_video x" for x using a [of x] l by (simp add: locals_apart_def)
  then have "cstr (mem w3) a v"
    using w2(4) v step_bytes [OF w3(3)] by (subst cstr_cong [where m = "mem w2"]) (auto simp: word_ok_def in_range_def)
  moreover have "ask_string run im t a w = Some (Inr w3)" using w1(1) w2(1) w3(1) by (simp add: ask_string_def)
  ultimately show thesis using that w3(2) st shop_step(2,3,5) [OF s sv st l a] by blast
qed

text \<open>A string stays when others are written.\<close>

lemma string_stays:
  assumes "cstr m a v" "word_ok v" "\<And>x. in_range a 20 x \<Longrightarrow> m' x = m x" shows "cstr m' a v"
proof -
  have "cstr m' a v \<longleftrightarrow> cstr m a v"
    by (rule cstr_cong) (use assms(2,3) in \<open>auto simp: word_ok_def in_range_def\<close>)
  then show ?thesis using assms(1) by simp
qed

section \<open>Starting the threads\<close>

text \<open>A kernel with a heap and the boot process alone has no thread yet.\<close>

lemma shop_threads:
  assumes "shop im p bs w" shows "threads_inv (a_pgd_kern im) texit p bs [] w" "cur_proc w = p"
  using assms by (auto simp: shop_def ready_def serves_def threads_inv_def)

lemma start_thread_inv:
  assumes "threads_inv (a_pgd_kern im) (a_thread_exit im) p bs ths w" "heap_end bs + 8204 \<le> L" "L \<le> 0xFFFFF000"
    and "2 * missing L w \<le> length (frames w)"
  obtains w' where "start_thread im fn arg w = Some (Inr w')"
    "threads_inv (a_pgd_kern im) (a_thread_exit im) p (appended bs 8192) (ths @ [(of_nat (heap_end bs + 12), fn, arg)]) w'"
    "2 * missing L w' \<le> length (frames w')" "spawned w w'"
    "\<And>x. \<not> page_cell (a_pgd_kern im) w x \<Longrightarrow> x < V_MM_START \<Longrightarrow> \<not> in_range (p_next p) 4 x \<Longrightarrow>
       mem w' x = mem w x \<and> \<not> page_cell (a_pgd_kern im) w' x"
proof -
  obtain w' where w': "init_thread (a_pgd_kern im) (a_thread_exit im) fn arg w = Inr (cur_pid w, w')"
    "threads_inv (a_pgd_kern im) (a_thread_exit im) p (appended bs 8192) (ths @ [(of_nat (heap_end bs + 12), fn, arg)]) w'"
    "2 * missing L w' \<le> length (frames w')" "spawned w w'"
    "\<And>x. \<not> page_cell (a_pgd_kern im) w x \<Longrightarrow> x < V_MM_START \<Longrightarrow> \<not> in_range (p_next p) 4 x \<Longrightarrow>
       mem w' x = mem w x \<and> \<not> page_cell (a_pgd_kern im) w' x"
  proof -
    show ?thesis by (rule init_thread_inv [OF assms]) (rule that)
  qed
  then have "start_thread im fn arg w = Some (Inr w')" by (simp add: start_thread_def)
  then show thesis using that w'(2-5) by blast
qed

text \<open>Three threads, one after the other.\<close>

lemma start_three:
  assumes inv: "threads_inv (a_pgd_kern im) (a_thread_exit im) p bs [] w" and room: "heap_end bs + 3 * 8204 \<le> L" "L \<le> 0xFFFFF000"
    and fr: "2 * missing L w \<le> length (frames w)"
  obtains w1 w2 w' where "start_thread im f1 x1 w = Some (Inr w1)" "start_thread im f2 x2 w1 = Some (Inr w2)"
    "start_thread im f3 x3 w2 = Some (Inr w')"
    "threads_inv (a_pgd_kern im) (a_thread_exit im) p (allocated bs [8192, 8192, 8192])
       (zip (pointers bs [8192, 8192, 8192]) [(f1, x1), (f2, x2), (f3, x3)]) w'"
    "spawned w w'"
    "\<And>x. \<not> page_cell (a_pgd_kern im) w x \<Longrightarrow> x < V_MM_START \<Longrightarrow> \<not> in_range (p_next p) 4 x \<Longrightarrow>
       mem w' x = mem w x \<and> \<not> page_cell (a_pgd_kern im) w' x"
proof -
  let ?pgd = "a_pgd_kern im"
  define b1 b2 where "b1 = appended bs 8192" and "b2 = appended b1 8192"
  have he: "heap_end bs + 8204 \<le> L" "heap_end b1 + 8204 \<le> L" "heap_end b2 + 8204 \<le> L" using room(1) by (simp_all add: b1_def b2_def)
  obtain w1 where w1: "start_thread im f1 x1 w = Some (Inr w1)"
      "threads_inv ?pgd (a_thread_exit im) p b1 ([] @ [(of_nat (heap_end bs + 12), f1, x1)]) w1"
      "2 * missing L w1 \<le> length (frames w1)" "spawned w w1"
      "\<And>x. \<not> page_cell ?pgd w x \<Longrightarrow> x < V_MM_START \<Longrightarrow> \<not> in_range (p_next p) 4 x \<Longrightarrow> mem w1 x = mem w x \<and> \<not> page_cell ?pgd w1 x"
    using start_thread_inv [OF inv he(1) room(2) fr] unfolding b1_def by blast
  obtain w2 where w2: "start_thread im f2 x2 w1 = Some (Inr w2)"
      "threads_inv ?pgd (a_thread_exit im) p b2 (([] @ [(of_nat (heap_end bs + 12), f1, x1)]) @ [(of_nat (heap_end b1 + 12), f2, x2)]) w2"
      "2 * missing L w2 \<le> length (frames w2)" "spawned w1 w2"
      "\<And>x. \<not> page_cell ?pgd w1 x \<Longrightarrow> x < V_MM_START \<Longrightarrow> \<not> in_range (p_next p) 4 x \<Longrightarrow> mem w2 x = mem w1 x \<and> \<not> page_cell ?pgd w2 x"
    using start_thread_inv [OF w1(2) he(2) room(2) w1(3)] unfolding b2_def by blast
  obtain w3 where w3: "start_thread im f3 x3 w2 = Some (Inr w3)"
      "threads_inv ?pgd (a_thread_exit im) p (appended b2 8192)
         ((([] @ [(of_nat (heap_end bs + 12), f1, x1)]) @ [(of_nat (heap_end b1 + 12), f2, x2)]) @ [(of_nat (heap_end b2 + 12), f3, x3)]) w3"
      "spawned w2 w3"
      "\<And>x. \<not> page_cell ?pgd w2 x \<Longrightarrow> x < V_MM_START \<Longrightarrow> \<not> in_range (p_next p) 4 x \<Longrightarrow> mem w3 x = mem w2 x \<and> \<not> page_cell ?pgd w3 x"
    using start_thread_inv [OF w2(2) he(3) room(2) w2(3)] by blast
  have "threads_inv ?pgd (a_thread_exit im) p (allocated bs [8192, 8192, 8192])
       (zip (pointers bs [8192, 8192, 8192]) [(f1, x1), (f2, x2), (f3, x3)]) w3"
    using w3(2) by (simp add: b1_def b2_def)
  moreover have "mem w3 x = mem w x \<and> \<not> page_cell ?pgd w3 x" if "\<not> page_cell ?pgd w x" "x < V_MM_START" "\<not> in_range (p_next p) 4 x" for x
    using w1(5) [OF that] w2(5) [OF _ that(2,3)] w3(4) [OF _ that(2,3)] by simp
  moreover have "spawned w w3" using spawned_trans w1(4) w2(4) w3(3) by blast
  ultimately show thesis using that w1(1) w2(1) w3(1) by simp
qed

section \<open>The demonstration\<close>

text \<open>The three questions.\<close>

lemma three_strings:
  assumes s: "shop im p bs w" and l: "locals_apart im p"
    and sp: "sep (a_strA im) 20 (a_strB im) 20" "sep (a_strA im) 20 (a_strC im) 20" "sep (a_strB im) 20 (a_strC im) 20"
    and v: "word_ok va" "word_ok vb" "word_ok vc" and e: "events w = ea @ eb @ ec @ rest" "line_events va ea" "line_events vb eb" "line_events vc ec"
  obtains w1 w2 w' where "ask_string run im L_ask_A (a_strA im) w = Some (Inr w1)" "ask_string run im L_ask_B (a_strB im) w1 = Some (Inr w2)"
    "ask_string run im L_ask_C (a_strC im) w2 = Some (Inr w')" "shop im p bs w'" "frames w' = frames w" "missing L w' = missing L w"
    "cstr (mem w') (a_strA im) va" "cstr (mem w') (a_strB im) vb" "cstr (mem w') (a_strC im) vc"
    "events w' = rest" "same_kernel w w'"
proof -
  have loc: "\<And>x. in_range (a_strA im) 20 x \<Longrightarrow> local_cell im x" "\<And>x. in_range (a_strB im) 20 x \<Longrightarrow> local_cell im x"
    "\<And>x. in_range (a_strC im) 20 x \<Longrightarrow> local_cell im x" by (simp_all add: local_cell_def)
  have nv: "local_cell im x \<Longrightarrow> \<not> in_video x" for x using l by (simp add: locals_apart_def)
  have sA: "\<And>x. in_range (a_strA im) 20 x \<Longrightarrow> \<not> in_range (a_strB im) 20 x \<and> \<not> in_range (a_strC im) 20 x"
    using sep_in_range sp(1,2) by blast
  have sB: "\<And>x. in_range (a_strB im) 20 x \<Longrightarrow> \<not> in_range (a_strC im) 20 x" using sep_in_range sp(3) by blast
  obtain w1 where w1: "ask_string run im L_ask_A (a_strA im) w = Some (Inr w1)" "shop im p bs w1" "step (in_range (a_strA im) 20) w (eb @ ec @ rest) w1"
      "frames w1 = frames w" "missing L w1 = missing L w" "cstr (mem w1) (a_strA im) va"
    using ask_string_stores [OF s l _ v(1) loc(1) e(1,2)] by blast
  have ev1: "events w1 = eb @ ec @ rest" using w1(3) by (simp add: step_def)
  obtain w2 where w2: "ask_string run im L_ask_B (a_strB im) w1 = Some (Inr w2)" "shop im p bs w2" "step (in_range (a_strB im) 20) w1 (ec @ rest) w2"
      "frames w2 = frames w1" "missing L w2 = missing L w1" "cstr (mem w2) (a_strB im) vb"
    using ask_string_stores [OF w1(2) l _ v(2) loc(2) ev1 e(3)] by blast
  have ev2: "events w2 = ec @ rest" using w2(3) by (simp add: step_def)
  obtain w3 where w3: "ask_string run im L_ask_C (a_strC im) w2 = Some (Inr w3)" "shop im p bs w3" "step (in_range (a_strC im) 20) w2 rest w3"
      "frames w3 = frames w2" "missing L w3 = missing L w2" "cstr (mem w3) (a_strC im) vc"
    using ask_string_stores [OF w2(2) l _ v(3) loc(3) ev2 e(4)] by blast
  have "cstr (mem w3) (a_strA im) va"
    by (rule string_stays [OF w1(6) v(1)]) (use loc nv sA step_bytes [OF w3(3)] step_bytes [OF w2(3)] in simp)
  moreover have "cstr (mem w3) (a_strB im) vb"
    by (rule string_stays [OF w2(6) v(2)]) (use loc nv sB step_bytes [OF w3(3)] in simp)
  moreover have "events w3 = rest" "same_kernel w w3"
    using w3(3) same_kernel_trans [OF same_kernel_trans, of w w1 w2 w3] w1(3) w2(3) by (simp_all add: step_def)
  ultimately show thesis using that w1(1,4,5) w2(1,4,5) w3(1,2,4,5,6) by simp
qed

text \<open>
  The whole demonstration: the strings are read, and the threads stand in the run list behind the boot
  process, which still runs.
\<close>

lemma testProcess_runs:
  assumes "shop im p bs (w\<lparr>sti_flag := True\<rparr>)" "locals_apart im p" "sep (a_strA im) 20 (a_strB im) 20" "sep (a_strA im) 20 (a_strC im) 20"
    and "sep (a_strB im) 20 (a_strC im) 20" "word_ok va" "word_ok vb" "word_ok vc"
    and "events w = ea @ eb @ ec @ rest" "line_events va ea" "line_events vb eb" "line_events vc ec"
    and "heap_end bs + 3 * 8204 \<le> L" "L \<le> 0xFFFFF000" "2 * missing L w \<le> length (frames w)"
  shows "\<exists>w'. testProcess run im w = Some (Inr w') \<and>
    threads_inv (a_pgd_kern im) (a_thread_exit im) p (allocated bs [8192, 8192, 8192])
      (zip (pointers bs [8192, 8192, 8192]) [(a_testA im, a_strA im), (a_testB im, a_strB im), (a_testC im, a_strC im)]) w' \<and>
    cstr (mem w') (a_strA im) va \<and> cstr (mem w') (a_strB im) vb \<and> cstr (mem w') (a_strC im) vc \<and> cur_proc w' = p \<and>
    events w' = rest \<and> reads (con w') = reads (con w) \<and> handlers w' = handlers w \<and> r_esp w' = r_esp w \<and> sti_flag w' \<and>
    (\<forall>x. local_cell im x \<longrightarrow> \<not> page_cell (a_pgd_kern im) w' x \<and> x < V_MM_START)"
proof -
  let ?wt = "w\<lparr>sti_flag := True\<rparr>"
  note l = assms(2)
  obtain w0 where w0: "init_timer 5 (w\<lparr>sti_flag := False\<rparr>) = Inr w0" "shop im p bs (w0\<lparr>sti_flag := True\<rparr>)"
      "step (\<lambda>_. False) ?wt (events w) (w0\<lparr>sti_flag := True\<rparr>)"
    using init_timer_shop [OF assms(1) l] by blast
  let ?w0 = "w0\<lparr>sti_flag := True\<rparr>"
  note c = shop_clear [OF w0(2) l]
  obtain w1 where w1: "say im L_proc_title [] (w_clear ?w0) = Some (Inr w1)" "shop im p bs w1" "step (\<lambda>_. False) (w_clear ?w0) (events (w_clear ?w0)) w1"
    using shop_say_plain [OF c(1) l, of L_proc_title] by auto
  have sv: "serves p ?w0" "serves p (w_clear ?w0)" "serves p w1" using w0(2) c(1) w1(2) by (simp_all add: shop_def ready_def)
  have fr: "2 * missing L w1 \<le> length (frames w1)"
    using shop_step(2,3) [OF c(1) sv(3) w1(3) l] shop_step(2,3) [OF w0(2) sv(2) c(2) l] shop_step(2,3) [OF assms(1) sv(1) w0(3) l] assms(15)
    by (simp add: missing_def frames_def)
  have ev: "events w1 = ea @ eb @ ec @ rest" using w1(3) c(2) w0(3) assms(9) by (simp add: step_def)
  obtain w2 w3 w4 where w4: "ask_string run im L_ask_A (a_strA im) w1 = Some (Inr w2)" "ask_string run im L_ask_B (a_strB im) w2 = Some (Inr w3)"
      "ask_string run im L_ask_C (a_strC im) w3 = Some (Inr w4)" "shop im p bs w4" "frames w4 = frames w1" "missing L w4 = missing L w1"
      "cstr (mem w4) (a_strA im) va" "cstr (mem w4) (a_strB im) vb" "cstr (mem w4) (a_strC im) vc"
      "events w4 = rest" "same_kernel w1 w4"
    using three_strings [OF w1(2) l assms(3-8) ev assms(10-12)] by blast
  have fr4: "2 * missing L w4 \<le> length (frames w4)" using fr w4(5,6) by simp
  note th = shop_threads [OF w4(4)]
  obtain w5 w6 w7 where w7: "start_thread im (a_testA im) (a_strA im) w4 = Some (Inr w5)" "start_thread im (a_testB im) (a_strB im) w5 = Some (Inr w6)"
      "start_thread im (a_testC im) (a_strC im) w6 = Some (Inr w7)"
      "threads_inv (a_pgd_kern im) (a_thread_exit im) p (allocated bs [8192, 8192, 8192])
         (zip (pointers bs [8192, 8192, 8192]) [(a_testA im, a_strA im), (a_testB im, a_strB im), (a_testC im, a_strC im)]) w7"
      "spawned w4 w7"
      "\<And>x. \<not> page_cell (a_pgd_kern im) w4 x \<Longrightarrow> x < V_MM_START \<Longrightarrow> \<not> in_range (p_next p) 4 x \<Longrightarrow>
         mem w7 x = mem w4 x \<and> \<not> page_cell (a_pgd_kern im) w7 x"
    using start_three [OF th(1) assms(13,14) fr4] by blast
  have loc: "mem w7 x = mem w4 x \<and> \<not> page_cell (a_pgd_kern im) w7 x \<and> x < V_MM_START" if "local_cell im x" for x
  proof -
    have x: "\<not> page_cell (a_pgd_kern im) w4 x" "x < V_MM_START" "\<not> in_range (p_next p) 4 x"
      using w4(4) l that unfolding shop_def locals_apart_def by blast+
    from w7(6) [OF this] x(2) show ?thesis by simp
  qed
  have "cstr (mem w7) (a_strA im) va" "cstr (mem w7) (a_strB im) vb" "cstr (mem w7) (a_strC im) vc"
    by (rule string_stays [OF w4(7) assms(6)] string_stays [OF w4(8) assms(7)] string_stays [OF w4(9) assms(8)],
        rule loc [THEN conjunct1], simp add: local_cell_def)+
  moreover have "testProcess run im w = Some (Inr w7)"
    using w0(1) w1(1) w4(1-3) w7(1-3) by (simp add: testProcess_def Let_def)
  moreover have "events w7 = rest" "reads (con w7) = reads (con w4)" "handlers w7 = handlers w4" "r_esp w7 = r_esp w4" "cur_proc w7 = cur_proc w4"
    using w7(5) w4(10) by (auto simp: spawned_def)
  moreover have "reads (con w4) = reads (con w)" "handlers w4 = handlers w" "r_esp w4 = r_esp w"
    using w4(11) w1(3) c(2) w0(3) by (simp_all add: step_def same_kernel_def)
  moreover have "sti_flag w7"
    using w7(5) w4(4) by (auto simp: spawned_def shop_def ready_def serves_def)
  ultimately show ?thesis using w7(4) th(2) loc by (intro exI [of _ w7]) simp
qed

section \<open>What a thread prints\<close>

text \<open>The line of one turn.\<close>

definition proc_line :: "u8 \<Rightarrow> u8 list \<Rightarrow> nat \<Rightarrow> u8 list" where
  "proc_line name v k = ascii '' * proc '' @ [name] @ ascii '' : '' @ v @ ascii ''  '' @ decimal (of_nat k) @ ascii ''* '' @ [10]"

definition proc_pieces :: "u8 \<Rightarrow> u32 \<Rightarrow> u8 list \<Rightarrow> nat \<Rightarrow> piece list" where
  "proc_pieces name a v k = [Text (ascii '' * proc '' @ [name] @ ascii '' : ''), Str a v, Text (ascii ''  ''), Signed (of_nat k),
     Text (ascii ''* '' @ [10])]"

lemma proc_pieces_out: "output_of (proc_pieces name a v k) = proc_line name v k" "concat (map args_of (proc_pieces name a v k)) = [a, of_nat k]"
  by (simp_all add: proc_pieces_def proc_line_def)

lemma proc_lines_print:
  assumes l: "literal_text l = ascii '' * proc '' @ [name] @ ascii '' : %s  %d* '' @ [10]" "plain [name]" "length v < 900"
    and a: "\<And>x. in_range a (Suc (length v)) x \<Longrightarrow> \<not> in_video x"
  shows "ready im p w \<Longrightarrow> cstr (mem w) a v \<Longrightarrow> events w = evs @ rest \<Longrightarrow> ticks_only evs \<Longrightarrow> length evs = 2 * n \<Longrightarrow> n \<le> 15 \<Longrightarrow>
    \<exists>w'. proc_lines run colour (lits im l) a n w = Some (Inr w') \<and> ready im p w' \<and> events w' = rest \<and> ticks w' = ticks w + of_nat (2 * n) \<and>
      displays w (shown colour colour (concat (map (proc_line name v) [16 - n..<16]))) w'"
proof (induction n arbitrary: w evs)
  case 0
  then show ?case by (intro exI [of _ w]) (simp add: displays_def shown_def)
next
  case (Suc n)
  let ?k = "15 - n"
  have f: "literal_text l = format_of (proc_pieces name a v ?k)" by (simp add: l(1) proc_pieces_def ascii_def)
  have ok: "list_all (piece_ok (mem w)) (proc_pieces name a v ?k)"
    using l(2,3) Suc.prems(2) by (auto simp: proc_pieces_def plain_def ascii_def)
  have len: "length (output_of (proc_pieces name a v ?k)) < 1024"
    using l(3) decimal_length [of "of_nat ?k"] by (simp add: proc_pieces_out proc_line_def ascii_def)
  obtain v1 where v1: "w_printf_color colour colour (lits im l) [a, of_nat ?k] w = Some (Inr v1)" "ready im p v1"
      "displays w (shown colour colour (proc_line name v ?k)) v1" "events v1 = events w" "ticks v1 = ticks w"
    using w_printf_color_pieces [OF Suc.prems(1) f ok len, of colour colour] unfolding proc_pieces_out by blast
  have evs: "evs = take 2 evs @ drop 2 evs" "length (take 2 evs) = unat (2 :: u32)" "length (drop 2 evs) = 2 * n"
    using Suc.prems(5) by simp_all
  have tk: "ticks_only (take 2 evs)" "ticks_only (drop 2 evs)" using Suc.prems(4) evs(1) by (metis ticks_only_simps(3))+
  have "events v1 = take 2 evs @ drop 2 evs @ rest" using v1(4) Suc.prems(3) by simp
  from w_sleep_ticks [OF v1(2) this tk(1) evs(2), of run]
  obtain v2 where v2: "w_sleep run 2 v1 = Some (Inr v2)" "ready im p v2" "displays v1 (\<lambda>z. z) v2" "events v2 = drop 2 evs @ rest"
      "ticks v2 = ticks v1 + 2" by blast
  have "cstr (mem v2) a v \<longleftrightarrow> cstr (mem w) a v"
    by (rule cstr_cong) (use l(3) a v1(3) v2(3) in \<open>auto simp: displays_def\<close>)
  then have c: "cstr (mem v2) a v" using Suc.prems(2) by simp
  obtain w' where w': "proc_lines run colour (lits im l) a n v2 = Some (Inr w')" "ready im p w'" "events w' = rest"
      "ticks w' = ticks v2 + of_nat (2 * n)" "displays v2 (shown colour colour (concat (map (proc_line name v) [16 - n..<16]))) w'"
    using Suc.IH [OF v2(2) c v2(4) tk(2) evs(3)] Suc.prems(6) by auto
  have "16 - n = Suc ?k" "16 - Suc n = ?k" "?k < 16" using Suc.prems(6) by simp_all
  then have up: "[16 - Suc n..<16] = ?k # [16 - n..<16]" by (simp only: upt_conv_Cons)
  have "displays w (shown colour colour (concat (map (proc_line name v) [16 - Suc n..<16]))) w'"
    using displays_trans [OF displays_trans [OF v1(3) v2(3)] w'(5)] unfolding up by (simp add: shown_append [abs_def])
  then show ?case using w' v1(1,5) v2(1,5) by (intro exI [of _ w']) (simp add: Let_def)
qed

text \<open>C20: a thread of the demonstration, running alone, prints its string fifteen times in the form
  \<open>* proc A : string  k*\<close> with \<open>k\<close> counting from 1 to 15, waits two clock ticks after each line, and returns
  after thirty ticks. Foreground and background are the same colour, so nobody can read it.\<close>

theorem testA_prints:
  assumes "ready im p w" "cstr (mem w) a v" "length v < 900" "\<And>x. in_range a (Suc (length v)) x \<Longrightarrow> \<not> in_video x"
    and "events w = evs @ rest" "ticks_only evs" "length evs = 30"
  shows "\<exists>w'. testA run im a w = Some (Inr w') \<and> events w' = rest \<and> ticks w' = ticks w + 30 \<and>
    displays w (shown 4 4 (concat (map (proc_line 65 v) [1..<16]))) w'"
proof -
  have "literal_text L_line_A = ascii '' * proc '' @ [65] @ ascii '' : %s  %d* '' @ [10]" "plain [65]" by (simp_all add: ascii_def plain_def)
  from proc_lines_print [OF this assms(3,4) assms(1,2,5,6), where n = 15 and run = run and colour = 4] assms(7)
  show ?thesis by (simp add: testA_def) blast
qed

section \<open>A concrete demonstration\<close>

theorem testA_prints_witness:
  "\<exists>w'. testA (\<lambda>_ w. Inr w) workshop_demo 0xC0200700 (workshop (replicate 30 clock_tick)) = Some (Inr w') \<and>
     screen_of (con w') = shown 4 4 (concat (map (proc_line 65 []) [1..<16])) (screen_of (con (workshop (replicate 30 clock_tick))))"
proof -
  let ?w = "workshop (replicate 30 clock_tick)"
  have rd: "ready workshop_demo 0xC0120000 ?w" using workshop_shop [of "replicate 30 clock_tick"] by (simp add: shop_def)
  have c: "cstr (mem ?w) 0xC0200700 []" by (simp add: workshop_fields store32_def demo_memory_def Let_def)
  have nv: "\<not> in_video x" if "in_range 0xC0200700 (Suc (length [])) x" for x using that by (simp add: in_range_nat in_video_nat)
  from testA_prints [OF rd c _ nv, of "replicate 30 clock_tick" "[]" "\<lambda>_ w. Inr w"] clock_ticks_only [of 30]
  show ?thesis by (auto simp: workshop_fields displays_def)
qed

end
