(* ===== verification/Demo_Keys.thy ===== *)
theory Demo_Keys
  imports Demo_Malloc Demo_Process
begin

text \<open>
  The keys F1 and F2, pressed while the kernel waits: the keyboard interrupt runs the demonstration
  inside its handler, with the interrupts that the demonstration waits for nested in it, and then
  acknowledges the key. With the boot in front of it, this is everything from \<open>_init\<close> to the end of a
  session.
\<close>

section \<open>A function key\<close>

text \<open>What the handler changes after the demonstration: ports, the flag for extended codes, its reads.\<close>

definition acked :: "world \<Rightarrow> world \<Rightarrow> bool" where
  "acked v w \<longleftrightarrow> (\<exists>ps bs. w = set_con v ((con v)\<lparr>e0 := 0, ports := ps, reads := bs\<rparr>))"

lemma acked_fields:
  assumes "acked v w"
  shows "mem w = mem v" "handlers w = handlers v" "events w = events v" "serves p w = serves p v" "cur_proc w = cur_proc v"
    "run_head w = run_head v" "screen_of (con w) = screen_of (con v)" "heap_inv pgd w hs = heap_inv pgd v hs"
    "threads_inv pgd texit p hs ths w = threads_inv pgd texit p hs ths v" "frames w = frames v" "cr3 w = cr3 v" "r_esp w = r_esp v"
    "sti_flag w = sti_flag v"
proof -
  obtain ps bs where w: "w = set_con v ((con v)\<lparr>e0 := 0, ports := ps, reads := bs\<rparr>)" using assms by (auto simp: acked_def)
  have f: "mem w = mem v" "pg_stack w = pg_stack v" "pg_top w = pg_top v" "first w = first v" "mm_top w = mm_top v"
    "run_head w = run_head v" "cur_proc w = cur_proc v" "handlers w = handlers v"
    by (simp_all add: w) (simp_all add: set_con_def share_def)
  show "mem w = mem v" "handlers w = handlers v" "cur_proc w = cur_proc v" "run_head w = run_head v" using f by simp_all
  show "events w = events v" "cr3 w = cr3 v" "r_esp w = r_esp v" "sti_flag w = sti_flag v" by (simp_all add: w) (simp_all add: set_con_def share_def)
  show "serves p w = serves p v" by (simp add: serves_def f) (simp add: w cursor_ok_def con_def share_def)
  show "screen_of (con w) = screen_of (con v)" by (simp add: w screen_of_def)
  show fr: "frames w = frames v" by (simp add: frames_def f)
  show hp: "heap_inv pgd w hs = heap_inv pgd v hs" for pgd
    by (simp add: heap_inv_def window_ok_def paging_inv_def stack_ok_def f fr)
  have "page_cell pgd w x = page_cell pgd v x" for x by (simp add: page_cell_def f fr)
  then show "threads_inv pgd texit p hs ths w = threads_inv pgd texit p hs ths v" by (simp add: threads_inv_def hp f)
qed

text \<open>
  The way of a function key through stub, dispatcher and driver to the demonstration, and back: \<open>v\<close>
  is the world in which it starts, with interrupts off, the key's number printed and two answers of the
  controller still to be read.
\<close>

definition func_line :: "u8 \<Rightarrow> u8 list" where
  "func_line i = [102, 117, 110, 99, 32, 58] @ decimal (ucast i) @ [10]"

lemma acked_answers:
  assumes "c = (keys v)\<lparr>e0 := 0, reads := bs, ports := ps\<rparr>"
  shows "acked v (set_reads rs (kernel_of c))"
proof -
  have "kbd_state.truncate c = (con v)\<lparr>e0 := 0, reads := bs, ports := ps\<rparr>" "owner c = Part v"
    by (simp_all add: assms keys_def kbd_state.defs keys_state.defs)
  then have "kernel_of c = set_con v ((con v)\<lparr>e0 := 0, reads := bs, ports := ps\<rparr>)" by (simp add: kernel_of_def)
  moreover have "set_reads rs (set_con v z) = set_con v (z\<lparr>reads := rs\<rparr>)" for z
    by (simp add: set_reads_def) (simp add: set_con_def share_def)
  ultimately have "set_reads rs (kernel_of c) = set_con v ((con v)\<lparr>e0 := 0, ports := ps, reads := rs\<rparr>)" by simp
  then show ?thesis unfolding acked_def by blast
qed

lemma deliver_func:
  assumes sv: "serves p w" and e: "events w = Event c 33 st ((58 + i) # x # y # bs) # rest" "3 \<le> length st" and i: "i = 1 \<or> i = 2"
  obtains v where "serves p (v\<lparr>sti_flag := True\<rparr>)" "same_kernel (set_reads (x # y # bs) (w\<lparr>events := rest\<rparr>)) (v\<lparr>sti_flag := True\<rparr>)"
    "\<And>a. \<not> in_video a \<Longrightarrow> mem v a = mem w a" "events v = rest"
    "\<And>v'. run i v = Inr v' \<Longrightarrow> reads (con v') = reads (con v) \<Longrightarrow> sti_flag v' \<Longrightarrow> \<exists>w'. deliver run w = Inr w' \<and> acked v' w'"
proof -
  let ?bs = "(58 + i) # x # y # bs" and ?w = "w\<lparr>events := rest\<rparr>"
  obtain ip csel fl r where st: "st = ip # csel # fl # r" using e(2) by (auto simp: numeral_3_eq_3 Suc_le_length_iff)
  define k1 where "k1 = (set_con ?w ((con ?w)\<lparr>reads := ?bs\<rparr>))\<lparr>ports := ports ?w @ [(0x20, 0x20)], sti_flag := False\<rparr>"
  have on: "sti_flag ?w" using sv by (simp add: serves_def)
  have w: "serves p ?w" "con ?w = con w" using sv by (simp_all add: con_def share_def serves_def)
  have con1: "con k1 = (con ?w)\<lparr>reads := ?bs, ports := ports ?w @ [(0x20, 0x20)]\<rparr>"
    by (simp add: k1_def con_def share_def set_con_def)
  have ok: "cursor_ok (con k1)" "mode (con k1) = 0" using sv by (simp_all add: serves_def con1 cursor_ok_def w(2))
  have int: "interrupt run c 33 st ?bs ?w =
      bindE (on_keys (keyboard_handler (\<lambda>i. from_keys (run i))) k1) (\<lambda>k'. Inr (k'\<lparr>sti_flag := sti_flag ?w\<rparr>))"
    using interrupt_dispatch [of 33 run c ip csel fl r ?bs ?w] w(1) st
    by (auto simp: k1_def call_handler_def serves_def)
  define d where "d = puts_color 0 15 (func_line i) ((keys k1)\<lparr>reads := x # y # bs\<rparr>)"
  have q: "quiet (keys k1) d" unfolding d_def by (intro quiet.kept_puts quiet.kept_io quiet.kept_refl)
  have m: "kbd_state.more d = kbd_state.more (keys k1)" unfolding d_def by (intro more_kept.kept_puts more_kept.kept_io refl)
  have rd: "reads d = x # y # bs" by (simp add: d_def)
  have md: "mode d = 0" using same_keys_puts [of "(keys k1)\<lparr>reads := x # y # bs\<rparr>" 0 15 "func_line i"] ok(2)
    by (simp add: d_def same_keys_def del: con_fields)
  define k2 where "k2 = k1\<lparr>sti_flag := True\<rparr>"
  have v: "kernel_of d = set_con k1 (kbd_state.truncate d)" using owner_more [OF m] by (simp add: kernel_of_def)
  then have v2: "(kernel_of d)\<lparr>sti_flag := True\<rparr> = set_con k2 (kbd_state.truncate d)" by (simp add: k2_def) (simp add: set_con_def share_def)
  have q': "quiet (con k1) (kbd_state.truncate d)" "quiet (con k2) (kbd_state.truncate d)" using q by (simp_all add: quiet_views k2_def)
  have s2: "serves p k2" using w(1) by (simp add: serves_def con1 cursor_ok_def k2_def) (simp add: k1_def)
  have "serves p ((kernel_of d)\<lparr>sti_flag := True\<rparr>)" unfolding v2 by (rule serves_set_con [OF s2 q'(2)]) (simp add: md)
  moreover have "same_kernel (set_reads (x # y # bs) ?w) ((kernel_of d)\<lparr>sti_flag := True\<rparr>)"
    using q' rd on unfolding v2
    by (simp add: quiet_def same_kernel_def) (simp add: k1_def k2_def set_con_def share_def set_reads_def con_def kbd_state.defs)
  moreover have "mem (kernel_of d) a = mem w a" if "\<not> in_video a" for a
    using q' ok(1) that by (simp add: quiet_def same_outside_def con1 kernel_of_def)
  moreover have "events (kernel_of d) = rest" unfolding v by (simp add: k1_def set_con_def share_def)
  moreover have "\<exists>w'. deliver run w = Inr w' \<and> acked v' w'" if r: "run i (kernel_of d) = Inr v'" "reads (con v') = reads (con (kernel_of d))" "sti_flag v'" for v'
  proof -
    have rv: "reads (con v') = x # y # bs" using r(2) rd by (simp add: kbd_state.defs)
    have kt: "key_tab ! unat (58 + i) = K_func" "58 + i \<noteq> 0xE0" "58 + i \<noteq> 0xE1" "58 + i \<noteq> 0x53" "58 + i - 58 = i"
      using i by (auto simp: key_tab_def)
    define c1 where "c1 = (keys v')\<lparr>e0 := 0\<rparr>"
    define c2 where "c2 = outb_p 0x61 (x OR 0x80) (outb 0x80 x (c1\<lparr>reads := y # bs\<rparr>))"
    define c3 where "c3 = outb_p 0x61 (y AND 0x7F) (outb 0x80 y (c2\<lparr>reads := bs\<rparr>))"
    have c: "reads c1 = x # y # bs" "reads c2 = y # bs" using rv by (simp_all add: c1_def c2_def outb_p_def outb_def)
    have "handle_code (\<lambda>i. from_keys (run i)) (58 + i) ((keys k1)\<lparr>reads := x # y # bs\<rparr>) = Inr c1"
      using i r(1) unfolding d_def func_line_def by (simp add: handle_code_def kt key_fn_def func_def from_keys_def c1_def)
    then have "keyboard_handler (\<lambda>i. from_keys (run i)) (keys k1) = Inr c3"
      using c by (simp add: keyboard_handler_def inb_def inb_p_def con1 kt Let_def c3_def c2_def)
    moreover have "(kernel_of c3)\<lparr>sti_flag := sti_flag ?w\<rparr> = kernel_of c3"
    proof -
      have "sti_flag (kernel_of c3)"
        using r(3) by (simp add: kernel_of_def c3_def c2_def c1_def outb_p_def outb_def)
      then show ?thesis using on by (cases "kernel_of c3") simp
    qed
    ultimately have "deliver run w = Inr (set_reads (reads (con w)) (kernel_of c3))"
      using e(1) int on by (simp add: deliver_def on_keys_def)
    moreover have "acked v' (set_reads (reads (con w)) (kernel_of c3))"
      by (rule acked_answers) (simp add: c3_def c2_def c1_def outb_p_def outb_def)
    ultimately show ?thesis by blast
  qed
  ultimately show thesis using that by blast
qed

text \<open>The world in which the demonstration starts is a shop, if the waiting one was.\<close>

lemma shop_events [simp]: "shop im p bs (w\<lparr>events := evs\<rparr>) = shop im p bs w"
proof -
  have "page_cell pgd (w\<lparr>events := evs\<rparr>) x = page_cell pgd w x" for pgd x by (simp add: page_cell_def frames_def)
  moreover have "heap_inv pgd (w\<lparr>events := evs\<rparr>) bs = heap_inv pgd w bs" for pgd
    by (simp add: heap_inv_def window_ok_def paging_inv_def stack_ok_def frames_def)
  moreover have "ready im p (w\<lparr>events := evs\<rparr>) = ready im p w" by (simp add: ready_def serves_def con_def share_def)
  ultimately show ?thesis by (simp add: shop_def)
qed

lemma shop_set_reads [simp]: "shop im p bs (set_reads rs w) = shop im p bs w"
proof -
  have f: "pg_stack (set_reads rs w) = pg_stack w" "pg_top (set_reads rs w) = pg_top w" "first (set_reads rs w) = first w"
    by (simp_all add: set_reads_def set_con_def share_def)
  have "page_cell pgd (set_reads rs w) x = page_cell pgd w x" for pgd x by (simp add: page_cell_def)
  moreover have "heap_inv pgd (set_reads rs w) bs = heap_inv pgd w bs" for pgd
    by (simp add: heap_inv_def window_ok_def paging_inv_def stack_ok_def f)
  ultimately show ?thesis by (simp add: shop_def)
qed

lemma func_shop:
  assumes s: "shop im p hs w" and l: "locals_apart im p" and e: "events w = Event c 33 st ((58 + i) # x # y # bs) # rest" "3 \<le> length st" "i = 1 \<or> i = 2"
  obtains v where "shop im p hs (v\<lparr>sti_flag := True\<rparr>)" "events v = rest" "frames v = frames w" "missing L v = missing L w"
    "handlers v = handlers w" "r_esp v = r_esp w"
    "\<And>v'. run i v = Inr v' \<Longrightarrow> reads (con v') = reads (con v) \<Longrightarrow> sti_flag v' \<Longrightarrow> \<exists>w'. deliver run w = Inr w' \<and> acked v' w'"
proof -
  have sv: "serves p w" using s by (simp add: shop_def ready_def)
  let ?w = "set_reads (x # y # bs) (w\<lparr>events := rest\<rparr>)"
  obtain v where v: "serves p (v\<lparr>sti_flag := True\<rparr>)" "same_kernel ?w (v\<lparr>sti_flag := True\<rparr>)" "\<And>a. \<not> in_video a \<Longrightarrow> mem v a = mem w a"
    "events v = rest"
    "\<And>v'. run i v = Inr v' \<Longrightarrow> reads (con v') = reads (con v) \<Longrightarrow> sti_flag v' \<Longrightarrow> \<exists>w'. deliver run w = Inr w' \<and> acked v' w'"
    using deliver_func [OF sv e] by blast
  let ?v = "v\<lparr>sti_flag := True\<rparr>"
  have s': "shop im p hs ?w" using s by simp
  have "mem ?v a = mem ?w a" if "\<not> in_video a" for a using v(3) [OF that] by simp
  from shop_keeps [OF s' v(1,2) l this]
  have "shop im p hs ?v" "frames ?v = frames ?w" "missing L ?v = missing L ?w" by blast+
  moreover have "frames ?v = frames v" "missing L ?v = missing L v" by (simp_all add: missing_def frames_def)
  moreover have "frames ?w = frames w" "missing L ?w = missing L w" by (simp_all add: missing_def) (simp add: frames_def)
  moreover have "handlers v = handlers w" "r_esp v = r_esp w"
    using v(2) by (simp_all add: same_kernel_def) (simp add: set_reads_def set_con_def share_def)
  ultimately show thesis using that v(4,5) by simp
qed

text \<open>F1 from the key to the menu: when the kernel waits and F1 is pressed, and then the lines of \<open>malloc\<close>
  commands with their sizes, of words that are no command, and finally of \<open>exit\<close> are typed, each key an
  interrupt nested in that of F1, with clock ticks in between, the interrupt of F1 returns: the menu is
  shown, the heap has one block in use more for each size, one behind the other in the order they were
  asked for, and the kernel serves interrupts as before. The variables of \<open>testMalloc\<close>, the pointers in
  \<open>item\<close> among them, are gone.\<close>

lemma f1_runs:
  assumes "shop im p hs w" "locals_apart im p" "events w = Event c 33 st (59 # x # y # bs) # evs @ rest" "3 \<le> length st"
    and "typed_session cmds evs" "length (sizes cmds) \<le> 20" "heap_end hs + sum_list (map (\<lambda>n. n + 12) (sizes cmds)) \<le> L"
    and "L \<le> 0xFFFFF000" "2 * missing L w \<le> length (frames w)"
  shows "\<exists>w'. deliver (demo run im) w = Inr w' \<and> heap_inv (a_pgd_kern im) w' (allocated hs (sizes cmds)) \<and>
    events w' = rest \<and> serves p w' \<and>
    screen_of (con w') = shown 0 15 (literal_text L_f1 @ literal_text L_f2) blank_screen"
proof -
  have e: "events w = Event c 33 st ((58 + 1) # x # y # bs) # evs @ rest" "(1 :: u8) = 1 \<or> (1 :: u8) = 2" using assms(3) by simp_all
  obtain v where v: "shop im p hs (v\<lparr>sti_flag := True\<rparr>)" "events v = evs @ rest" "frames v = frames w" "missing L v = missing L w"
    "\<And>v'. demo run im 1 v = Inr v' \<Longrightarrow> reads (con v') = reads (con v) \<Longrightarrow> sti_flag v' \<Longrightarrow> \<exists>w'. deliver (demo run im) w = Inr w' \<and> acked v' w'"
    using func_shop [OF assms(1,2) e(1) assms(4) e(2)] by blast
  have "2 * missing L v \<le> length (frames v)" using assms(9) v(3,4) by simp
  from testMalloc_runs [OF v(1) assms(2,5) v(2) assms(6-8) this, of run]
  obtain v' where v': "testMalloc run im v = Some (Inr v')" "shop im p (allocated hs (sizes cmds)) v'"
    "events v' = rest" "reads (con v') = reads (con v)"
    "screen_of (con v') = shown 0 15 (literal_text L_f1 @ literal_text L_f2) blank_screen" by blast
  let ?u = "drop_locals im 1 v'"
  note u = shop_drop [OF v'(2) assms(2), of 1]
  have "demo run im 1 v = Inr ?u" using v'(1) by (simp add: demo_def)
  moreover have "sti_flag ?u" using u(1) by (simp add: shop_def ready_def serves_def)
  moreover have "reads (con ?u) = reads (con v)" using v'(4) by (simp only: drop_locals_fields)
  ultimately obtain w' where w': "deliver (demo run im) w = Inr w'" "acked ?u w'" using v(5) by blast
  have "serves p ?u" "heap_inv (a_pgd_kern im) ?u (allocated hs (sizes cmds))" "events ?u = rest"
    using u(1) v'(3) by (simp_all add: shop_def ready_def)
  then show ?thesis using w'(1) u(2) v'(5) acked_fields [OF w'(2)]
    by (intro exI [of _ w']) (simp del: literal_text.simps)
qed

text \<open>The first clock tick after the threads were started.\<close>

lemma tick_switches:
  assumes inv: "threads_inv pgd texit p bs ((new, fn, arg) # ths) w" and cur: "cur_proc w = p" "p \<noteq> 0"
    and h: "handlers w 32 = Some Timer_callback" "sti_flag w" and e: "events w = Event c 32 st rs # rest" "3 \<le> length st"
    and stack: "\<And>x. in_range (r_esp w - 4) 4 x \<Longrightarrow> x < V_MM_START \<and> \<not> in_range p 44 x"
  obtains w' where "deliver run w = Inr w'" "cur_proc w' = new" "r_eip w' = fn" "load32 (mem w') (r_esp w') = texit"
    "load32 (mem w') (r_esp w' + 4) = arg" "events w' = rest"
    "\<And>x. x < V_MM_START \<Longrightarrow> \<not> in_range p 44 x \<Longrightarrow> \<not> in_range (r_esp w - 4) 4 x \<Longrightarrow> mem w' x = mem w x"
proof -
  let ?w = "w\<lparr>events := rest\<rparr>"
  obtain ip csel fl r where st: "st = ip # csel # fl # r" using e(2) by (auto simp: numeral_3_eq_3 Suc_le_length_iff)
  define k1 where "k1 = (set_con ?w ((con ?w)\<lparr>reads := rs\<rparr>))\<lparr>ports := ports ?w @ [(0x20, 0x20)], sti_flag := False\<rparr>"
  define k2 where "k2 = k1\<lparr>ticks := ticks k1 + 1\<rparr>"
  have int: "interrupt run c 32 st rs ?w = Inr ((schedule k2)\<lparr>sti_flag := True\<rparr>)"
    using interrupt_dispatch [of 32 run c ip csel fl r rs ?w] h st by (auto simp: k1_def k2_def call_handler_def timer_callback_def)
  have f: "mem k2 = mem w" "pg_stack k2 = pg_stack w" "pg_top k2 = pg_top w" "first k2 = first w" "mm_top k2 = mm_top w"
    "run_head k2 = run_head w" "cur_proc k2 = cur_proc w" "r_esp k2 = r_esp w" "events k2 = rest"
    by (simp_all add: k2_def k1_def) (simp_all add: set_con_def share_def)
  have fr: "frames k2 = frames w" by (simp add: frames_def f)
  have "heap_inv pgd k2 bs = heap_inv pgd w bs"
    by (simp add: heap_inv_def window_ok_def paging_inv_def stack_ok_def f fr)
  moreover have "page_cell pgd k2 x = page_cell pgd w x" for x by (simp add: page_cell_def f fr)
  ultimately have inv2: "threads_inv pgd texit p bs ((new, fn, arg) # ths) k2" using inv by (simp add: threads_inv_def f)
  have cur2: "cur_proc k2 = p" using cur(1) by (simp add: f)
  have st2: "x < V_MM_START \<and> \<not> in_range p 44 x" if "in_range (r_esp k2 - 4) 4 x" for x using stack that by (simp add: f)
  note sw = first_switch [OF inv2 cur2 cur(2) st2]
  let ?t = "set_reads (reads (con w)) ((schedule k2)\<lparr>sti_flag := True\<rparr>)"
  have t: "cur_proc ?t = cur_proc (schedule k2)" "r_eip ?t = r_eip (schedule k2)" "r_esp ?t = r_esp (schedule k2)"
    by (simp_all add: set_reads_def set_con_def share_def)
  have ev: "events (schedule k2) = events k2"
    by (simp add: schedule_def change_proc_def switch_to_def load_context_def save_context_def Let_def)
  have "deliver run w = Inr ?t" using e(1) int h(2) by (simp add: deliver_def)
  then show thesis
    by (rule that) (use sw t ev f in simp_all)
qed

lemma drop_locals_threads:
  assumes inv: "threads_inv pgd texit p bs ths w"
    and off: "\<And>x. local_cell im x \<Longrightarrow> \<not> page_cell pgd w x \<and> x < V_MM_START \<and> \<not> in_range p 44 x"
  shows "threads_inv pgd texit p bs ths (drop_locals im i w)"
proof (rule threads_inv_elsewhere [OF inv])
  fix x assume "page_cell pgd w x \<or> V_MM_START \<le> x \<or> in_range p 44 x"
  then have "\<not> local_cell im x" using off [of x] by (auto simp: not_less [symmetric])
  then show "mem (drop_locals im i w) x = mem w x" using demo_locals_cell by (auto simp: drop_locals_def)
qed (simp_all add: drop_locals_def frames_def)

text \<open>C4: F2 from the key to the first thread: when the kernel waits with interrupts on, the boot process alone in the
  run list, and every block of the heap in use, the heap has room for three blocks of 8192 bytes below \<open>0xFFFFF000\<close> and two free frames for each page that it still has to map there,
  the boot process's block, the three arrays and the word below the stack pointer lie apart,
  F2 is pressed and three words of 1 to 19 characters without blanks are typed, the interrupt of F2 returns with
  three threads in the run list behind the boot process, in the order A, B, C, each with a block of its own in the
  heap; and the next clock tick switches to the first of them: it is in \<open>testA\<close>, with \<open>thread_exit\<close> to return to
  and the address of \<open>strA\<close> as its argument. (What is at that address then is not known: \<open>strA\<close> is a local
  variable of \<open>testProcess\<close>, which has returned.)\<close>

theorem f2_starts_threads:
  assumes "shop im p hs w" "locals_apart im p" "sep (a_strA im) 20 (a_strB im) 20" "sep (a_strA im) 20 (a_strC im) 20"
    and "sep (a_strB im) 20 (a_strC im) 20" "word_ok va" "word_ok vb" "word_ok vc"
    and e: "events w = Event c 33 st (60 # x # y # bs) # ea @ eb @ ec @ Event c' 32 st' bs' # rest" "3 \<le> length st" "3 \<le> length st'"
    and "line_events va ea" "line_events vb eb" "line_events vc ec"
    and room: "heap_end hs + 3 * 8204 \<le> L" "L \<le> 0xFFFFF000" "2 * missing L w \<le> length (frames w)" "p \<noteq> 0"
    and stack: "\<And>x. in_range (r_esp w - 4) 4 x \<Longrightarrow> x < V_MM_START \<and> \<not> in_range p 44 x"
    and own: "\<And>x. local_cell im x \<Longrightarrow> \<not> in_range p 44 x"
  shows "\<exists>w1 w2. deliver (demo run im) w = Inr w1 \<and>
    threads_inv (a_pgd_kern im) (a_thread_exit im) p (allocated hs [8192, 8192, 8192])
      (zip (pointers hs [8192, 8192, 8192]) [(a_testA im, a_strA im), (a_testB im, a_strB im), (a_testC im, a_strC im)]) w1 \<and>
    cur_proc w1 = p \<and> deliver (demo run im) w1 = Inr w2 \<and> cur_proc w2 = of_nat (heap_end hs + 12) \<and> r_eip w2 = a_testA im \<and>
    load32 (mem w2) (r_esp w2) = a_thread_exit im \<and> load32 (mem w2) (r_esp w2 + 4) = a_strA im \<and> events w2 = rest"
proof -
  have i: "events w = Event c 33 st ((58 + 2) # x # y # bs) # ea @ eb @ ec @ Event c' 32 st' bs' # rest" "(2 :: u8) = 1 \<or> (2 :: u8) = 2"
    using e(1) by simp_all
  obtain v where v: "shop im p hs (v\<lparr>sti_flag := True\<rparr>)" "events v = ea @ eb @ ec @ Event c' 32 st' bs' # rest" "frames v = frames w"
    "missing L v = missing L w" "handlers v = handlers w" "r_esp v = r_esp w"
    "\<And>v'. demo run im 2 v = Inr v' \<Longrightarrow> reads (con v') = reads (con v) \<Longrightarrow> sti_flag v' \<Longrightarrow> \<exists>w'. deliver (demo run im) w = Inr w' \<and> acked v' w'"
    using func_shop [OF assms(1,2) i(1) e(2) i(2)] by blast
  have fr: "2 * missing L v \<le> length (frames v)" using room(3) v(3,4) by simp
  let ?ths = "zip (pointers hs [8192, 8192, 8192]) [(a_testA im, a_strA im), (a_testB im, a_strB im), (a_testC im, a_strC im)]"
  let ?inv = "threads_inv (a_pgd_kern im) (a_thread_exit im) p (allocated hs [8192, 8192, 8192]) ?ths"
  obtain v' where v': "testProcess run im v = Some (Inr v')" "?inv v'" "cur_proc v' = p" "events v' = Event c' 32 st' bs' # rest"
      "reads (con v') = reads (con v)" "handlers v' = handlers v" "r_esp v' = r_esp v" "sti_flag v'"
      "\<forall>x. local_cell im x \<longrightarrow> \<not> page_cell (a_pgd_kern im) v' x \<and> x < V_MM_START"
    using testProcess_runs [OF v(1) assms(2-8) v(2) assms(12-14) room(1,2) fr, of run] by blast
  let ?u = "drop_locals im 2 v'"
  have u: "?inv ?u" by (rule drop_locals_threads [OF v'(2)]) (use v'(9) own in blast)
  have "demo run im 2 v = Inr ?u" using v'(1) by (simp add: demo_def)
  moreover have "reads (con ?u) = reads (con v)" using v'(5) by (simp only: drop_locals_fields)
  moreover have on: "sti_flag ?u" using v'(8) by (simp add: drop_locals_def)
  ultimately obtain w1 where w1: "deliver (demo run im) w = Inr w1" "acked ?u w1" using v(7) by blast
  note a = acked_fields [OF w1(2)]
  have inv1: "?inv w1" and cur1: "cur_proc w1 = p" using u v'(3) a by simp_all
  have inv2: "threads_inv (a_pgd_kern im) (a_thread_exit im) p (allocated hs [8192, 8192, 8192])
      ((of_nat (heap_end hs + 12), a_testA im, a_strA im) # tl ?ths) w1" using inv1 by simp
  have h: "handlers w1 32 = Some Timer_callback" "sti_flag w1"
    using assms(1) v'(6) v(5) a(2,13) on by (simp_all add: shop_def ready_def serves_def)
  have ev: "events w1 = Event c' 32 st' bs' # rest" using v'(4) a(3) by simp
  have st1: "z < V_MM_START \<and> \<not> in_range p 44 z" if "in_range (r_esp w1 - 4) 4 z" for z using stack that a(12) v'(7) v(6) by simp
  obtain w2 where w2: "deliver (demo run im) w1 = Inr w2" "cur_proc w2 = of_nat (heap_end hs + 12)" "r_eip w2 = a_testA im"
      "load32 (mem w2) (r_esp w2) = a_thread_exit im" "load32 (mem w2) (r_esp w2 + 4) = a_strA im" "events w2 = rest"
    using tick_switches [OF inv2 cur1 room(4) h ev e(3) st1, of "demo run im"] by blast
  then show ?thesis using w1(1) inv1 cur1 by blast
qed

section \<open>A concrete session\<close>

text \<open>F2, the words \<open>a\<close>, \<open>s\<close> and \<open>d\<close>, and a clock tick.\<close>

definition f2_events :: "event list" where
  "f2_events = key_event 60 # [key_event 0x1E, key_event 0x1C] @ [key_event 0x1F, clock_tick, key_event 0x1C] @
     [key_event 0x20, key_event 0x1C] @ clock_tick # []"

theorem f2_starts_threads_witness:
  "\<exists>w1 w2. deliver (demo (\<lambda>_ w. Inr w) workshop_demo) (workshop f2_events) = Inr w1 \<and>
     ring (mem w1) (run_head w1) [0xC0120000, 0xE000000C, 0xE0002018, 0xE0004024] \<and>
     deliver (demo (\<lambda>_ w. Inr w) workshop_demo) w1 = Inr w2 \<and> cur_proc w2 = 0xE000000C \<and> r_eip w2 = 0xC0104100 \<and>
     load32 (mem w2) (r_esp w2 + 4) = 0xC0121100"
proof -
  let ?w = "workshop f2_events"
  note d = line_events_def key_event_def clock_tick_def benign_def types_of_def typed_by_def key_tab_def key_map_def
  have ln: "line_events [97] [key_event 0x1E, key_event 0x1C]" "line_events [115] [key_event 0x1F, clock_tick, key_event 0x1C]"
    "line_events [100] [key_event 0x20, key_event 0x1C]" by (simp_all add: d)
  have wk: "word_ok [97]" "word_ok [115]" "word_ok [100]" by (simp_all add: word_ok_def isspace_def)
  have a: "a_strA workshop_demo = 0xC0121100" "a_strB workshop_demo = 0xC0121114" "a_strC workshop_demo = 0xC0121128"
    "a_testA workshop_demo = 0xC0104100" by (simp_all add: workshop_demo_def bare_demo_def)
  have sp: "sep (a_strA workshop_demo) 20 (a_strB workshop_demo) 20" "sep (a_strA workshop_demo) 20 (a_strC workshop_demo) 20"
    "sep (a_strB workshop_demo) 20 (a_strC workshop_demo) 20" by (simp_all add: a sep_def)
  have ev: "events ?w = Event some_cpu 33 [0xC0100000, 8, 0x202] (60 # 0 # 0 # []) # [key_event 0x1E, key_event 0x1C] @
      [key_event 0x1F, clock_tick, key_event 0x1C] @ [key_event 0x20, key_event 0x1C] @ Event some_cpu 32 [0xC0100000, 8, 0x202] [] # []"
    by (simp add: workshop_fields f2_events_def key_event_def clock_tick_def)
  have fr: "2 * missing 0xE0007000 ?w \<le> length (frames ?w)" by (simp add: workshop_frames missing_def workshop_fields)
  have loc: "0xC0121000 \<le> unat x \<and> unat x < 0xC0122000" if "local_cell workshop_demo x" for x
    using that by (auto simp: local_cell_def in_range_nat workshop_demo_def bare_demo_def)
  have esp: "r_esp ?w = 0xC0201F00" by (simp add: workshop_def kernel.defs bare_kernel_def trap_state.defs timer_start_def proc_state.defs two_threads_def)
  have stack: "x < V_MM_START \<and> \<not> in_range 0xC0120000 44 x" if "in_range (r_esp ?w - 4) 4 x" for x
    using that by (auto simp: esp in_range_nat word_less_nat_alt)
  have off: "\<not> in_range 0xC0120000 44 x" if "local_cell workshop_demo x" for x using loc [OF that] by (simp add: in_range_nat)
  from f2_starts_threads [OF workshop_shop workshop_apart sp wk ev _ _ ln _ _ fr _ stack off, of "\<lambda>_ w. Inr w"]
  obtain w1 w2 where w: "deliver (demo (\<lambda>_ w. Inr w) workshop_demo) ?w = Inr w1"
      "threads_inv (a_pgd_kern workshop_demo) (a_thread_exit workshop_demo) 0xC0120000 (allocated [] [8192, 8192, 8192])
        (zip (pointers [] [8192, 8192, 8192]) [(a_testA workshop_demo, a_strA workshop_demo), (a_testB workshop_demo, a_strB workshop_demo),
           (a_testC workshop_demo, a_strC workshop_demo)]) w1"
      "deliver (demo (\<lambda>_ w. Inr w) workshop_demo) w1 = Inr w2" "cur_proc w2 = of_nat (heap_end [] + 12)" "r_eip w2 = a_testA workshop_demo"
      "load32 (mem w2) (r_esp w2 + 4) = a_strA workshop_demo"
    by (auto simp: heap_end_def)
  have "ring (mem w1) (run_head w1) [0xC0120000, 0xE000000C, 0xE0002018, 0xE0004024]"
    using w(2) by (simp add: threads_inv_def heap_end_def appended_def)
  then show ?thesis using w(1,3-6) by (intro exI [of _ w1] exI [of _ w2]) (simp add: a heap_end_def)
qed

end
