(* ===== verification/Demo_Boot.thy ===== *)
theory Demo_Boot
  imports Demo_Keys
begin

text \<open>
  From \<open>_init\<close> to the end of a session: the boot leaves an empty heap behind page tables that the
  allocator can extend, so that the demonstration of F1 can follow it.
\<close>

section \<open>What the boot leaves\<close>

text \<open>
  The layout of the image: the kernel's tables, the boot thread's block, the screen and the data of the
  demonstrations lie below its end, the last three away from the tables.
\<close>

definition boot_room :: "image \<Rightarrow> demo_image \<Rightarrow> bool" where
  "boot_room im dim \<longleftrightarrow> boot_layout (pgd_kern im) (pte_kern im) \<and> a_pgd_kern dim = pgd_kern im \<and>
     unat (pgd_kern im) + 4096 \<le> 0xC0100000 + unat (image_size im) \<and>
     unat (pte_kern im) + 0x80000 \<le> 0xC0100000 + unat (image_size im) \<and> unat (image_size im) < 0x1FF00000 \<and> page_aligned (image_size im) \<and>
     (\<forall>x. local_cell dim x \<or> literal_cell dim x \<or> in_video x \<or> in_range (boot_thread im) 44 x \<longrightarrow>
        unat x < 0xC0100000 + unat (image_size im) \<and> \<not> in_range (pgd_kern im) 4096 x \<and> \<not> in_range (pte_kern im) 0x80000 x)"

text \<open>A page of the memory map that the tables can reach.\<close>

definition usable :: "u32 \<Rightarrow> u32 \<Rightarrow> bool" where
  "usable ksize f \<longleftrightarrow> 0x100000 + ksize \<le> f \<and> f < 0x20000000 \<and> page_aligned f"

lemma boot_cell:
  assumes b: "boot_room im dim" and zero: "\<forall>i < 1024. load32 (mem k) (pgd_kern im + 4 * i) = 0"
    and fr: "\<forall>f \<in> set (frames k). usable (image_size im) f"
    and c: "page_cell (pgd_kern im) (init_vmm (pgd_kern im) (pte_kern im) k) x"
  shows "in_range (pgd_kern im) 4096 x \<or> in_range (pte_kern im) 0x80000 x \<or> 0xC0100000 + unat (image_size im) \<le> unat x"
proof -
  let ?s = "init_vmm (pgd_kern im) (pte_kern im) k"
  have lay: "boot_layout (pgd_kern im) (pte_kern im)" and img: "unat (image_size im) < 0x1FF00000" using b by (simp_all add: boot_room_def)
  have frs: "frames ?s = frames k" by (simp add: init_vmm_def Let_def set_cr3_def register_interrupt_handler_def)
  consider "in_range (pgd_kern im) 4096 x" | i where "i < 1024" "present (mem ?s) (pgd_kern im) i" "in_range (table (mem ?s) (pgd_kern im) i) 4096 x"
    | f where "f \<in> set (frames k)" "in_range (f + PAGE_OFFSET) 4096 x"
    using c by (auto simp: page_cell_def frs)
  then show ?thesis
  proof cases
    case 2
    have i: "768 \<le> i \<and> i < 896"
      using 2(1,2) init_vmm_pde [OF lay 2(1), of k] zero by (auto simp: present_def split: if_splits)
    have t: "table (mem ?s) (pgd_kern im) i = pte_kern im + PAGE_SIZE * (i - 768)" using init_vmm_table(2) [OF lay] i by blast
    define d where "d = i - 768"
    have "unat d < 128" using i by (simp add: d_def word_le_nat_alt word_less_nat_alt unat_sub_if' less_diff_conv2)
    then have "unat (PAGE_SIZE * d) + 4096 \<le> 0x80000" by (simp add: unat_word_ariths)
    then have "in_range (pte_kern im) 0x80000 x" using 2(3) in_range_sub [of "pte_kern im" "PAGE_SIZE * d" 4096 x "0x80000"] by (simp add: t d_def)
    then show ?thesis by blast
  next
    case 3
    have u: "usable (image_size im) f" using fr 3(1) by blast
    let ?a = "f + PAGE_OFFSET"
    have a: "kpage ?a" "0xC0100000 + image_size im \<le> ?a" using frame_disjoint_tables [of "image_size im" f] u img by (auto simp: usable_def)
    define d where "d = x - ?a"
    have "unat d < 4096" using 3(2) by (simp add: in_range_def d_def)
    moreover have "unat ?a < 0xE0000000" using a(1) by (simp add: kpage_def word_less_nat_alt)
    moreover have "x = ?a + d" by (simp add: d_def)
    ultimately have "unat ?a \<le> unat x" by (simp only:) (subst unat_plus_if', simp)
    moreover have "0xC0100000 + unat (image_size im) \<le> unat ?a" using a(2) img by (simp add: word_le_nat_alt unat_plus_if')
    ultimately show ?thesis by linarith
  qed simp
qed

lemma boot_shop:
  assumes run: "init_components im w = Some (Inr v)" "image_ok im" "literals_loaded im dim (mem w)" and b: "boot_room im dim"
    and zero: "\<forall>i < 1024. load32 (mem w) (pgd_kern im + 4 * i) = 0" and vars: "first w = 0" "mm_top w = V_MM_START"
    and fr: "stack_ok v" "distinct (frames v)" "\<forall>f \<in> set (frames v). usable (image_size im) f"
  shows "shop dim (boot_thread im) [] v"
proof -
  let ?pgd = "pgd_kern im"
  have lay: "boot_layout ?pgd (pte_kern im)" and pg: "a_pgd_kern dim = ?pgd" using b by (simp_all add: boot_room_def)
  obtain k :: world where k: "mem k = mem w" "pg_stack v = pg_stack k" "pg_top v = pg_top k" "first v = first w" "mm_top v = mm_top w"
      "\<And>x. \<not> in_video x \<Longrightarrow> \<not> in_range (boot_thread im) 44 x \<Longrightarrow> mem v x = mem (init_vmm ?pgd (pte_kern im) k) x"
    using init_components_vmm [OF run(1)] by blast
  define s where "s = (init_vmm ?pgd (pte_kern im) k)\<lparr>first := 0, mm_top := V_MM_START\<rparr>"
  have fk: "frames v = frames k" by (rule frames_cong) (use k in simp_all)
  have s: "frames s = frames v" "pg_top s = pg_top v" "first s = first v" "mm_top s = mm_top v" "mem s = mem (init_vmm ?pgd (pte_kern im) k)"
    using k vars fk by (simp_all add: s_def init_vmm_def Let_def set_cr3_def register_interrupt_handler_def frames_def)
  have zk: "\<forall>i < 1024. load32 (mem k) (?pgd + 4 * i) = 0" using zero k(1) by simp
  have fk': "\<forall>f \<in> set (frames k). usable (image_size im) f" using fr(3) fk by simp
  have own: "\<not> page_cell ?pgd s x \<and> x < V_MM_START"
    if x: "local_cell dim x \<or> literal_cell dim x \<or> in_video x \<or> in_range (boot_thread im) 44 x" for x
  proof -
    have o: "unat x < 0xC0100000 + unat (image_size im)" "\<not> in_range ?pgd 4096 x" "\<not> in_range (pte_kern im) 0x80000 x"
      "unat (image_size im) < 0x1FF00000" using b x by (auto simp: boot_room_def)
    have "page_cell ?pgd s x = page_cell ?pgd (init_vmm ?pgd (pte_kern im) k) x" by (simp add: s_def)
    then show ?thesis using boot_cell [OF b zk fk', of x] o by (auto simp: word_less_nat_alt)
  qed
  have "paging_inv ?pgd (init_vmm ?pgd (pte_kern im) k)"
    by (rule init_vmm_inv [OF lay, of "image_size im"]) (use b zk fk' fr(2) fk in \<open>simp_all add: boot_room_def usable_def\<close>)
  then have inv: "paging_inv ?pgd s" by (simp add: s_def paging_inv_def frames_def)
  have "pte_entry (mem s) ?pgd a = 0" if "V_MM_START \<le> a" for a
  proof -
    have "896 \<le> PGD_INDEX a" using that by (simp add: word_le_nat_alt unat_PGD_INDEX)
    then have "load32 (mem s) (?pgd + 4 * PGD_INDEX a) = 0"
      using init_vmm_pde [OF lay index_lt(2), of k] zk index_lt(2) by (auto simp: s(5) not_less)
    then show ?thesis by (simp add: pte_entry_def present_def)
  qed
  then have "window_ok ?pgd s" using inv fr(1) s vars k by (auto simp: window_ok_def stack_ok_def not_less)
  then have "heap_inv ?pgd s []" using s vars k by (simp add: heap_inv_def last_addr_def heap_end_def)
  then have "heap_inv ?pgd v []"
    by (rule heap_inv_elsewhere) (use s k(6) own page_cell_low [OF inv] in \<open>auto simp: not_less [symmetric]\<close>)
  moreover have "page_cell ?pgd v x = page_cell ?pgd s x" for x
    by (rule page_cell_cong(3) [OF inv]) (use s k(6) own in \<open>auto\<close>)
  ultimately show ?thesis using boot_ready [OF run] own by (simp add: shop_def pg)
qed

section \<open>From \<open>_init\<close> to the end of a session\<close>

lemma init_leaves_shop:
  assumes "elf_from_multiboot (lit_strtab im) (lit_symtab im) (stack_elf im) (mboot im) (mem w) = Some e"
    and "stack_ok w" "frames w = []" "start = load32 (mem w) (mmap_addr (mboot im))" "regions = unat (load32 (mem w) (mmap_length (mboot im)))"
    and "unat start + 24 * regions < 2 ^ 32"
    and "length (map_pages (image_size im) (mem w) start regions) \<le> unat PAGE_MAX_SIZE"
    and "reads (content (con_part w)) = bs @ b # bs' @ b' # bs2" "\<forall>x \<in> set (bs @ bs'). x AND 2 \<noteq> 0" "b AND 2 = 0" "b' AND 2 = 0"
    and "image_ok im" "literals_loaded im dim (mem w)" "events w = ticking @ rest" "ticks_only ticking" "length ticking = 600"
    and room: "boot_room im dim" "locals_apart dim (boot_thread im)" "\<forall>i < 1024. load32 (mem w) (pgd_kern im + 4 * i) = 0"
      "first w = 0" "mm_top w = V_MM_START" "distinct (map_pages (image_size im) (mem w) start regions)"
      "0x20000000 \<notin> set (map_pages (image_size im) (mem w) start regions)"
  obtains v where "init run im dim w = Some (Inr v)" "shop dim (boot_thread im) [] v" "events v = rest"
    "frames v = rev (map_pages (image_size im) (mem w) start regions)" "missing L v = missing L w"
    "screen_of (con v) = shown 0 15 (literal_text L_f1 @ literal_text L_f2) blank_screen"
proof -
  let ?pages = "rev (map_pages (image_size im) (mem w) start regions)"
  obtain k v where v: "init_components im w = Some (Inr k)" "stack_ok k" "frames k = ?pages" "init run im dim w = Some (Inr v)"
      "ready dim (boot_thread im) v" "displays k (\<lambda>_. shown 0 15 (literal_text L_f1 @ literal_text L_f2) blank_screen) v" "events v = rest"
    using init_shows_menu [OF assms(1-16), of run] by (elim exE conjE) (rule that)
  have "usable (image_size im) f" if "f \<in> set (map_pages (image_size im) (mem w) start regions)" for f
  proof -
    have "page_aligned (image_size im)" "unat (image_size im) < 0x1FF00000" using room(1) by (simp_all add: boot_room_def)
    then show ?thesis using map_pages_above [OF that] that room(7) by (auto simp: usable_def order_less_le)
  qed
  then have k: "shop dim (boot_thread im) [] k"
    by (intro boot_shop [OF v(1) assms(12,13) room(1,3-5) v(2)]) (use v(3) room(6) in simp_all)
  have d: "serves (boot_thread im) v" "same_kernel k v" "\<And>x. \<not> in_video x \<Longrightarrow> mem v x = mem k x"
    using v(5,6) by (simp_all add: ready_def displays_def)
  note sv = shop_keeps [OF k d(1,2) room(2)] d(3)
  have "mm_top k = mm_top w" using init_components_vmm [OF v(1)] by blast
  then have "missing L k = missing L w" by (simp add: missing_def)
  then show thesis using that v(3,4,6,7) sv by (simp add: displays_def del: literal_text.simps)
qed

text \<open>C3: from power on to the end of a session: when the symbol tables can be read, the memory map lists
  different pages between the image and 512 MB, the keyboard controller becomes ready and the image is laid
  out without overlaps (its page directory zero, no frame on the stack and no heap yet), \<open>_init\<close> shows the menu after 600 clock ticks. When then F1 is pressed and lines
  of \<open>malloc\<close> commands, other words and \<open>exit\<close> are typed, the kernel comes back to the menu: the heap
  consists of one block in use for each size, in the order they were asked for, from \<open>V_MM_START\<close> on, and
  the kernel waits for the interrupts that follow. The conditions on the session: at most 20 sizes; all blocks
  with their headers end at \<open>L\<close> at the latest, below \<open>0xFFFFF000\<close>, and there are two free frames for each
  page of the heap up to \<open>L\<close>; and every other word has 1 to 19 characters, none of them blank, and is not
  \<open>free\<close>. (Larger sizes end in a panic, longer words overrun \<open>code\<close>.)\<close>

theorem boot_to_session:
  assumes "elf_from_multiboot (lit_strtab im) (lit_symtab im) (stack_elf im) (mboot im) (mem w) = Some e"
    and "stack_ok w" "frames w = []" "start = load32 (mem w) (mmap_addr (mboot im))" "regions = unat (load32 (mem w) (mmap_length (mboot im)))"
    and "unat start + 24 * regions < 2 ^ 32"
    and "length (map_pages (image_size im) (mem w) start regions) \<le> unat PAGE_MAX_SIZE"
    and "reads (content (con_part w)) = bs @ b # bs' @ b' # bs2" "\<forall>x \<in> set (bs @ bs'). x AND 2 \<noteq> 0" "b AND 2 = 0" "b' AND 2 = 0"
    and "image_ok im" "literals_loaded im dim (mem w)"
    and "events w = ticking @ Event c 33 st (59 # x # y # rs) # evs @ rest" "ticks_only ticking" "length ticking = 600"
    and room: "boot_room im dim" "locals_apart dim (boot_thread im)" "\<forall>i < 1024. load32 (mem w) (pgd_kern im + 4 * i) = 0"
      "first w = 0" "mm_top w = V_MM_START" "distinct (map_pages (image_size im) (mem w) start regions)"
      "0x20000000 \<notin> set (map_pages (image_size im) (mem w) start regions)"
    and typed: "3 \<le> length st" "typed_session cmds evs" "length (sizes cmds) \<le> 20"
    and mem: "0xE0000000 + sum_list (map (\<lambda>n. n + 12) (sizes cmds)) \<le> L" "L \<le> 0xFFFFF000"
      "2 * missing L w \<le> length (map_pages (image_size im) (mem w) start regions)"
  shows "\<exists>v w'. init run im dim w = Some (Inr v) \<and> deliver (demo run dim) v = Inr w' \<and>
    heap_inv (pgd_kern im) w' (allocated [] (sizes cmds)) \<and>
    events w' = rest \<and> serves (boot_thread im) w' \<and>
    screen_of (con w') = shown 0 15 (literal_text L_f1 @ literal_text L_f2) blank_screen"
proof -
  let ?rest = "Event c 33 st (59 # x # y # rs) # evs @ rest"
  obtain v where v: "init run im dim w = Some (Inr v)" "shop dim (boot_thread im) [] v" "events v = ?rest"
      "frames v = rev (map_pages (image_size im) (mem w) start regions)" "missing L v = missing L w"
    by (rule init_leaves_shop [OF assms(1-16) room]) (rule that)
  have fr: "2 * missing L v \<le> length (frames v)" using mem(3) v(4,5) by simp
  have he: "heap_end [] + sum_list (map (\<lambda>n. n + 12) (sizes cmds)) \<le> L" using mem(1) by (simp add: heap_end_def)
  have pg: "a_pgd_kern dim = pgd_kern im" using room(1) by (simp add: boot_room_def)
  from f1_runs [OF v(2) room(2) v(3) typed he mem(2) fr, of run] show ?thesis using v(1) unfolding pg by blast
qed

section \<open>A concrete machine\<close>

text \<open>One region of memory behind an image of 2 MB, with four pages.\<close>

definition map_memory :: memory where
  "map_memory = store32 (store32 (store32 (store32 (store32 demo_memory 0x952C 1) 0x9530 0x9600) 0x9604 0x100000) 0x960C 0x204000) 0x9614 1"

definition big_image :: image where
  "big_image = bare_image\<lparr>image_size := 0x200000\<rparr>"

definition boot_world :: "event list \<Rightarrow> world" where
  "boot_world evs = kernel.extend (bare_kernel\<lparr>mem := map_memory, first := 0, mm_top := 0xE0000000\<rparr>) \<lparr>events = evs\<rparr>"

lemma boot_world_fields:
  "mem (boot_world evs) = map_memory" "pg_top (boot_world evs) = 0" "first (boot_world evs) = 0" "mm_top (boot_world evs) = 0xE0000000"
  "content (con_part (boot_world evs)) = idle_keyboard" "events (boot_world evs) = evs"
  by (simp_all add: boot_world_def kernel.defs bare_kernel_def trap_state.defs)

lemma map_memory_high: "0x9618 \<le> unat x \<Longrightarrow> map_memory x = demo_memory x"
  by (simp add: map_memory_def store32_other in_range_nat)

lemma map_memory_loads:
  "load32 map_memory 0x952C = 1" "load32 map_memory 0x9530 = 0x9600" "load32 map_memory 0x9604 = 0x100000" "load32 map_memory 0x960C = 0x204000"
  "load32 map_memory 0x9614 = 1" "load32 map_memory 0x951C = 0" "load32 map_memory 0x9524 = 0" "load32 map_memory 0x9528 = 0"
  by (simp_all add: map_memory_def load32_store32_sep sep_def load32_below)

lemma four_pages: "map_pages 0x200000 map_memory 0x9600 1 = [0x300000, 0x301000, 0x302000, 0x303000]"
  by (simp add: entry_pages_def map_memory_loads region_pages_step region_pages_stop)

lemma big_image_room: "boot_room big_image bare_demo"
proof -
  have "unat x < 0xC0300000 \<and> \<not> in_range 0xC0113000 4096 x \<and> \<not> in_range 0xC0130000 0x80000 x"
    if "local_cell bare_demo x \<or> literal_cell bare_demo x \<or> in_video x \<or> in_range 0xC0120000 44 x" for x
  proof -
    have "0xC00B8000 \<le> unat x \<and> unat x < 0xC00B9000 \<or> 0xC0120000 \<le> unat x \<and> unat x < 0xC0122000 \<or> 0xC0200000 \<le> unat x \<and> unat x < 0xC0200600"
      using that literal_place_bounds [of _ x]
      by (auto simp: local_cell_def literal_cell_def in_video_nat in_range_nat bare_demo_def word_le_nat_alt word_less_nat_alt)
    then show ?thesis by (auto simp: in_range_nat)
  qed
  then show ?thesis
    by (simp add: boot_room_def big_image_def bare_image_def boot_thread_def boot_layout_def kpage_def) (simp add: bare_demo_def)
qed

lemma bare_apart: "locals_apart bare_demo 0xC0120000"
  using workshop_apart
  by (simp add: workshop_demo_def locals_apart_def local_cell_def [abs_def] literal_cell_def [abs_def])

lemma big_image_literals: "literals_loaded big_image bare_demo map_memory"
proof -
  have t: "text_at map_memory (literal_place l) (literal_text l @ [0])" for l
  proof -
    have "map_memory x = demo_memory x" if "in_range (literal_place l) (length (literal_text l @ [0])) x" for x
      using literal_place_bounds(1) [of l x] that by (intro map_memory_high) (simp add: word_le_nat_alt)
    then have "text_at map_memory (literal_place l) (literal_text l @ [0]) = text_at demo_memory (literal_place l) (literal_text l @ [0])"
      using literal_short [of l] by (intro text_at_cong) simp_all
    then show ?thesis using demo_memory_literals by simp
  qed
  have "lits bare_demo = literal_place" "boot_thread big_image = boot_thread bare_image" "pgd_kern big_image = pgd_kern bare_image"
    "pte_kern big_image = pte_kern bare_image" by (simp_all add: bare_demo_def big_image_def boot_thread_def)
  then show ?thesis using literals_in_place t by (simp add: literals_loaded_def del: text_at_append)
qed

lemma big_image_tables: "i < 1024 \<Longrightarrow> load32 map_memory (0xC0113000 + 4 * i) = 0"
proof -
  assume i: "i < 1024"
  have "load32 map_memory (0xC0113000 + 4 * i) = load32 (\<lambda>_. 0) (0xC0113000 + 4 * i)"
  proof (rule load_cell_cong [OF _ i])
    fix x :: u32 assume "in_range 0xC0113000 4096 x"
    then have "0xC0113000 \<le> unat x" "unat x < 0xC0114000" by (simp_all add: in_range_nat)
    then show "map_memory x = 0" by (simp add: map_memory_high below_literals word_less_nat_alt)
  qed simp
  then show ?thesis by (simp add: load32_def)
qed

lemma big_image_ok: "image_ok big_image"
  using bare_image_ok by (simp add: image_ok_def boot_thread_def big_image_def)

text \<open>The boot, F1, \<open>malloc\<close>, \<open>100\<close> and \<open>exit\<close>.\<close>

definition session_events :: "event list" where
  "session_events = replicate 600 clock_tick @ key_event 59 # ((malloc_line @ hundred_line) @ exit_line) @ []"

theorem boot_to_session_witness:
  "\<exists>v w'. init (\<lambda>_ w. Inr w) big_image bare_demo (boot_world session_events) = Some (Inr v) \<and>
     deliver (demo (\<lambda>_ w. Inr w) bare_demo) v = Inr w' \<and> heap_inv 0xC0113000 w' [Block 0xE0000000 True 112] \<and>
     serves 0xC0120000 w'"
proof -
  let ?w = "boot_world session_events" and ?run = "\<lambda>_ w. Inr w"
  have f: "mboot big_image = 0x9500" "image_size big_image = 0x200000" "boot_thread big_image = 0xC0120000" "pgd_kern big_image = 0xC0113000"
    by (simp_all add: big_image_def bare_image_def boot_thread_def)
  have e: "elf_from_multiboot (lit_strtab big_image) (lit_symtab big_image) (stack_elf big_image) (mboot big_image) (mem ?w) = Some (stack_elf big_image)"
    by (simp add: elf_from_multiboot_def boot_world_fields f map_memory_loads)
  have st: "stack_ok ?w" "frames ?w = []" by (simp_all add: stack_ok_def frames_def boot_world_fields)
  have mp: "0x9600 = load32 (mem ?w) (mmap_addr (mboot big_image))" "1 = unat (load32 (mem ?w) (mmap_length (mboot big_image)))"
    by (simp_all add: boot_world_fields f map_memory_loads)
  have pages: "map_pages (image_size big_image) (mem ?w) 0x9600 1 = [0x300000, 0x301000, 0x302000, 0x303000]"
    using four_pages by (simp only: f boot_world_fields)
  have rd: "reads (content (con_part ?w)) = [] @ 0 # [] @ 0 # []" by (simp add: boot_world_fields idle_keyboard_def)
  have lit: "literals_loaded big_image bare_demo (mem ?w)" using big_image_literals by (simp add: boot_world_fields)
  have ev: "events ?w = replicate 600 clock_tick @ Event some_cpu 33 [0xC0100000, 8, 0x202] (59 # 0 # 0 # []) # ((malloc_line @ hundred_line) @ exit_line) @ []"
    by (simp only: boot_world_fields session_events_def key_event_def)
  have ap: "locals_apart bare_demo (boot_thread big_image)" using bare_apart by (simp only: f)
  have z: "\<forall>i < 1024. load32 (mem ?w) (pgd_kern big_image + 4 * i) = 0" using big_image_tables by (simp add: boot_world_fields f)
  have ms: "missing 0xE0001000 ?w = 1" by (simp add: missing_def boot_world_fields)
  let ?pages = "map_pages (image_size big_image) (mem ?w) 0x9600 1"
  have pg: "length ?pages \<le> unat PAGE_MAX_SIZE" "distinct ?pages" "0x20000000 \<notin> set ?pages" "2 * missing 0xE0001000 ?w \<le> length ?pages"
    unfolding pages ms by simp_all
  have vars: "first ?w = 0" "mm_top ?w = V_MM_START" by (simp_all add: boot_world_fields)
  obtain v w' where "init ?run big_image bare_demo ?w = Some (Inr v)" "deliver (demo ?run bare_demo) v = Inr w'"
      "heap_inv (pgd_kern big_image) w' (allocated [] [100])" "serves (boot_thread big_image) w'"
    using boot_to_session [OF e st mp _ pg(1) rd _ _ _ big_image_ok lit ev clock_ticks_only _ big_image_room ap z vars pg(2,3) _ session_lines _ _ _ pg(4),
      of ?run] by auto
  then show ?thesis
    by (intro exI [of _ v] exI [of _ w']) (simp add: f appended_def heap_end_def)
qed

end
