(* ===== verification/FileTable.thy ===== *)
theory FileTable
  imports Machine CString
begin

text \<open>
  The file table of \<open>src/file.c\<close>. \<open>file_list\<close> is an array of packed \<open>struct _file\<close>, 176
  bytes each, in memory; \<open>fl\<close> is its link-time address. \<open>file_id\<close> counts the entries in use.
  Both add operations run with interrupts off and restore the flags they found. The name is copied by the kernel's \<open>strcpy\<close>, hence the option; \<open>-1\<close> is the error result.
\<close>

section \<open>State and fields\<close>

abbreviation (input) MAX_NAME :: nat where "MAX_NAME \<equiv> 20"
abbreviation (input) MAX_TASK :: nat where "MAX_TASK \<equiv> 32"
abbreviation (input) MAX_FILE :: u32 where "MAX_FILE \<equiv> 128"
abbreviation (input) F_T_FILE :: u32 where "F_T_FILE \<equiv> 0"
abbreviation (input) F_T_DIR :: u32 where "F_T_DIR \<equiv> 1"

record fs_state = machine +
  file_id :: u32
  cpu_flags :: u32

definition entry :: "u32 \<Rightarrow> u32 \<Rightarrow> u32" where "entry fl i = fl + 176 * i"

definition f_type :: "u32 \<Rightarrow> u32" where "f_type e = e"
definition f_father :: "u32 \<Rightarrow> u32" where "f_father e = e + 4"
definition f_time :: "u32 \<Rightarrow> u32" where "f_time e = e + 8"
definition f_base :: "u32 \<Rightarrow> u32" where "f_base e = e + 12"
definition f_size :: "u32 \<Rightarrow> u32" where "f_size e = e + 16"
definition f_pos :: "u32 \<Rightarrow> u32 \<Rightarrow> u32" where "f_pos e i = e + 20 + 4 * i"
definition f_op :: "u32 \<Rightarrow> u32" where "f_op e = e + 148"
definition f_req :: "u32 \<Rightarrow> u32" where "f_req e = e + 152"
definition f_name :: "u32 \<Rightarrow> u32" where "f_name e = e + 156"

section \<open>Adding\<close>

definition put_file :: "u32 \<Rightarrow> u32 \<Rightarrow> u32 \<Rightarrow> u32 \<Rightarrow> u32 \<Rightarrow> u32 \<Rightarrow> u32 \<Rightarrow> u32 \<Rightarrow> memory \<Rightarrow> memory" where
  "put_file e type father ftime base sz op req m =
     (let m = store32 m (f_type e) type;
          m = store32 m (f_father e) father;
          m = store32 m (f_time e) ftime;
          m = store32 m (f_base e) base;
          m = store32 m (f_size e) sz;
          m = store32 m (f_op e) op
      in store32 m (f_req e) req)"

primrec clear_pos :: "u32 \<Rightarrow> nat \<Rightarrow> memory \<Rightarrow> memory" where
  "clear_pos e 0 m = m"
| "clear_pos e (Suc n) m = store32 (clear_pos e n m) (f_pos e (of_nat n)) 0"

text \<open>The common end of both operations: the name, the parent's count and the index. An entry was added.\<close>

definition link_entry :: "u32 \<Rightarrow> u32 \<Rightarrow> u32 \<Rightarrow> 'a fs_state_scheme \<Rightarrow> (bool \<times> 'a fs_state_scheme) option" where
  "link_entry fl father name s =
     (case strcpy (mem s) (f_name (entry fl (file_id s))) name of
        None \<Rightarrow> None
      | Some (m, _) \<Rightarrow>
          let m = store32 m (f_size (entry fl father)) (load32 m (f_size (entry fl father)) + 1)
          in Some (True, s\<lparr>mem := m, file_id := file_id s + 1\<rparr>))"

text \<open>
  Both run between \<open>_local_irq_save\<close> and, on each of their two paths, \<open>_local_irq_restore\<close>; the result,
  \<open>file_id-1\<close> when an entry was added, is read after that.
\<close>

definition irqs_off ::
    "('a fs_state_scheme \<Rightarrow> (bool \<times> 'a fs_state_scheme) option) \<Rightarrow> 'a fs_state_scheme \<Rightarrow> (u32 \<times> 'a fs_state_scheme) option" where
  "irqs_off f s =
     (let (x, off) = local_irq_save (cpu_flags s)
      in case f (s\<lparr>cpu_flags := off\<rparr>) of
           None \<Rightarrow> None
         | Some (added, s) \<Rightarrow>
             let s = s\<lparr>cpu_flags := local_irq_restore x (cpu_flags s)\<rparr>
             in Some (if added then file_id s - 1 else - 1, s))"

definition fs_add_dir :: "u32 \<Rightarrow> u32 \<Rightarrow> u32 \<Rightarrow> u32 \<Rightarrow> 'a fs_state_scheme \<Rightarrow> (u32 \<times> 'a fs_state_scheme) option" where
  "fs_add_dir fl father ftime name =
     irqs_off (\<lambda>s.
       if file_id s < MAX_FILE
       then link_entry fl father name
              (s\<lparr>mem := put_file (entry fl (file_id s)) F_T_DIR father ftime 0 0 0 0 (mem s)\<rparr>)
       else Some (False, s))"

definition fs_add_file ::
    "u32 \<Rightarrow> u32 \<Rightarrow> u32 \<Rightarrow> u32 \<Rightarrow> u32 \<Rightarrow> u32 \<Rightarrow> u32 \<Rightarrow> u32 \<Rightarrow> 'a fs_state_scheme \<Rightarrow> (u32 \<times> 'a fs_state_scheme) option" where
  "fs_add_file fl father ftime base sz op req name =
     irqs_off (\<lambda>s.
       if file_id s < MAX_FILE
       then link_entry fl father name
              (s\<lparr>mem := clear_pos (entry fl (file_id s)) MAX_TASK
                   (put_file (entry fl (file_id s)) F_T_FILE father ftime base sz op req (mem s))\<rparr>)
       else Some (False, s))"

section \<open>Searching\<close>

text \<open>\<open>n\<close> is the number of entries from \<open>i\<close> on; entry 0 is never looked at.\<close>

primrec match_dir_loop :: "memory \<Rightarrow> u32 \<Rightarrow> u32 \<Rightarrow> u32 \<Rightarrow> u32 \<Rightarrow> nat \<Rightarrow> u32 option" where
  "match_dir_loop m fl father path i 0 = Some (- 1)"
| "match_dir_loop m fl father path i (Suc n) =
     (if load32 m (f_type (entry fl i)) = F_T_DIR \<and> load32 m (f_father (entry fl i)) = father
      then case strlen m (f_name (entry fl i)) of
             None \<Rightarrow> None
           | Some l \<Rightarrow> if 0 = strncmp m path (f_name (entry fl i)) l then Some i
                       else match_dir_loop m fl father path (i + 1) n
      else match_dir_loop m fl father path (i + 1) n)"

definition fs_match_dir :: "u32 \<Rightarrow> u32 \<Rightarrow> u32 \<Rightarrow> 'a fs_state_scheme \<Rightarrow> u32 option" where
  "fs_match_dir fl father path s = match_dir_loop (mem s) fl father path 1 (unat (file_id s) - 1)"

primrec match_file_loop :: "memory \<Rightarrow> u32 \<Rightarrow> u32 \<Rightarrow> u32 \<Rightarrow> u32 \<Rightarrow> nat \<Rightarrow> u32 option" where
  "match_file_loop m fl father name i 0 = Some (- 1)"
| "match_file_loop m fl father name i (Suc n) =
     (if load32 m (f_type (entry fl i)) = F_T_FILE \<and> load32 m (f_father (entry fl i)) = father
      then case strcmp m name (f_name (entry fl i)) of
             None \<Rightarrow> None
           | Some r \<Rightarrow> if 0 = r then Some i else match_file_loop m fl father name (i + 1) n
      else match_file_loop m fl father name (i + 1) n)"

definition fs_match_file :: "u32 \<Rightarrow> u32 \<Rightarrow> u32 \<Rightarrow> 'a fs_state_scheme \<Rightarrow> u32 option" where
  "fs_match_file fl father name s = match_file_loop (mem s) fl father name 1 (unat (file_id s) - 1)"

text \<open>The four literals of \<open>init_fs\<close> are arguments: the addresses of \<open>"*"\<close>, \<open>"/"\<close>, \<open>"dev/"\<close>, \<open>"sys/"\<close>.\<close>

definition init_fs :: "u32 \<Rightarrow> u32 \<Rightarrow> u32 \<Rightarrow> u32 \<Rightarrow> u32 \<Rightarrow> 'a fs_state_scheme \<Rightarrow> 'a fs_state_scheme option" where
  "init_fs fl star slash dev sys s =
     Option.bind (fs_add_dir fl 0 0 star (s\<lparr>file_id := 0\<rparr>)) (\<lambda>(_, s).
     Option.bind (fs_add_dir fl 0 0 slash s) (\<lambda>(_, s).
     Option.bind (fs_add_dir fl 1 0 dev s) (\<lambda>(_, s).
     Option.bind (fs_add_dir fl 1 0 sys s) (\<lambda>(_, s). Some s))))"

section \<open>The table as a list of entries\<close>

text \<open>
  What the searches look at: type, father and name. \<open>entry_words\<close> below has the rest of an entry: its 39
  words (type, father, time, base, size, 32 positions, operations, request) in front of the name.
\<close>

record fentry =
  fe_type :: u32
  fe_father :: u32
  fe_name :: "u8 list"

definition entry_words :: "memory \<Rightarrow> u32 \<Rightarrow> u32 list" where
  "entry_words m e = map (\<lambda>i. load32 m (e + 4 * of_nat i)) [0..<39]"

text \<open>The array lies in one piece below the end of memory.\<close>

definition table_room :: "u32 \<Rightarrow> bool" where
  "table_room fl \<longleftrightarrow> unat fl + 176 * 128 \<le> 2 ^ 32"

definition entry_is :: "memory \<Rightarrow> u32 \<Rightarrow> fentry \<Rightarrow> bool" where
  "entry_is m e f \<longleftrightarrow> load32 m (f_type e) = fe_type f \<and> load32 m (f_father e) = fe_father f \<and>
     cstr m (f_name e) (fe_name f) \<and> length (fe_name f) < MAX_NAME"

definition fs_tab :: "u32 \<Rightarrow> 'a fs_state_scheme \<Rightarrow> fentry list \<Rightarrow> bool" where
  "fs_tab fl s tab \<longleftrightarrow> table_room fl \<and> unat (file_id s) = length tab \<and> length tab \<le> 128 \<and>
     (\<forall>i < length tab. entry_is (mem s) (entry fl (of_nat i)) (tab ! i))"

text \<open>A string that lies outside the table.\<close>

definition outside :: "u32 \<Rightarrow> u32 \<Rightarrow> nat \<Rightarrow> bool" where
  "outside fl p n \<longleftrightarrow> sep fl (176 * 128) p n"

lemma unat_entry: "table_room fl \<Longrightarrow> i < 128 \<Longrightarrow> unat (entry fl (of_nat i)) = unat fl + 176 * i"
proof -
  assume r: "table_room fl" "i < 128"
  have "unat (176 * of_nat i :: u32) = 176 * i" using r(2) by (simp add: unat_word_ariths unat_of_nat)
  then show ?thesis using r by (simp add: entry_def table_room_def unat_plus_if')
qed

lemma entry_sep:
  assumes "table_room fl" "i < 128" "j < 128" "i \<noteq> j"
  shows "sep (entry fl (of_nat i)) 176 (entry fl (of_nat j)) 176"
proof -
  have A: "sep (entry fl (of_nat i)) 176 (entry fl (of_nat j)) 176" if "i < j" "j < 128" for i j
    using that assms(1) unat_entry [OF assms(1), of i] unat_entry [OF assms(1), of j]
    by (intro sep_natI) (auto simp: table_room_def)
  show ?thesis using A [of i j] A [of j i] assms sep_commute by (metis linorder_neqE_nat)
qed

lemma entry_outside:
  assumes "table_room fl" "outside fl p n" "0 < n" "i < 128"
  shows "sep (entry fl (of_nat i)) 176 p n"
proof -
  have "unat (176 * of_nat i :: u32) = 176 * i" using assms(4) by (simp add: unat_word_ariths unat_of_nat)
  then have "sep (fl + 176 * of_nat i) 176 (p + 0) n"
    using assms by (intro sep_sub [of fl "176 * 128" p n]) (auto simp: outside_def)
  then show ?thesis by (simp add: entry_def)
qed

lemma cstr_sep:
  assumes "cstr m p s" "length s < 2 ^ 32" "sep a n p (Suc (length s))" "\<And>x. \<not> in_range a n x \<Longrightarrow> m' x = m x"
  shows "cstr m' p s"
  using assms cstr_cong [OF assms(2), of p m' m] sep_in_range [of p "Suc (length s)" a n] sep_commute by metis

lemma entry_is_frame:
  assumes "entry_is m (entry fl (of_nat i)) f" "sep a n (entry fl (of_nat i)) 176" "\<And>x. \<not> in_range a n x \<Longrightarrow> m' x = m x"
    and "0 < n"
  shows "entry_is m' (entry fl (of_nat i)) f"
proof -
  let ?e = "entry fl (of_nat i)"
  have sub: "sep a n (?e + y) k" if "unat y + k \<le> 176" "0 < k" for y k
    using sep_sub [OF assms(2), of 0 n y k] that assms(4) by simp
  have "load32 m' (?e + y) = load32 m (?e + y)" if "unat y + 4 \<le> 176" for y
  proof (rule load32_cong)
    fix x assume x: "in_range (?e + y) 4 x"
    have "sep (?e + y) 4 a n" by (subst sep_commute) (rule sub [OF that], simp)
    from sep_in_range [OF this x] show "m' x = m x" by (rule assms(3))
  qed
  from this [of 0] this [of 4] have "load32 m' (f_type ?e) = load32 m (f_type ?e)" "load32 m' (f_father ?e) = load32 m (f_father ?e)"
    by (simp_all add: f_type_def f_father_def)
  moreover have "cstr m' (f_name ?e) (fe_name f)"
  proof (rule cstr_sep [OF _ _ _ assms(3)])
    show "cstr m (f_name ?e) (fe_name f)" "length (fe_name f) < 2 ^ 32" using assms(1) by (simp_all add: entry_is_def)
    show "sep a n (f_name ?e) (Suc (length (fe_name f)))"
      unfolding f_name_def using assms(1) by (intro sub) (simp_all add: entry_is_def)
  qed
  ultimately show ?thesis using assms(1) by (simp add: entry_is_def)
qed

text \<open>Counting up the size of an entry leaves what the table says of every entry.\<close>

lemma entry_is_size:
  assumes "table_room fl" "i < 128" "j < 128" "entry_is m (entry fl (of_nat i)) f"
  shows "entry_is (store32 m (f_size (entry fl (of_nat j))) v) (entry fl (of_nat i)) f"
proof (cases "i = j")
  case True
  let ?e = "entry fl (of_nat i)"
  have "sep (?e + 16) 4 (?e + 156) (Suc (length (fe_name f)))"
    using assms(4) by (simp add: entry_is_def)
  then have "cstr (store32 m (?e + 16) v) (?e + 156) (fe_name f)"
    using assms(4) by (intro cstr_sep [OF _ _ _ store32_other]) (auto simp: entry_is_def f_name_def)
  then show ?thesis
    using True assms(4) load32_store32_sep [of "?e + 16" "?e" m v] load32_store32_sep [of "?e + 16" "?e + 4" m v]
    by (simp add: entry_is_def f_type_def f_father_def f_name_def f_size_def)
next
  case False
  have "sep (entry fl (of_nat j) + 16) 4 (entry fl (of_nat i) + 0) 176"
    using False assms by (intro sep_sub [OF entry_sep]) auto
  then have "sep (f_size (entry fl (of_nat j))) 4 (entry fl (of_nat i)) 176" by (simp add: f_size_def)
  from entry_is_frame [OF assms(4) this, where m' = "store32 m (f_size (entry fl (of_nat j))) v"] store32_other
  show ?thesis by simp
qed

lemma put_file_frame: "\<not> in_range e 156 x \<Longrightarrow> put_file e ty fa ft b sz op rq m x = m x"
proof -
  assume x: "\<not> in_range e 156 x"
  have "\<not> in_range (e + k) 4 x" if "unat k + 4 \<le> 156" for k
    using in_range_sub [of e k 4 x 156] x that by auto
  from this [of 0] this [of 4] this [of 8] this [of 12] this [of 16] this [of 148] this [of 152] show ?thesis
    by (simp add: put_file_def Let_def store32_other f_type_def f_father_def f_time_def f_base_def f_size_def f_op_def f_req_def)
qed

lemma put_file_fields:
  "load32 (put_file e ty fa ft b sz op rq m) (f_type e) = ty"
  "load32 (put_file e ty fa ft b sz op rq m) (f_father e) = fa"
  "load32 (put_file e ty fa ft b sz op rq m) (f_size e) = sz"
  by (simp_all add: put_file_def Let_def load32_store32_sep f_type_def f_father_def f_time_def f_base_def
      f_size_def f_op_def f_req_def)

lemma clear_pos_frame: "n \<le> 32 \<Longrightarrow> \<not> in_range (e + 20) 128 x \<Longrightarrow> clear_pos e n m x = m x"
proof (induction n)
  case (Suc n)
  have u: "unat (4 * of_nat n :: u32) = 4 * n" using Suc.prems(1) by (simp add: unat_word_ariths unat_of_nat)
  have "\<not> in_range (e + 20 + 4 * of_nat n) 4 x"
    using in_range_sub [of "e + 20" "4 * of_nat n" 4 x 128] Suc.prems u by auto
  then show ?case using Suc by (simp add: store32_other f_pos_def)
qed simp

lemma clear_pos_fields:
  assumes "unat k + 4 \<le> 20"
  shows "load32 (clear_pos e 32 m) (e + k) = load32 m (e + k)"
proof (rule load32_cong)
  fix x assume x: "in_range (e + k) 4 x"
  have "unat (20 - k) = 20 - unat k" "unat (k - 20) = 2 ^ 32 + unat k - 20"
    using assms by (simp_all add: unat_sub_if')
  then have "sep (e + k) 4 (e + 20) 128" using assms by simp
  from clear_pos_frame [OF _ sep_in_range [OF this x]] show "clear_pos e 32 m x = m x" by simp
qed

lemma clear_pos_zero:
  "k < n \<Longrightarrow> n \<le> 32 \<Longrightarrow> load32 (clear_pos e n m) (e + 20 + 4 * of_nat k) = 0"
proof (induction n)
  case (Suc n)
  show ?case
  proof (cases "k = n")
    case False
    then have "k < n" using Suc.prems(1) by simp
    moreover have "unat (4 * of_nat n - 4 * of_nat k :: u32) = 4 * (n - k)" "unat (4 * of_nat k - 4 * of_nat n :: u32) = 2 ^ 32 - 4 * (n - k)"
      using \<open>k < n\<close> Suc.prems(2) by (simp_all add: unat_sub_if' unat_word_ariths unat_of_nat)
    then have "sep (e + 20 + 4 * of_nat n) 4 (e + 20 + 4 * of_nat k) 4"
      using \<open>k < n\<close> Suc.prems(2) by (simp add: sep_def) arith
    ultimately show ?thesis using Suc by (simp add: load32_store32_sep f_pos_def)
  qed (simp add: f_pos_def)
qed simp

lemma new_file_words:
  "entry_words (clear_pos e 32 (put_file e ty fa ft b sz op rq m)) e = [ty, fa, ft, b, sz] @ replicate 32 0 @ [op, rq]"
proof -
  let ?p = "put_file e ty fa ft b sz op rq m" and ?m = "clear_pos e 32 (put_file e ty fa ft b sz op rq m)"
  have u: "[0..<39] = [0, 1, 2, 3, 4] @ [5..<37] @ [37, 38]" by (simp add: upt_rec)
  have hi: "load32 ?m (e + k) = load32 ?p (e + k)" if "k = 148 \<or> k = 152" for k
  proof (rule load32_cong)
    fix x assume x: "in_range (e + k) 4 x"
    have "sep (e + k) 4 (e + 20) 128" using that by (auto simp: sep_def)
    from clear_pos_frame [OF _ sep_in_range [OF this x]] show "?m x = ?p x" by simp
  qed
  have low: "load32 ?m e = ty" "load32 ?m (e + 4) = fa" "load32 ?m (e + 8) = ft" "load32 ?m (e + 12) = b" "load32 ?m (e + 16) = sz"
    using clear_pos_fields [of 0 e ?p] clear_pos_fields [of 4 e ?p] clear_pos_fields [of 8 e ?p] clear_pos_fields [of 12 e ?p]
      clear_pos_fields [of 16 e ?p]
    by (simp_all add: put_file_def Let_def load32_store32_sep f_type_def f_father_def f_time_def f_base_def f_size_def f_op_def f_req_def)
  have "load32 ?m (e + 148) = op" "load32 ?m (e + 152) = rq"
    using hi [of 148] hi [of 152]
    by (simp_all add: put_file_def Let_def load32_store32_sep f_type_def f_father_def f_time_def f_base_def f_size_def f_op_def f_req_def)
  moreover have "map (\<lambda>i. load32 ?m (e + 4 * of_nat i)) [5..<37] = map (\<lambda>_. 0) [5..<37]"
  proof (rule map_cong [OF refl])
    fix j assume "j \<in> set [5..<37]"
    then obtain k where "j = 5 + k" "k < 32" by (auto intro: that [of "j - 5"])
    then show "load32 ?m (e + 4 * of_nat j) = 0" using clear_pos_zero [of k 32 e ?p] by (simp add: algebra_simps)
  qed
  then have "map (\<lambda>i. load32 ?m (e + 4 * of_nat i)) [5..<37] = replicate 32 0" by (simp only: map_replicate_const length_upt) simp
  ultimately show ?thesis using low unfolding entry_words_def u by simp
qed

lemma entry_words_store:
  assumes "\<And>x. in_range e 156 x \<Longrightarrow> \<not> in_range (e + 16) 4 x \<Longrightarrow> m' x = m x"
  shows "entry_words m' e = (entry_words m e)[4 := load32 m' (e + 16)]"
proof (rule nth_equalityI)
  fix i assume "i < length (entry_words m' e)"
  then have i: "i < 39" by (simp add: entry_words_def)
  have u: "unat (4 * of_nat i :: u32) = 4 * i" using i by (simp add: unat_word_ariths unat_of_nat)
  have "load32 m' (e + 4 * of_nat i) = load32 m (e + 4 * of_nat i)" if "i \<noteq> 4"
  proof (rule load32_cong)
    fix x assume x: "in_range (e + 4 * of_nat i) 4 x"
    have "unat (16 - 4 * of_nat i :: u32) = (if i \<le> 4 then 16 - 4 * i else 2 ^ 32 + 16 - 4 * i)"
      "unat (4 * of_nat i - 16 :: u32) = (if 4 \<le> i then 4 * i - 16 else 2 ^ 32 + 4 * i - 16)"
      using i by (simp_all add: unat_sub_if' u)
    then have "sep (e + 4 * of_nat i) 4 (e + 16) 4" using i that by (simp add: sep_def) arith
    moreover have "in_range e 156 x" using in_range_sub [OF x, of 156] i u by simp
    ultimately show "m' x = m x" using sep_in_range [OF _ x] assms by blast
  qed
  then show "entry_words m' e ! i = (entry_words m e)[4 := load32 m' (e + 16)] ! i"
    using i by (cases "i = 4") (simp_all add: entry_words_def)
qed (simp add: entry_words_def)

lemma not_in_entry:
  assumes "table_room fl" "i < 128" "\<not> in_range fl (176 * 128) x" "unat y + k \<le> 176"
  shows "\<not> in_range (entry fl (of_nat i) + y) k x"
proof
  assume "in_range (entry fl (of_nat i) + y) k x"
  moreover have "unat (176 * of_nat i :: u32) = 176 * i" using assms(2) by (simp add: unat_word_ariths unat_of_nat)
  moreover from this have "unat (176 * of_nat i + y) = 176 * i + unat y"
    using assms(2,4) by (simp add: unat_plus_if')
  ultimately have "in_range fl (176 * 128) x"
    using in_range_sub [of fl "176 * of_nat i + y" k x "176 * 128"] assms(2,4) by (simp add: entry_def add.assoc)
  with assms(3) show False by blast
qed

lemma cstr_outside:
  assumes "cstr m p s" "length s < MAX_NAME" "outside fl p (Suc (length s))"
    "\<forall>x. \<not> in_range fl (176 * 128) x \<longrightarrow> m' x = m x"
  shows "cstr m' p s"
proof (rule cstr_sep [OF assms(1)])
  show "length s < 2 ^ 32" using assms(2) by simp
  show "sep fl (176 * 128) p (Suc (length s))" using assms(3) by (simp only: outside_def)
qed (use assms(4) in blast)

text \<open>
  Linking in an entry whose header is written: the name is stored and nothing else that the
  table says changes, the parent's count goes up by one.
\<close>

lemma strcpy_entry:
  assumes "table_room fl" "n < 128" "cstr m p nm" "length nm < MAX_NAME" "outside fl p (Suc (length nm))"
  obtains m' where "strcpy m (f_name (entry fl (of_nat n))) p = Some (m', f_name (entry fl (of_nat n)))"
    and "cstr m' (f_name (entry fl (of_nat n))) nm"
    and "\<And>x. \<not> in_range (entry fl (of_nat n) + 156) 20 x \<Longrightarrow> m' x = m x"
proof -
  let ?e = "entry fl (of_nat n)"
  have "sep (?e + 156) (length nm + 1) (p + 0) (length nm + 1)"
    using assms by (intro sep_sub [OF entry_outside [of fl p "Suc (length nm)" n]]) auto
  then obtain m' where m': "strcpy m (f_name ?e) p = Some (m', f_name ?e)" "cstr m' (f_name ?e) nm"
      "\<And>x. \<not> in_range (f_name ?e) (length nm + 1) x \<Longrightarrow> m' x = m x"
    using strcpy_cstr [of m p nm "f_name ?e"] assms(3,4) by (auto simp: f_name_def)
  have "\<not> in_range (f_name ?e) (length nm + 1) x" if "\<not> in_range (?e + 156) 20 x" for x
    using that assms(4) by (auto simp: f_name_def in_range_def)
  with m' that show ?thesis by blast
qed

lemma fs_tab_snoc:
  assumes room: "table_room fl" "length tab < 128"
    and ent: "\<And>i. i \<le> length tab \<Longrightarrow> entry_is m (entry fl (of_nat i)) ((tab @ [f]) ! i)"
    and k: "k < 128" and id: "file_id s = of_nat (length tab)"
  shows "fs_tab fl (s\<lparr>mem := store32 m (f_size (entry fl (of_nat k))) v, file_id := file_id s + 1\<rparr>) (tab @ [f])"
  unfolding fs_tab_def
proof (intro conjI allI impI)
  fix i assume "i < length (tab @ [f])"
  then have "i < 128" "i \<le> length tab" using room by simp_all
  then show "entry_is (mem (s\<lparr>mem := store32 m (f_size (entry fl (of_nat k))) v, file_id := file_id s + 1\<rparr>))
      (entry fl (of_nat i)) ((tab @ [f]) ! i)"
    using ent entry_is_size [OF room(1) _ k] by simp
qed (use room id in \<open>auto simp: unat_word_ariths unat_of_nat\<close>)

lemma link_entry_tab:
  fixes s :: "'a fs_state_scheme"
  assumes tab: "fs_tab fl s tab" and room: "length tab < 128"
    and hdr: "\<And>x. \<not> in_range (entry fl (file_id s)) 156 x \<Longrightarrow> m x = mem s x"
      "load32 m (f_type (entry fl (file_id s))) = ty" "load32 m (f_father (entry fl (file_id s))) = father"
    and nm: "cstr (mem s) p nm" "length nm < MAX_NAME" "outside fl p (Suc (length nm))"
    and fa: "unat father \<le> length tab"
  shows "\<exists>s'. link_entry fl father p (s\<lparr>mem := m\<rparr>) = Some (True, s') \<and>
    fs_tab fl s' (tab @ [\<lparr>fe_type = ty, fe_father = father, fe_name = nm\<rparr>]) \<and>
    load32 (mem s') (f_size (entry fl father)) = load32 m (f_size (entry fl father)) + 1 \<and>
    (\<forall>x. \<not> in_range (entry fl (of_nat (length tab)) + 156) 20 x \<longrightarrow> \<not> in_range (f_size (entry fl father)) 4 x \<longrightarrow> mem s' x = m x)"
proof -
  let ?n = "length tab" and ?e = "entry fl (of_nat (length tab))"
  let ?f = "\<lparr>fe_type = ty, fe_father = father, fe_name = nm\<rparr>"
  have r: "table_room fl" "file_id s = of_nat ?n" and ent: "\<And>i. i < ?n \<Longrightarrow> entry_is (mem s) (entry fl (of_nat i)) (tab ! i)"
    using tab by (auto simp: fs_tab_def) (metis of_nat_unat ucast_id)
  obtain k where k: "father = of_nat k" "k < 128" using fa room by (metis le_less_trans of_nat_unat ucast_id)
  have hdr': "\<And>x. \<not> in_range ?e 156 x \<Longrightarrow> m x = mem s x" "load32 m (f_type ?e) = ty" "load32 m (f_father ?e) = father"
    using hdr r(2) by simp_all
  have out: "sep ?e 176 p (Suc (length nm))" by (rule entry_outside [OF r(1) nm(3) _ room]) simp
  have "cstr m p nm"
    by (rule cstr_sep [OF nm(1) _ _ hdr'(1)]) (use nm(2) sep_sub [OF out, of 0 156 0 "Suc (length nm)"] in auto)
  from strcpy_entry [OF r(1) room this nm(2,3)] obtain m2 where m2: "strcpy m (f_name ?e) p = Some (m2, f_name ?e)"
      "cstr m2 (f_name ?e) nm" "\<And>x. \<not> in_range (?e + 156) 20 x \<Longrightarrow> m2 x = m x"
    by blast
  let ?m3 = "store32 m2 (f_size (entry fl father)) (load32 m2 (f_size (entry fl father)) + 1)"
  let ?s' = "s\<lparr>mem := ?m3, file_id := file_id s + 1\<rparr>"
  have res: "link_entry fl father p (s\<lparr>mem := m\<rparr>) = Some (True, ?s')"
    using m2(1) r(2) by (simp add: link_entry_def Let_def)
  have keep: "load32 m2 a = load32 m a" if "sep a 4 (?e + 156) 20" for a
    using m2(3) sep_in_range [OF that] by (intro load32_cong) blast
  have new: "entry_is m2 ?e ?f"
    using m2(2) hdr'(2,3) nm(2) keep [of ?e] keep [of "?e + 4"]
    by (simp add: entry_is_def f_type_def f_father_def)
  have old: "entry_is m2 (entry fl (of_nat i)) (tab ! i)" if "i < ?n" for i
  proof (rule entry_is_frame [OF ent [OF that], of ?e 176])
    show "sep ?e 176 (entry fl (of_nat i)) 176" using that room by (intro entry_sep [OF r(1)]) auto
    fix x assume x: "\<not> in_range ?e 176 x"
    then have "\<not> in_range ?e 156 x" "\<not> in_range (?e + 156) 20 x"
      using in_range_sub [of ?e 156 20 x 176] by (auto simp: in_range_def)
    then show "m2 x = mem s x" using m2(3) hdr'(1) by simp
  qed simp
  have "entry_is m2 (entry fl (of_nat i)) ((tab @ [?f]) ! i)" if "i \<le> ?n" for i
    using that new old by (cases "i < ?n") (auto simp: nth_append)
  from fs_tab_snoc [OF r(1) room this k(2) r(2)] have tab': "fs_tab fl ?s' (tab @ [?f])"
    unfolding k(1) .
  have "sep (f_size (entry fl father)) 4 (?e + 156) 20"
  proof (cases "k = ?n")
    case False
    then show ?thesis using k room by (auto simp: f_size_def intro!: sep_sub [OF entry_sep [OF r(1)]])
  qed (simp add: k(1) f_size_def)
  then have sz: "load32 (mem ?s') (f_size (entry fl father)) = load32 m (f_size (entry fl father)) + 1"
    by (simp add: keep)
  moreover have "mem ?s' x = m x" if "\<not> in_range (?e + 156) 20 x" "\<not> in_range (f_size (entry fl father)) 4 x" for x
    using m2(3) [OF that(1)] that(2) by (simp add: store32_other)
  ultimately show ?thesis using res tab' by (intro exI [of _ ?s']) simp
qed

section \<open>What the operations guarantee\<close>

lemma fs_tab_flags [simp]: "fs_tab fl (s\<lparr>cpu_flags := x\<rparr>) tab = fs_tab fl s tab"
  by (simp add: fs_tab_def)

lemma irqs_off_flags: "irqs_off f s = Some (i, s') \<Longrightarrow> cpu_flags s' = cpu_flags s"
  by (auto simp: irqs_off_def local_irq_save_def local_irq_restore_def Let_def split: option.splits)

lemma irqs_off_fails: "f (s\<lparr>cpu_flags := cpu_flags s AND NOT 0x200\<rparr>) = Some (False, s\<lparr>cpu_flags := cpu_flags s AND NOT 0x200\<rparr>) \<Longrightarrow>
    irqs_off f s = Some (- 1, s)"
  by (simp add: irqs_off_def local_irq_save_def local_irq_restore_def)

lemma irqs_off_tab:
  assumes "\<exists>s'. f (s\<lparr>cpu_flags := cpu_flags s AND NOT 0x200\<rparr>) = Some (True, s') \<and> fs_tab fl s' (tab @ [g]) \<and> Q (mem s')"
  shows "\<exists>s'. irqs_off f s = Some (of_nat (length tab), s') \<and> fs_tab fl s' (tab @ [g]) \<and> Q (mem s')"
proof -
  obtain s' where s': "f (s\<lparr>cpu_flags := cpu_flags s AND NOT 0x200\<rparr>) = Some (True, s')" "fs_tab fl s' (tab @ [g])" "Q (mem s')"
    using assms by blast
  have "unat (file_id s') = length tab + 1" using s'(2) by (simp add: fs_tab_def)
  then have "file_id s' = of_nat (length tab + 1)" by (metis of_nat_unat ucast_id)
  then show ?thesis using s'
    by (intro exI [of _ "s'\<lparr>cpu_flags := cpu_flags s\<rparr>"]) (simp add: irqs_off_def local_irq_save_def local_irq_restore_def)
qed

text \<open>What an added entry changes, outside its own 176 bytes and the size of its father: nothing.\<close>

definition adds_only :: "u32 \<Rightarrow> nat \<Rightarrow> u32 \<Rightarrow> memory \<Rightarrow> memory \<Rightarrow> bool" where
  "adds_only fl n father m m' \<longleftrightarrow>
     (\<forall>x. \<not> in_range (entry fl (of_nat n)) 176 x \<longrightarrow> \<not> in_range (f_size (entry fl father)) 4 x \<longrightarrow> m' x = m x)"

lemma adds_only_outside:
  assumes "adds_only fl n father m m'" "table_room fl" "n < 128" "unat father \<le> n" "\<not> in_range fl (176 * 128) x"
  shows "m' x = m x"
proof -
  have f: "father = of_nat (unat father)" "unat father < 128" using assms(3,4) by simp_all
  have "\<not> in_range (entry fl (of_nat n) + 0) 176 x" by (rule not_in_entry [OF assms(2,3,5)]) simp
  moreover have "\<not> in_range (entry fl (of_nat (unat father)) + 16) 4 x" by (rule not_in_entry [OF assms(2) f(2) assms(5)]) simp
  ultimately show ?thesis using assms(1) by (simp add: adds_only_def f_size_def)
qed

lemma adds_only_linked:
  assumes "\<And>x. \<not> in_range e 156 x \<Longrightarrow> m x = m0 x" "e = entry fl (of_nat n)"
    and "\<forall>x. \<not> in_range (e + 156) 20 x \<longrightarrow> \<not> in_range (f_size (entry fl father)) 4 x \<longrightarrow> m' x = m x"
  shows "adds_only fl n father m0 m'"
  unfolding adds_only_def
proof (intro allI impI)
  fix x assume x: "\<not> in_range (entry fl (of_nat n)) 176 x" "\<not> in_range (f_size (entry fl father)) 4 x"
  have "\<not> in_range (e + 156) 20 x" using x(1) in_range_sub [of e 156 20 x 176] assms(2) by auto
  moreover have "\<not> in_range e 156 x" using x(1) assms(2) by (auto simp: in_range_def)
  ultimately show "m' x = m0 x" using assms(1,3) x(2) by simp
qed

lemma fs_add_dir_tab:
  fixes s :: "'a fs_state_scheme"
  assumes tab: "fs_tab fl s tab" and "length tab < 128"
    and "cstr (mem s) p nm" "length nm < MAX_NAME" "outside fl p (Suc (length nm))" "unat father \<le> length tab"
  shows "\<exists>s'. fs_add_dir fl father ftime p s = Some (of_nat (length tab), s') \<and>
    fs_tab fl s' (tab @ [\<lparr>fe_type = F_T_DIR, fe_father = father, fe_name = nm\<rparr>]) \<and>
    adds_only fl (length tab) father (mem s) (mem s')"
proof -
  let ?s = "s\<lparr>cpu_flags := cpu_flags s AND NOT 0x200\<rparr>" and ?e = "entry fl (file_id s)"
  let ?m = "put_file ?e F_T_DIR father ftime 0 0 0 0 (mem s)"
  have i: "file_id s < MAX_FILE" "?e = entry fl (of_nat (length tab))"
    using tab assms(2) by (auto simp: fs_tab_def word_less_nat_alt) (metis of_nat_unat ucast_id)
  have t: "fs_tab fl ?s tab" "cstr (mem ?s) p nm" using tab assms(3) by simp_all
  obtain s' where s': "link_entry fl father p (?s\<lparr>mem := ?m\<rparr>) = Some (True, s')"
      "fs_tab fl s' (tab @ [\<lparr>fe_type = F_T_DIR, fe_father = father, fe_name = nm\<rparr>])"
      "\<forall>x. \<not> in_range (?e + 156) 20 x \<longrightarrow> \<not> in_range (f_size (entry fl father)) 4 x \<longrightarrow> mem s' x = ?m x"
    using link_entry_tab [OF t(1) assms(2) _ _ _ t(2) assms(4-6), of ?m F_T_DIR] put_file_frame put_file_fields(1,2) i(2) by auto
  have "adds_only fl (length tab) father (mem s) (mem s')"
    by (rule adds_only_linked [OF _ i(2) s'(3)]) (rule put_file_frame)
  then show ?thesis unfolding fs_add_dir_def using s'(1,2) i(1) by (intro irqs_off_tab) auto
qed

lemma fs_add_dir_out:
  fixes s :: "'a fs_state_scheme"
  assumes tab: "fs_tab fl s tab" and "length tab < 128"
    and "cstr (mem s) p nm" "length nm < MAX_NAME" "outside fl p (Suc (length nm))" "unat father \<le> length tab"
  shows "\<exists>s'. fs_add_dir fl father ftime p s = Some (of_nat (length tab), s') \<and>
    fs_tab fl s' (tab @ [\<lparr>fe_type = F_T_DIR, fe_father = father, fe_name = nm\<rparr>]) \<and>
    (\<forall>x. \<not> in_range fl (176 * 128) x \<longrightarrow> mem s' x = mem s x)"
proof -
  have "table_room fl" using tab by (simp add: fs_tab_def)
  then show ?thesis using fs_add_dir_tab [OF assms] adds_only_outside [OF _ _ assms(2,6)] by metis
qed

lemma fs_add_file_tab:
  fixes s :: "'a fs_state_scheme"
  assumes tab: "fs_tab fl s tab" and "length tab < 128"
    and "cstr (mem s) p nm" "length nm < MAX_NAME" "outside fl p (Suc (length nm))" "unat father \<le> length tab"
  shows "\<exists>s'. fs_add_file fl father ftime base sz op req p s = Some (of_nat (length tab), s') \<and>
    fs_tab fl s' (tab @ [\<lparr>fe_type = F_T_FILE, fe_father = father, fe_name = nm\<rparr>]) \<and>
    adds_only fl (length tab) father (mem s) (mem s') \<and>
    entry_words (mem s') (entry fl (of_nat (length tab))) =
      [F_T_FILE, father, ftime, base, if unat father = length tab then sz + 1 else sz] @ replicate 32 0 @ [op, req] \<and>
    (unat father \<noteq> length tab \<longrightarrow> load32 (mem s') (f_size (entry fl father)) = load32 (mem s) (f_size (entry fl father)) + 1)"
proof -
  let ?s = "s\<lparr>cpu_flags := cpu_flags s AND NOT 0x200\<rparr>"
  let ?e = "entry fl (file_id s)" and ?z = "f_size (entry fl father)"
  let ?m = "clear_pos ?e 32 (put_file ?e F_T_FILE father ftime base sz op req (mem s))"
  have r: "table_room fl" using tab by (simp add: fs_tab_def)
  have i: "file_id s < MAX_FILE" "?e = entry fl (of_nat (length tab))"
    using tab assms(2) by (auto simp: fs_tab_def word_less_nat_alt) (metis of_nat_unat ucast_id)
  have f: "father = of_nat (unat father)" "unat father < 128" using assms(2,6) by simp_all
  have hdr: "?m x = mem s x" if "\<not> in_range ?e 156 x" for x
  proof -
    have "\<not> in_range (?e + 20) 128 x" using in_range_sub [of ?e 20 128 x 156] that by auto
    then show ?thesis using clear_pos_frame [of 32 ?e x] put_file_frame [OF that] by simp
  qed
  have ws: "entry_words ?m ?e = [F_T_FILE, father, ftime, base, sz] @ replicate 32 0 @ [op, req]" by (rule new_file_words)
  have fld: "load32 ?m (f_type ?e) = F_T_FILE" "load32 ?m (f_father ?e) = father" "load32 ?m (f_size ?e) = sz"
    using clear_pos_fields [of 0 ?e] clear_pos_fields [of 4 ?e] clear_pos_fields [of 16 ?e] put_file_fields [of ?e]
    by (simp_all add: f_type_def f_father_def f_size_def)
  have t: "fs_tab fl ?s tab" "cstr (mem ?s) p nm" using tab assms(3) by simp_all
  obtain s' where s': "link_entry fl father p (?s\<lparr>mem := ?m\<rparr>) = Some (True, s')"
      "fs_tab fl s' (tab @ [\<lparr>fe_type = F_T_FILE, fe_father = father, fe_name = nm\<rparr>])" "load32 (mem s') ?z = load32 ?m ?z + 1"
      "\<forall>x. \<not> in_range (?e + 156) 20 x \<longrightarrow> \<not> in_range ?z 4 x \<longrightarrow> mem s' x = ?m x"
    using link_entry_tab [OF t(1) assms(2) _ _ _ t(2) assms(4-6), of ?m F_T_FILE] hdr fld i(2) by auto
  have only: "adds_only fl (length tab) father (mem s) (mem s')"
    by (rule adds_only_linked [OF hdr i(2) s'(4)])
  have nm: "\<not> in_range (?e + 156) 20 x" if "in_range ?e 156 x" for x
  proof -
    have "sep ?e 156 (?e + 156) 20" by (simp add: sep_def)
    from sep_in_range [OF this that] show ?thesis .
  qed
  have "entry_words (mem s') ?e = [F_T_FILE, father, ftime, base, if unat father = length tab then sz + 1 else sz] @ replicate 32 0 @ [op, req] \<and>
    (unat father \<noteq> length tab \<longrightarrow> load32 (mem s') ?z = load32 (mem s) ?z + 1)"
  proof (cases "unat father = length tab")
    case True
    then have z: "?z = ?e + 16" using f(1) i(2) by (simp add: f_size_def)
    then have "entry_words (mem s') ?e = (entry_words ?m ?e)[4 := load32 (mem s') (?e + 16)]"
      using s'(4) nm by (intro entry_words_store) auto
    moreover have "load32 (mem s') (?e + 16) = sz + 1" using s'(3) fld(3) z by (simp add: f_size_def)
    ultimately show ?thesis using ws True by simp
  next
    case False
    have sp: "sep ?e 176 (entry fl father) 176"
      unfolding i(2) by (subst f(1)) (rule entry_sep [OF r assms(2) f(2)], use False in simp)
    have far: "sep ?e 156 ?z 4" using sep_sub [OF sp, of 0 156 16 4] by (simp add: f_size_def)
    have keep: "mem s' x = ?m x" if "in_range ?e 156 x" for x using s'(4) nm [OF that] sep_in_range [OF far that] by blast
    then have "entry_words (mem s') ?e = entry_words ?m ?e"
    proof -
      have "load32 (mem s') (?e + 16) = load32 ?m (?e + 16)"
        using in_range_sub [of ?e 16 4 _ 156] by (intro load32_cong keep) simp
      then show ?thesis using entry_words_store [of ?e "mem s'" ?m] keep ws fld(3) by (simp add: f_size_def)
    qed
    moreover have "load32 ?m ?z = load32 (mem s) ?z"
    proof (rule load32_cong)
      fix x assume "in_range ?z 4 x"
      moreover have "sep ?z 4 ?e 156" using far by (simp add: sep_commute)
      ultimately show "?m x = mem s x" using sep_in_range hdr by blast
    qed
    ultimately show ?thesis using ws s'(3) False by simp
  qed
  then show ?thesis
    unfolding fs_add_file_def i(2) [symmetric] using s'(1,2) only i(1) by (intro irqs_off_tab) auto
qed

text \<open>The index of the first entry, counted from \<open>i\<close>, that satisfies \<open>P\<close>; -1 when there is none.\<close>

fun first_from :: "nat \<Rightarrow> ('b \<Rightarrow> bool) \<Rightarrow> 'b list \<Rightarrow> u32" where
  "first_from i P [] = - 1"
| "first_from i P (x # xs) = (if P x then of_nat i else first_from (Suc i) P xs)"

definition file_named :: "u32 \<Rightarrow> u8 list \<Rightarrow> fentry \<Rightarrow> bool" where
  "file_named father nm f \<longleftrightarrow> fe_type f = F_T_FILE \<and> fe_father f = father \<and> fe_name f = nm"

definition dir_prefix :: "u32 \<Rightarrow> u8 list \<Rightarrow> fentry \<Rightarrow> bool" where
  "dir_prefix father path f \<longleftrightarrow> fe_type f = F_T_DIR \<and> fe_father f = father \<and>
     take (length (fe_name f)) path = fe_name f"

lemma match_file_loop_first:
  assumes "cstr m q nm"
  shows "\<forall>k < length fs. entry_is m (entry fl (of_nat (i + k))) (fs ! k) \<Longrightarrow>
     match_file_loop m fl father q (of_nat i) (length fs) = Some (first_from i (file_named father nm) fs)"
proof (induction fs arbitrary: i)
  case (Cons f fs)
  have f: "entry_is m (entry fl (of_nat i)) f" using Cons.prems by fastforce
  have "\<forall>k < length fs. entry_is m (entry fl (of_nat (Suc i + k))) (fs ! k)" using Cons.prems by fastforce
  from Cons.IH [OF this] have IH: "match_file_loop m fl father q (of_nat i + 1) (length fs) =
      Some (first_from (Suc i) (file_named father nm) fs)" by (simp add: add.commute)
  have "strcmp m q (f_name (entry fl (of_nat i))) = Some (byte_diff nm (fe_name f))"
    using strcmp_cstr assms f by (simp add: entry_is_def)
  moreover have "byte_diff nm (fe_name f) = 0 \<longleftrightarrow> fe_name f = nm"
    using byte_diff_0_iff [of nm "fe_name f"] cstr_no_nul [OF assms] f cstr_no_nul by (auto simp: entry_is_def)
  ultimately show ?case using f IH by (auto simp: entry_is_def file_named_def [of father nm f])
qed simp

lemma match_dir_loop_first:
  assumes "cstr m q path"
  shows "\<forall>k < length fs. entry_is m (entry fl (of_nat (i + k))) (fs ! k) \<Longrightarrow>
     match_dir_loop m fl father q (of_nat i) (length fs) = Some (first_from i (dir_prefix father path) fs)"
proof (induction fs arbitrary: i)
  case (Cons f fs)
  have f: "entry_is m (entry fl (of_nat i)) f" using Cons.prems by fastforce
  have "\<forall>k < length fs. entry_is m (entry fl (of_nat (Suc i + k))) (fs ! k)" using Cons.prems by fastforce
  from Cons.IH [OF this] have IH: "match_dir_loop m fl father q (of_nat i + 1) (length fs) =
      Some (first_from (Suc i) (dir_prefix father path) fs)" by (simp add: add.commute)
  have nm: "cstr m (f_name (entry fl (of_nat i))) (fe_name f)" "length (fe_name f) < 20" using f by (simp_all add: entry_is_def)
  let ?l = "of_nat (length (fe_name f)) :: u32"
  have l: "strlen m (f_name (entry fl (of_nat i))) = Some ?l" by (rule strlen_cstr [OF nm(1)])
  have u: "unat ?l = length (fe_name f)" using nm(2) by (simp add: unat_of_nat)
  have "strncmp m q (f_name (entry fl (of_nat i))) ?l = byte_diff (take (length (fe_name f)) path) (fe_name f)"
    using strncmp_cstr [OF assms nm(1), of ?l] by (simp add: u)
  moreover have "0 \<notin> set (take n path)" for n using cstr_no_nul [OF assms] by (meson in_set_takeD)
  ultimately have "0 = strncmp m q (f_name (entry fl (of_nat i))) ?l \<longleftrightarrow> take (length (fe_name f)) path = fe_name f"
    using byte_diff_0_iff cstr_no_nul [OF nm(1)] by metis
  then show ?case using f IH l by (auto simp: entry_is_def dir_prefix_def [of father path f])
qed simp

lemma tab_tail:
  assumes "fs_tab fl s tab"
  shows "unat (file_id s) - 1 = length (tl tab)"
    and "\<forall>k < length (tl tab). entry_is (mem s) (entry fl (of_nat (1 + k))) (tl tab ! k)"
proof -
  show "unat (file_id s) - 1 = length (tl tab)" using assms by (simp add: fs_tab_def)
  show "\<forall>k < length (tl tab). entry_is (mem s) (entry fl (of_nat (1 + k))) (tl tab ! k)"
  proof (intro allI impI)
    fix k assume "k < length (tl tab)"
    then have "1 + k < length tab" "tl tab ! k = tab ! (1 + k)" by (simp_all add: nth_tl)
    then show "entry_is (mem s) (entry fl (of_nat (1 + k))) (tl tab ! k)" using assms unfolding fs_tab_def by metis
  qed
qed

lemma match_file_first:
  "fs_tab fl s tab \<Longrightarrow> cstr (mem s) q nm \<Longrightarrow>
     fs_match_file fl father q s = Some (first_from 1 (file_named father nm) (tl tab))"
  using match_file_loop_first [OF _ tab_tail(2), of s q nm fl tab father] tab_tail(1) [of fl s tab]
  by (simp add: fs_match_file_def)

lemma match_dir_first:
  "fs_tab fl s tab \<Longrightarrow> cstr (mem s) q path \<Longrightarrow>
     fs_match_dir fl father q s = Some (first_from 1 (dir_prefix father path) (tl tab))"
  using match_dir_loop_first [OF _ tab_tail(2), of s q path fl tab father] tab_tail(1) [of fl s tab]
  by (simp add: fs_match_dir_def)

lemma first_from_append:
  "(\<And>x. x \<in> set xs \<Longrightarrow> \<not> P x) \<Longrightarrow> P y \<Longrightarrow> first_from i P (xs @ [y]) = of_nat (i + length xs)"
  by (induction xs arbitrary: i) simp_all

text \<open>C29: searching the file table: both searches return, the first with the index of the first file
  of that name in the directory, the second with that of the first subdirectory whose name is a
  prefix of the path; -1 when there is none. Entry 0 is never found.\<close>

theorem fs_match_finds_first:
  assumes "fs_tab fl s tab" "cstr (mem s) q str"
  shows "fs_match_file fl father q s = Some (first_from 1 (file_named father str) (tl tab)) \<and>
    fs_match_dir fl father q s = Some (first_from 1 (dir_prefix father str) (tl tab))"
  using match_file_first [OF assms] match_dir_first [OF assms] by blast

text \<open>C28: a file that is added to a table with an entry already, under a name of less than 20 characters that
  stands outside the table, with an entry in use or the new one as its father and no file of that name in
  the directory yet, gets the next index and is found under its name from then on. The new entry holds exactly
  the type, father, time, base, size, operations and request that were asked for and 32 positions of 0, and the
  name. The size of the father's entry goes up by one (also when the new entry is given as its own father); apart
  from that and the new entry's own 176 bytes no memory changes, so every other entry stays as it was. Once 128
  entries are in use, both operations return -1 and change nothing. On both paths the interrupt flag is as it was
  before.\<close>

theorem fs_add_then_match:
  fixes s :: "'a fs_state_scheme"
  assumes "fs_tab fl s tab" "tab \<noteq> []" "cstr (mem s) p nm" "length nm < MAX_NAME" "outside fl p (Suc (length nm))"
    and "unat father \<le> length tab" "\<And>f. f \<in> set (tl tab) \<Longrightarrow> \<not> file_named father nm f"
  shows "if length tab < 128
    then \<exists>s'. fs_add_file fl father ftime base sz op req p s = Some (of_nat (length tab), s') \<and>
           fs_tab fl s' (tab @ [\<lparr>fe_type = F_T_FILE, fe_father = father, fe_name = nm\<rparr>]) \<and>
           entry_words (mem s') (entry fl (of_nat (length tab))) =
             [F_T_FILE, father, ftime, base, if unat father = length tab then sz + 1 else sz] @ replicate 32 0 @ [op, req] \<and>
           (unat father \<noteq> length tab \<longrightarrow> load32 (mem s') (f_size (entry fl father)) = load32 (mem s) (f_size (entry fl father)) + 1) \<and>
           (\<forall>x. \<not> in_range (entry fl (of_nat (length tab))) 176 x \<longrightarrow> \<not> in_range (f_size (entry fl father)) 4 x \<longrightarrow> mem s' x = mem s x) \<and>
           fs_match_file fl father p s' = Some (of_nat (length tab)) \<and> cpu_flags s' = cpu_flags s
    else fs_add_file fl father ftime base sz op req p s = Some (- 1, s) \<and>
         fs_add_dir fl father ftime p s = Some (- 1, s)"
proof (cases "length tab < 128")
  case True
  let ?f = "\<lparr>fe_type = F_T_FILE, fe_father = father, fe_name = nm\<rparr>"
  obtain s' where s': "fs_add_file fl father ftime base sz op req p s = Some (of_nat (length tab), s')"
      "fs_tab fl s' (tab @ [?f])" "adds_only fl (length tab) father (mem s) (mem s')"
      "entry_words (mem s') (entry fl (of_nat (length tab))) =
        [F_T_FILE, father, ftime, base, if unat father = length tab then sz + 1 else sz] @ replicate 32 0 @ [op, req]"
      "unat father \<noteq> length tab \<longrightarrow> load32 (mem s') (f_size (entry fl father)) = load32 (mem s) (f_size (entry fl father)) + 1"
    using fs_add_file_tab [OF assms(1) True assms(3-6)] by blast
  have "table_room fl" using assms(1) by (simp add: fs_tab_def)
  then have "\<forall>x. \<not> in_range fl (176 * 128) x \<longrightarrow> mem s' x = mem s x" using adds_only_outside [OF s'(3) _ True assms(6)] by blast
  from cstr_outside [OF assms(3-5) this] have q: "cstr (mem s') p nm" .
  have "first_from 1 (file_named father nm) (tl (tab @ [?f])) = of_nat (1 + length (tl tab))"
  proof -
    have "file_named father nm ?f" by (simp add: file_named_def)
    then show ?thesis
      using first_from_append [of "tl tab" "file_named father nm" ?f 1] assms(2,7) by (simp add: tl_append2)
  qed
  then have "fs_match_file fl father p s' = Some (of_nat (length tab))"
    using match_file_first [OF s'(2) q] assms(2) by simp
  moreover have "cpu_flags s' = cpu_flags s" using s'(1) irqs_off_flags unfolding fs_add_file_def by blast
  ultimately show ?thesis using s' True by (auto simp: adds_only_def)
next
  case False
  then have "\<not> file_id s < MAX_FILE" using assms(1) by (simp add: fs_tab_def word_less_nat_alt)
  then show ?thesis using False by (simp add: fs_add_file_def fs_add_dir_def irqs_off_fails)
qed

text \<open>\<open>init_fs\<close> builds the directories \<open>*\<close>, \<open>/\<close>, \<open>dev/\<close> and \<open>sys/\<close> with their fixed indices 0 to 3,
  so a path is resolved step by step: \<open>/\<close> in directory 0 and \<open>dev/\<close> or \<open>sys/\<close> in directory 1.\<close>

theorem init_fs_tree:
  fixes s :: "'a fs_state_scheme"
  assumes "table_room fl" "cstr (mem s) a [42]" "cstr (mem s) b [47]" "cstr (mem s) c [100, 101, 118, 47]"
    "cstr (mem s) d [115, 121, 115, 47]"
    and "outside fl a 2" "outside fl b 2" "outside fl c 5" "outside fl d 5"
  shows "\<exists>s'. init_fs fl a b c d s = Some s' \<and>
    fs_tab fl s' [\<lparr>fe_type = 1, fe_father = 0, fe_name = [42]\<rparr>, \<lparr>fe_type = 1, fe_father = 0, fe_name = [47]\<rparr>,
      \<lparr>fe_type = 1, fe_father = 1, fe_name = [100, 101, 118, 47]\<rparr>, \<lparr>fe_type = 1, fe_father = 1, fe_name = [115, 121, 115, 47]\<rparr>]"
proof -
  have out: "outside fl a (Suc (length [42 :: u8]))" "outside fl b (Suc (length [47 :: u8]))"
      "outside fl c (Suc (length [100, 101, 118, 47 :: u8]))" "outside fl d (Suc (length [115, 121, 115, 47 :: u8]))"
    using assms by (simp_all add: eval_nat_numeral)
  have t0: "fs_tab fl (s\<lparr>file_id := 0\<rparr>) []" using assms(1) by (simp add: fs_tab_def)
  have mem0: "mem (s\<lparr>file_id := 0\<rparr>) = mem s" by simp
  note add = fs_add_dir_out [where ftime = 0]
  obtain s1 where s1: "fs_add_dir fl 0 0 a (s\<lparr>file_id := 0\<rparr>) = Some (0, s1)"
      "fs_tab fl s1 [\<lparr>fe_type = 1, fe_father = 0, fe_name = [42]\<rparr>]"
      "\<forall>x. \<not> in_range fl (176 * 128) x \<longrightarrow> mem s1 x = mem s x"
    using add [OF t0 _ assms(2) [folded mem0] _ out(1), of 0] by (auto simp: mem0)
  have lit1: "cstr (mem s1) b [47]" "cstr (mem s1) c [100, 101, 118, 47]" "cstr (mem s1) d [115, 121, 115, 47]"
    using cstr_outside [OF assms(3) _ out(2) s1(3)] cstr_outside [OF assms(4) _ out(3) s1(3)]
      cstr_outside [OF assms(5) _ out(4) s1(3)] by (simp_all del: cstr.simps)
  obtain s2 where s2: "fs_add_dir fl 0 0 b s1 = Some (1, s2)"
      "fs_tab fl s2 [\<lparr>fe_type = 1, fe_father = 0, fe_name = [42]\<rparr>, \<lparr>fe_type = 1, fe_father = 0, fe_name = [47]\<rparr>]"
      "\<forall>x. \<not> in_range fl (176 * 128) x \<longrightarrow> mem s2 x = mem s1 x"
    using add [OF s1(2) _ lit1(1) _ out(2), of 0] by auto
  have lit2: "cstr (mem s2) c [100, 101, 118, 47]" "cstr (mem s2) d [115, 121, 115, 47]"
    using cstr_outside [OF lit1(2) _ out(3) s2(3)] cstr_outside [OF lit1(3) _ out(4) s2(3)] by (simp_all del: cstr.simps)
  obtain s3 where s3: "fs_add_dir fl 1 0 c s2 = Some (2, s3)"
      "fs_tab fl s3 [\<lparr>fe_type = 1, fe_father = 0, fe_name = [42]\<rparr>, \<lparr>fe_type = 1, fe_father = 0, fe_name = [47]\<rparr>,
        \<lparr>fe_type = 1, fe_father = 1, fe_name = [100, 101, 118, 47]\<rparr>]"
      "\<forall>x. \<not> in_range fl (176 * 128) x \<longrightarrow> mem s3 x = mem s2 x"
    using add [OF s2(2) _ lit2(1) _ out(3), of 1] by auto
  have lit3: "cstr (mem s3) d [115, 121, 115, 47]" using cstr_outside [OF lit2(2) _ out(4) s3(3)] by (simp del: cstr.simps)
  obtain s4 where s4: "fs_add_dir fl 1 0 d s3 = Some (3, s4)"
      "fs_tab fl s4 [\<lparr>fe_type = 1, fe_father = 0, fe_name = [42]\<rparr>, \<lparr>fe_type = 1, fe_father = 0, fe_name = [47]\<rparr>,
        \<lparr>fe_type = 1, fe_father = 1, fe_name = [100, 101, 118, 47]\<rparr>, \<lparr>fe_type = 1, fe_father = 1, fe_name = [115, 121, 115, 47]\<rparr>]"
    using add [OF s3(2) _ lit3 _ out(4), of 1] by auto
  from s1(1) s2(1) s3(1) s4 show ?thesis by (auto simp: init_fs_def)
qed

section \<open>Every reachable table is well formed\<close>

text \<open>
  A session with the file table that \<open>init_fs\<close> built: entries are added under entries that are there,
  with names that fit and lie elsewhere, and other code changes memory outside the table.
\<close>

inductive fs_reach :: "u32 \<Rightarrow> 'a fs_state_scheme \<Rightarrow> 'a fs_state_scheme \<Rightarrow> bool" for fl :: u32 and s0 :: "'a fs_state_scheme" where
  start: "fs_reach fl s0 s0"
| other: "fs_reach fl s0 s \<Longrightarrow> file_id s' = file_id s \<Longrightarrow> (\<And>x. in_range fl (176 * 128) x \<Longrightarrow> mem s' x = mem s x) \<Longrightarrow>
    fs_reach fl s0 s'"
| add_dir: "fs_reach fl s0 s \<Longrightarrow> father < file_id s \<Longrightarrow> cstr (mem s) p nm \<Longrightarrow> length nm < MAX_NAME \<Longrightarrow>
    outside fl p (Suc (length nm)) \<Longrightarrow> fs_add_dir fl father ftime p s = Some (i, s') \<Longrightarrow> fs_reach fl s0 s'"
| add_file: "fs_reach fl s0 s \<Longrightarrow> father < file_id s \<Longrightarrow> cstr (mem s) p nm \<Longrightarrow> length nm < MAX_NAME \<Longrightarrow>
    outside fl p (Suc (length nm)) \<Longrightarrow> fs_add_file fl father ftime base sz op req p s = Some (i, s') \<Longrightarrow> fs_reach fl s0 s'"

text \<open>Entries are files or directories, and each but the first two lies in one that is older.\<close>

definition fs_tree :: "fentry list \<Rightarrow> bool" where
  "fs_tree tab \<longleftrightarrow> (\<forall>f \<in> set tab. fe_type f = F_T_FILE \<or> fe_type f = F_T_DIR) \<and>
     (\<forall>i. 1 < i \<and> i < length tab \<longrightarrow> unat (fe_father (tab ! i)) < i)"

lemma fs_tree_snoc:
  "fs_tree tab \<Longrightarrow> ty = F_T_FILE \<or> ty = F_T_DIR \<Longrightarrow> unat father < length tab \<Longrightarrow>
     fs_tree (tab @ [\<lparr>fe_type = ty, fe_father = father, fe_name = nm\<rparr>])"
  by (auto simp: fs_tree_def nth_append less_Suc_eq)

lemma fs_tab_other:
  assumes "fs_tab fl s tab" "file_id s' = file_id s" "\<And>x. in_range fl (176 * 128) x \<Longrightarrow> mem s' x = mem s x"
  shows "fs_tab fl s' tab"
proof -
  have "entry_is (mem s') (entry fl (of_nat i)) (tab ! i)" if i: "i < length tab" for i
  proof -
    have len: "i < 128" "entry_is (mem s) (entry fl (of_nat i)) (tab ! i)" using assms(1) i by (auto simp: fs_tab_def)
    have "in_range fl (176 * 128) x" if "in_range (entry fl (of_nat i)) 176 x" for x
      using that in_range_sub [of fl "176 * of_nat i" 176 x "176 * 128"] len(1) by (simp add: entry_def unat_word_ariths unat_of_nat)
    then have eq: "mem s' x = mem s x" if "in_range (entry fl (of_nat i)) 176 x" for x using that assms(3) by blast
    then have sub: "mem s' x = mem s x" if "in_range (entry fl (of_nat i) + y) n x" "unat y + n \<le> 176" for x y n
      using that in_range_sub [of "entry fl (of_nat i)" y n x 176] by (intro eq) simp
    have "load32 (mem s') (entry fl (of_nat i) + y) = load32 (mem s) (entry fl (of_nat i) + y)" if "unat y + 4 \<le> 176" for y
      by (rule load32_cong) (use that sub in blast)
    from this [of 0] this [of 4] have "load32 (mem s') (f_type (entry fl (of_nat i))) = load32 (mem s) (f_type (entry fl (of_nat i)))"
        "load32 (mem s') (f_father (entry fl (of_nat i))) = load32 (mem s) (f_father (entry fl (of_nat i)))"
      by (simp_all add: f_type_def f_father_def)
    moreover have "cstr (mem s') (f_name (entry fl (of_nat i))) (fe_name (tab ! i)) =
        cstr (mem s) (f_name (entry fl (of_nat i))) (fe_name (tab ! i))"
      by (rule cstr_cong) (use len(2) sub [of 156 "Suc (length (fe_name (tab ! i)))"] in \<open>auto simp: entry_is_def f_name_def\<close>)
    ultimately show ?thesis using len(2) by (simp add: entry_is_def)
  qed
  then show ?thesis using assms(1,2) by (simp add: fs_tab_def)
qed

lemma fs_reach_tab:
  assumes "fs_reach fl s0 s" "fs_tab fl s0 tab0" "fs_tree tab0"
  shows "\<exists>tab. fs_tab fl s (tab0 @ tab) \<and> fs_tree (tab0 @ tab)"
  using assms
proof (induction rule: fs_reach.induct)
  case start
  then show ?case by (intro exI [of _ "[]"]) simp
next
  case (other s s')
  then show ?case using fs_tab_other [OF _ other.hyps(2,3)] by blast
next
  case (add_dir s father p nm ftime i s')
  then obtain tab where t: "fs_tab fl s (tab0 @ tab)" "fs_tree (tab0 @ tab)" by blast
  have f: "unat father < length (tab0 @ tab)" using add_dir.hyps(2) t(1) by (simp add: fs_tab_def word_less_nat_alt)
  show ?case
  proof (cases "length (tab0 @ tab) < 128")
    case True
    from fs_add_dir_tab [OF t(1) this add_dir.hyps(3-5), of father ftime] add_dir.hyps(6) f
    have "fs_tab fl s' ((tab0 @ tab) @ [\<lparr>fe_type = F_T_DIR, fe_father = father, fe_name = nm\<rparr>])" by auto
    then show ?thesis using fs_tree_snoc [OF t(2) _ f, of F_T_DIR nm] by (intro exI [of _ "tab @ [_]"]) simp
  next
    case False
    then have "\<not> file_id s < MAX_FILE" using t(1) by (simp add: fs_tab_def word_less_nat_alt)
    then have "s' = s" using add_dir.hyps(6) by (simp add: fs_add_dir_def irqs_off_fails)
    then show ?thesis using t by blast
  qed
next
  case (add_file s father p nm ftime base sz op req i s')
  then obtain tab where t: "fs_tab fl s (tab0 @ tab)" "fs_tree (tab0 @ tab)" by blast
  have f: "unat father < length (tab0 @ tab)" using add_file.hyps(2) t(1) by (simp add: fs_tab_def word_less_nat_alt)
  show ?case
  proof (cases "length (tab0 @ tab) < 128")
    case True
    from fs_add_file_tab [OF t(1) this add_file.hyps(3-5), of father ftime base sz op req] add_file.hyps(6) f
    have "fs_tab fl s' ((tab0 @ tab) @ [\<lparr>fe_type = F_T_FILE, fe_father = father, fe_name = nm\<rparr>])" by auto
    then show ?thesis using fs_tree_snoc [OF t(2) _ f, of F_T_FILE nm] by (intro exI [of _ "tab @ [_]"]) simp
  next
    case False
    then have "\<not> file_id s < MAX_FILE" using t(1) by (simp add: fs_tab_def word_less_nat_alt)
    then have "s' = s" using add_file.hyps(6) by (simp add: fs_add_file_def irqs_off_fails)
    then show ?thesis using t by blast
  qed
qed

text \<open>C13: the file table stays well formed: whatever is added under an existing entry with a name of less
  than 20 characters, after \<open>init_fs\<close> and with other code running in between, every entry is a file or a
  directory with a terminated name, the first four are \<open>*\<close>, \<open>/\<close>, \<open>dev/\<close> and \<open>sys/\<close>, every later entry
  lies in an older one, so the fathers form a tree, and there are at most 128.\<close>

theorem fs_table_typed:
  assumes "table_room fl" "cstr (mem s) a [42]" "cstr (mem s) b [47]" "cstr (mem s) c [100, 101, 118, 47]"
    "cstr (mem s) d [115, 121, 115, 47]"
    and "outside fl a 2" "outside fl b 2" "outside fl c 5" "outside fl d 5"
    and "init_fs fl a b c d s = Some s0" "fs_reach fl s0 t"
  shows "\<exists>tab. fs_tab fl t tab \<and> fs_tree tab \<and> 4 \<le> length tab \<and> length tab \<le> 128 \<and>
    map fe_name (take 4 tab) = [[42], [47], [100, 101, 118, 47], [115, 121, 115, 47]]"
proof -
  let ?tab = "[\<lparr>fe_type = 1, fe_father = 0, fe_name = [42 :: u8]\<rparr>, \<lparr>fe_type = 1, fe_father = 0, fe_name = [47]\<rparr>,
      \<lparr>fe_type = 1, fe_father = 1, fe_name = [100, 101, 118, 47]\<rparr>, \<lparr>fe_type = 1, fe_father = 1, fe_name = [115, 121, 115, 47]\<rparr>]"
  have "fs_tab fl s0 ?tab" using init_fs_tree [OF assms(1-9)] assms(10) by auto
  moreover have "fs_tree ?tab" by (auto simp: fs_tree_def nth_Cons split: nat.splits)
  ultimately obtain tab where "fs_tab fl t (?tab @ tab)" "fs_tree (?tab @ tab)" using fs_reach_tab [OF assms(11)] by blast
  then show ?thesis by (intro exI [of _ "?tab @ tab"]) (simp add: fs_tab_def)
qed

section \<open>A concrete table\<close>

definition fs_boot :: fs_state where
  "fs_boot = \<lparr>mem = (\<lambda>_. 0)(0x1000 := 42, 0x1010 := 47, 0x1020 := 100, 0x1021 := 101, 0x1022 := 118, 0x1023 := 47,
       0x1030 := 115, 0x1031 := 121, 0x1032 := 115, 0x1033 := 47),
     cr3 = 0, ports = [], handlers = (\<lambda>_. None), file_id = 0, cpu_flags = 0x202\<rparr>"

theorem init_fs_tree_witness:
  "\<exists>s' tab. init_fs 0x100000 0x1000 0x1010 0x1020 0x1030 fs_boot = Some s' \<and> fs_tab 0x100000 s' tab \<and> length tab = 4"
proof -
  have "outside 0x100000 p n" if "p \<in> {0x1000, 0x1010, 0x1020, 0x1030}" "n \<le> 8" "0 < n" for p n
    using that by (auto simp: outside_def sep_def)
  then show ?thesis
    using init_fs_tree [of "0x100000" fs_boot "0x1000" "0x1010" "0x1020" "0x1030"]
    by (fastforce simp: table_room_def fs_boot_def)
qed

definition one_dir :: fs_state where
  "one_dir = \<lparr>mem = (store32 (\<lambda>_. 0) 0x100000 1)(0x10009C := 42, 0x1000 := 102),
     cr3 = 0, ports = [], handlers = (\<lambda>_. None), file_id = 1, cpu_flags = 0x202\<rparr>"

lemma one_dir_tab: "fs_tab 0x100000 one_dir [\<lparr>fe_type = 1, fe_father = 0, fe_name = [42]\<rparr>]"
  by (simp add: fs_tab_def table_room_def entry_is_def entry_def f_type_def f_father_def f_name_def one_dir_def
      load32_def store32_def)

lemma one_dir_name: "cstr (mem one_dir) 0x1000 [102]"
  by (simp add: one_dir_def store32_def)

theorem fs_match_finds_first_witness:
  "fs_match_file 0x100000 0 0x1000 one_dir = Some (- 1) \<and> fs_match_dir 0x100000 0 0x1000 one_dir = Some (- 1)"
  using fs_match_finds_first [OF one_dir_tab one_dir_name, of 0] by simp

theorem fs_add_then_match_witness:
  "\<exists>s'. fs_add_file 0x100000 0 0 0 0 0 0 0x1000 one_dir = Some (1, s') \<and> fs_match_file 0x100000 0 0x1000 s' = Some 1"
  using fs_add_then_match [OF one_dir_tab _ one_dir_name, of 0 0 0 0 0 0] by (auto simp: outside_def sep_def)

theorem fs_table_typed_witness:
  "\<exists>s0 t tab. init_fs 0x100000 0x1000 0x1010 0x1020 0x1030 fs_boot = Some s0 \<and> fs_reach 0x100000 s0 t \<and> file_id t = 5 \<and>
     fs_tab 0x100000 t tab \<and> fs_tree tab \<and> map fe_name (take 4 tab) = [[42], [47], [100, 101, 118, 47], [115, 121, 115, 47]]"
proof -
  have out: "outside 0x100000 p n" if "p \<in> {0x1000, 0x1010, 0x1020, 0x1030}" "n \<le> 8" "0 < n" for p n
    using that by (auto simp: outside_def sep_def)
  have lits: "table_room 0x100000" "cstr (mem fs_boot) 0x1000 [42]" "cstr (mem fs_boot) 0x1010 [47]"
      "cstr (mem fs_boot) 0x1020 [100, 101, 118, 47]" "cstr (mem fs_boot) 0x1030 [115, 121, 115, 47]"
      "outside 0x100000 0x1000 2" "outside 0x100000 0x1010 2" "outside 0x100000 0x1020 5" "outside 0x100000 0x1030 5"
    by (simp_all add: out table_room_def fs_boot_def)
  let ?tab = "[\<lparr>fe_type = 1, fe_father = 0, fe_name = [42 :: u8]\<rparr>, \<lparr>fe_type = 1, fe_father = 0, fe_name = [47]\<rparr>,
      \<lparr>fe_type = 1, fe_father = 1, fe_name = [100, 101, 118, 47]\<rparr>, \<lparr>fe_type = 1, fe_father = 1, fe_name = [115, 121, 115, 47]\<rparr>]"
  obtain s0 where s0: "init_fs 0x100000 0x1000 0x1010 0x1020 0x1030 fs_boot = Some s0" "fs_tab 0x100000 s0 ?tab"
    using init_fs_tree [OF lits] by blast
  define s1 where "s1 = s0\<lparr>mem := (mem s0)(0x1000 := 102, 0x1001 := 0)\<rparr>"
  have far: "x \<noteq> 0x1000" "x \<noteq> 0x1001" if "in_range 0x100000 (176 * 128) x" for x :: u32
    using that by (auto simp: in_range_def)
  have r1: "fs_reach 0x100000 s0 s1"
    by (rule fs_reach.other [OF fs_reach.start]) (use far in \<open>simp_all add: s1_def\<close>)
  have t1: "fs_tab 0x100000 s1 ?tab" by (rule fs_tab_other [OF s0(2)]) (use far in \<open>simp_all add: s1_def\<close>)
  have nm: "cstr (mem s1) 0x1000 [102]" "length [102 :: u8] < MAX_NAME" "outside 0x100000 0x1000 (Suc (length [102 :: u8]))"
    by (simp_all add: s1_def out)
  obtain t where t: "fs_add_file 0x100000 2 0 0 0 0 0 0x1000 s1 = Some (4, t)"
      "fs_tab 0x100000 t (?tab @ [\<lparr>fe_type = F_T_FILE, fe_father = 2, fe_name = [102]\<rparr>])"
    using fs_add_file_tab [OF t1 _ nm, of 2 0 0 0 0 0] by auto
  have "file_id s1 = 4" using t1 by (simp add: fs_tab_def word_unat_eq_iff)
  then have rt: "fs_reach 0x100000 s0 t" by (intro fs_reach.add_file [OF r1 _ nm t(1)]) simp
  have "file_id t = 5" using t(2) by (simp add: fs_tab_def word_unat_eq_iff)
  moreover obtain tab where "fs_tab 0x100000 t tab" "fs_tree tab" "map fe_name (take 4 tab) = [[42], [47], [100, 101, 118, 47], [115, 121, 115, 47]]"
    using fs_table_typed [OF lits s0(1) rt] by (elim exE conjE)
  ultimately show ?thesis using s0(1) rt by (intro exI [of _ s0] exI [of _ t] exI [of _ tab] conjI)
qed

end
