(* ===== verification/Ports.thy ===== *)
theory Ports
  imports Machine
begin

text \<open>
  The rest of \<open>include/io.h\<close>: 16-bit ports, and the string instructions that move blocks between memory
  and a port. No other file of the kernel calls them. Devices answer with the values of \<open>answers\<close>, one
  for each read, and after the last one the bus floats and reads as all ones; writes of 16 and 32 bits have
  lists of their own beside \<open>ports\<close>.
\<close>

record bus_state = machine +
  answers :: "u32 list"
  ports16 :: "(u16 \<times> u16) list"
  ports32 :: "(u16 \<times> u32) list"

definition in_any :: "'a bus_state_scheme \<Rightarrow> u32 \<times> 'a bus_state_scheme" where
  "in_any s = (case answers s of [] \<Rightarrow> (- 1, s) | v # vs \<Rightarrow> (v, s\<lparr>answers := vs\<rparr>))"

definition inw :: "u16 \<Rightarrow> 'a bus_state_scheme \<Rightarrow> u16 \<times> 'a bus_state_scheme" where
  "inw port s = (let (v, s) = in_any s in (ucast v, s))"

definition outw :: "u16 \<Rightarrow> u16 \<Rightarrow> 'a bus_state_scheme \<Rightarrow> 'a bus_state_scheme" where
  "outw port data s = s\<lparr>ports16 := ports16 s @ [(port, data)]\<rparr>"

section \<open>String instructions\<close>

text \<open>
  After \<open>cld\<close>, the prefix \<open>repne\<close>, which acts like \<open>rep\<close> before these instructions, repeats them
  \<open>ecx\<close> times, counting it down; \<open>edi\<close> or \<open>esi\<close> moves up
  by the width. \<open>cnt\<close> is signed, but \<open>ecx\<close> counts it as unsigned. \<open>dx\<close> is the low half of \<open>port\<close>.
\<close>

primrec rep_insb :: "nat \<Rightarrow> u32 \<Rightarrow> 'a bus_state_scheme \<Rightarrow> 'a bus_state_scheme" where
  "rep_insb 0 edi s = s"
| "rep_insb (Suc n) edi s = (let (v, s) = in_any s in rep_insb n (edi + 1) (s\<lparr>mem := (mem s)(edi := ucast v)\<rparr>))"

definition insb :: "u32 \<Rightarrow> u32 \<Rightarrow> u32 \<Rightarrow> 'a bus_state_scheme \<Rightarrow> 'a bus_state_scheme" where
  "insb port addr cnt s = rep_insb (unat cnt) addr s"

primrec rep_outsb :: "nat \<Rightarrow> u16 \<Rightarrow> u32 \<Rightarrow> 'a bus_state_scheme \<Rightarrow> 'a bus_state_scheme" where
  "rep_outsb 0 dx esi s = s"
| "rep_outsb (Suc n) dx esi s = rep_outsb n dx (esi + 1) (s\<lparr>ports := ports s @ [(dx, mem s esi)]\<rparr>)"

definition outsb :: "u32 \<Rightarrow> u32 \<Rightarrow> u32 \<Rightarrow> 'a bus_state_scheme \<Rightarrow> 'a bus_state_scheme" where
  "outsb port addr cnt s = rep_outsb (unat cnt) (ucast port) addr s"

primrec rep_insl :: "nat \<Rightarrow> u32 \<Rightarrow> 'a bus_state_scheme \<Rightarrow> 'a bus_state_scheme" where
  "rep_insl 0 edi s = s"
| "rep_insl (Suc n) edi s = (let (v, s) = in_any s in rep_insl n (edi + 4) (s\<lparr>mem := store32 (mem s) edi v\<rparr>))"

definition insl :: "u32 \<Rightarrow> u32 \<Rightarrow> u32 \<Rightarrow> 'a bus_state_scheme \<Rightarrow> 'a bus_state_scheme" where
  "insl port addr cnt s = rep_insl (unat cnt) addr s"

primrec rep_outsl :: "nat \<Rightarrow> u16 \<Rightarrow> u32 \<Rightarrow> 'a bus_state_scheme \<Rightarrow> 'a bus_state_scheme" where
  "rep_outsl 0 dx esi s = s"
| "rep_outsl (Suc n) dx esi s = rep_outsl n dx (esi + 4) (s\<lparr>ports32 := ports32 s @ [(dx, load32 (mem s) esi)]\<rparr>)"

definition outsl :: "u32 \<Rightarrow> u32 \<Rightarrow> u32 \<Rightarrow> 'a bus_state_scheme \<Rightarrow> 'a bus_state_scheme" where
  "outsl port addr cnt s = rep_outsl (unat cnt) (ucast port) addr s"

section \<open>Blocks\<close>

text \<open>What the instructions write out, and where they leave what they read.\<close>

lemma rep_outsb_eq: "rep_outsb n dx a s = s\<lparr>ports := ports s @ map (\<lambda>i. (dx, mem s (a + of_nat i))) [0..<n]\<rparr>"
proof (induction n arbitrary: a s)
  case (Suc n)
  then show ?case by (simp add: map_upt_Suc add.assoc del: upt_Suc)
qed simp

lemma rep_outsl_eq: "rep_outsl n dx a s = s\<lparr>ports32 := ports32 s @ map (\<lambda>i. (dx, load32 (mem s) (a + 4 * of_nat i))) [0..<n]\<rparr>"
proof (induction n arbitrary: a s)
  case (Suc n)
  then show ?case by (simp add: map_upt_Suc algebra_simps del: upt_Suc)
qed simp

lemma rep_insl_eq:
  "answers s = vs @ rest \<Longrightarrow> 4 * length vs \<le> 2 ^ 32 \<Longrightarrow> s' = rep_insl (length vs) a s \<Longrightarrow>
     answers s' = rest \<and> ports32 s' = ports32 s \<and>
     (\<forall>i < length vs. load32 (mem s') (a + 4 * of_nat i) = vs ! i) \<and>
     (\<forall>x. \<not> in_range a (4 * length vs) x \<longrightarrow> mem s' x = mem s x)"
proof (induction vs arbitrary: a s)
  case (Cons v vs)
  let ?s = "s\<lparr>answers := vs @ rest, mem := store32 (mem s) a v\<rparr>"
  have step: "rep_insl (length (v # vs)) a s = rep_insl (length vs) (a + 4) ?s"
    using Cons.prems(1) by (simp add: in_any_def)
  have s': "answers s' = rest" "ports32 s' = ports32 s"
      "\<forall>i < length vs. load32 (mem s') (a + 4 + 4 * of_nat i) = vs ! i"
      "\<forall>x. \<not> in_range (a + 4) (4 * length vs) x \<longrightarrow> mem s' x = mem ?s x"
    using Cons.IH [of ?s "a + 4"] Cons.prems(2,3) unfolding step by auto
  have off: "\<not> in_range (a + 4) (4 * length vs) x" if "in_range a 4 x" for x
  proof -
    have d: "unat (x - a) < 4" using that by (simp add: in_range_def)
    have e: "x - (a + 4) = x - a - 4" by simp
    have "unat (x - a - 4) = 2 ^ 32 + unat (x - a) - 4"
      using d unat_sub_if' [of "x - a" 4] by (simp del: diff_diff_add)
    then show ?thesis using Cons.prems(2) unfolding in_range_def e by (simp del: diff_diff_add)
  qed
  have "load32 (mem s') a = load32 (mem ?s) a" using s'(4) off by (intro load32_cong) blast
  then have "load32 (mem s') (a + 4 * of_nat i) = (v # vs) ! i" if "i < length (v # vs)" for i
    using s'(3) that by (cases i) (simp_all add: algebra_simps)
  moreover have "mem s' x = mem s x" if "\<not> in_range a (4 * length (v # vs)) x" for x
  proof -
    have "in_range (a + 4) (4 * length vs) x \<Longrightarrow> in_range a (4 * length (v # vs)) x"
      by (rule in_range_sub) (use Cons.prems(2) in auto)
    then have "mem s' x = mem ?s x" using s'(4) that by blast
    moreover have "\<not> in_range a 4 x" using that by (simp add: in_range_def)
    ultimately show ?thesis by (simp add: store32_other)
  qed
  ultimately show ?case using s'(1,2) by simp
qed simp

text \<open>
  A block of words written to a port and answered by an echo arrives unchanged, whatever the port, as
  long as it has at most \<open>2 ^ 30\<close> words; nothing outside the destination changes.
\<close>

lemma block_echo:
  assumes "unat n \<le> 2 ^ 30" "answers t = map snd (drop (length (ports32 s)) (ports32 (outsl port a n s)))"
  shows "answers (insl port' b n t) = []"
    "\<forall>i < unat n. load32 (mem (insl port' b n t)) (b + 4 * of_nat i) = load32 (mem s) (a + 4 * of_nat i)"
    "\<forall>x. \<not> in_range b (4 * unat n) x \<longrightarrow> mem (insl port' b n t) x = mem t x"
proof -
  define vs where "vs = map (\<lambda>i. load32 (mem s) (a + 4 * of_nat i)) [0..<unat n]"
  have "answers t = vs @ []" using assms(2) by (simp add: outsl_def rep_outsl_eq vs_def comp_def)
  from rep_insl_eq [OF this _ refl, of b] assms(1)
  show "answers (insl port' b n t) = []"
    "\<forall>i < unat n. load32 (mem (insl port' b n t)) (b + 4 * of_nat i) = load32 (mem s) (a + 4 * of_nat i)"
    "\<forall>x. \<not> in_range b (4 * unat n) x \<longrightarrow> mem (insl port' b n t) x = mem t x"
    by (simp_all add: insl_def vs_def)
qed

end
