(* ===== verification/Spec2Isabelle.thy ===== *)
theory Spec2Isabelle
  imports Demo_Boot FileTable Ports
begin

text \<open>
  OceanOS, a small 32-bit x86 kernel booted by GRUB: a model of its C and assembly sources with the
  theorems that make the parts and their composition correct, and those that show where they are
  not.

  \<^bold>\<open>The program.\<close> \<open>boot.s\<close> enters \<open>init_kernel\<close> (\<open>init.c\<close>), which maps the first 4 MB twice and jumps
  to \<open>_init\<close>. That sets up the segment descriptors (\<open>gdt.c\<close>), the interrupt table, the two
  interrupt controllers and the handler table (\<open>trap.c\<close>, \<open>trap_s.s\<close>), the stack of free page frames
  and the kernel's page tables (\<open>memory.c\<close>), the text console (\<open>monitor.c\<close>), the timer, the run list
  (\<open>process.c\<close>, \<open>proc_s.s\<close>) and the keyboard driver (\<open>keyboard.c\<close>), shows a banner and a menu (\<open>test.c\<close>),
  and then waits for interrupts. The timer interrupt switches to the next process of the run list; the keyboard interrupt decodes
  a scan code, echoes the character (\<open>printf.c\<close>) and stores it in the input line (\<open>buffer.c\<close>), from
  where \<open>scanf\<close> (\<open>scanf.c\<close>, \<open>_doscan.c\<close>) reads it. \<open>memlib.c\<close> is the kernel heap, which maps pages as
  it grows and from which \<open>process.c\<close> takes the stacks of new threads. The keys F1 and F2 start the demonstrations
  of \<open>test.c\<close>: a dialogue about heap memory, and three threads that print lines. \<open>file.c\<close> is a table of files;
  \<open>elf.c\<close> and \<open>debug.c\<close> print a stack trace with function names when an assertion fails.

  \<^bold>\<open>How it is modelled.\<close> Integers keep their width (\<open>u8\<close>, \<open>u16\<close>, \<open>u32\<close> are words) and addresses are
  32-bit words into one byte memory, which the components share: page tables, heap headers,
  process blocks, file entries, text cells and strings are all read and written there, at the
  offsets of the C structures. A component's other variables are fields of a record that extends
  \<open>machine\<close> (memory, page-directory register, port writes in order, handler table); every C function is
  a definition on that record, with the C name where HOL allows it. A failed \<open>assert\<close>, an access out
  of bounds and a busy loop that nothing ends are the error values \<open>Panic\<close>, \<open>Undefined\<close> and \<open>Hang\<close> of
  \<open>result\<close>. A loop that is bounded is a structural recursion or a terminating function; one that
  depends on the memory (up to a NUL byte, along a list) is a \<open>partial_function\<close> whose value \<open>None\<close>
  is not returning, and the theorems about it prove that it returns. There is no fuel: where a
  \<open>primrec\<close> counts down a number, that number is the loop's own count.

  \<^bold>\<open>The theories\<close>, in order of their imports:

  \<^item> \<open>OS_Prelude\<close>: words, results, little-endian loads and stores, ranges of addresses and their
    separation (\<open>sep\<close>), page masks, numerals in a base. Every memory proof rests on its lemmas.
  \<^item> \<open>CString\<close> (\<open>string.c\<close>): the string routines; \<open>cstr\<close> says that a C string stands at an address.
  \<^item> \<open>Machine\<close> (\<open>io.h\<close>, \<open>system.h\<close>): the shared record, \<open>register_interrupt_handler\<close>, the interrupt flag.
    \<open>Ports\<close> (\<open>io.h\<close>): the 16-bit ports and the string instructions, which the kernel offers and does not use.
  \<^item> \<open>FrameStack\<close> (\<open>memory.c\<close>): \<open>alloc_page\<close>, \<open>free_page\<close>, \<open>init_page\<close>; the stack as a list of frames, the
    locale \<open>frame_stack\<close> for its clients.
  \<^item> \<open>Paging\<close> (\<open>memory.c\<close>): \<open>map_page\<close>, \<open>unmap\<close>, \<open>get_mapping\<close>, \<open>init_vmm\<close>; refinement of a finite map from
    pages to entries, the locale \<open>address_map\<close>.
  \<^item> \<open>Heap\<close>, \<open>Heap_Correct\<close> (\<open>memlib.c\<close>): \<open>kmalloc\<close> and \<open>kfree\<close> on block headers in memory; the heap as a
    list of blocks, and what allocation, reuse, splitting and freeing do to it.
  \<^item> \<open>Footprint\<close>: which cells \<open>kmalloc\<close> may change, and what may change without touching the heap.
  \<^item> \<open>Process\<close> (\<open>process.c\<close>, \<open>proc_s.s\<close>): run list, context switch instruction by instruction, threads;
    the slices of a schedule as a step relation. \<open>Threads\<close>: run list and heap together, so that several
    threads can be started one after the other.
  \<^item> \<open>Monitor\<close> (\<open>monitor.c\<close>): the text buffer; refinement of an abstract screen of 80 by 25 cells, the
    locale for printing character by character.
  \<^item> \<open>Printf\<close>, \<open>Format\<close> (\<open>printf.c\<close>): \<open>number\<close>, \<open>vsprintf\<close>, \<open>printf\<close>; formats as lists of pieces.
  \<^item> \<open>LineBuffer\<close> (\<open>buffer.c\<close>) and \<open>Keyboard\<close> (\<open>keyboard.c\<close>): the input line, the scan-code tables and
    every key's function, the interrupt handler and the LED protocol; the locale \<open>kept\<close> for what no key
    changes.
  \<^item> \<open>Gdt\<close> (\<open>gdt.c\<close>, \<open>gdt_s.s\<close>) and \<open>Trap\<close> (\<open>trap.c\<close>, \<open>trap_s.s\<close>): descriptors as the processor reads
    them, controllers, timer, \<open>sleep\<close>, dispatchers, and the entry stubs on an explicit stack.
  \<^item> \<open>Debug\<close> (\<open>elf.c\<close>, \<open>debug.c\<close>) and \<open>PageFault\<close> (\<open>page_fault\<close> of \<open>memory.c\<close>): symbol lookup, panic
    trace, fault report.
  \<^item> \<open>FileTable\<close> (\<open>file.c\<close>): the table of files, changed with interrupts off, and its searches. \<open>fs_tab\<close> is what
    the searches look at, \<open>entry_words\<close> the whole entry.
  \<^item> \<open>Scan\<close>, \<open>Scan_Correct\<close> (\<open>_doscan.c\<close>, \<open>scanf.c\<close>): formatted input, as far as \<open>NOFLOAT\<close> leaves it in. What
    happens while \<open>scanf\<close> waits is an argument; the locale \<open>typing\<close> says what it does to the input line.
  \<^item> \<open>Boot\<close> (\<open>boot.s\<close>, \<open>init_kernel\<close>): the first page tables, in physical memory, and the processor's
    walk through them.
  \<^item> \<open>Kernel\<close> (\<open>_init\<close>): the initialisation of all components and the interrupts that follow, as an
    inductive set of reachable states.
  \<^item> \<open>Session\<close>: a world is a kernel with the interrupts still to come; \<open>printf\<close>, \<open>scanf\<close> and \<open>sleep\<close> on
    worlds, where every interrupt that they wait for passes through its stub and its handler, if the interrupt
    flag is on.
  \<^item> \<open>Demo\<close> (\<open>test.c\<close>, \<open>_init\<close>): the banner, the menu and the demonstrations. \<open>Demo_Session\<close>: what a
    dialogue keeps; \<open>Demo_Malloc\<close>: the dialogue that F1 starts; \<open>Demo_Process\<close>: the threads that F2 starts.
    \<open>Demo_Keys\<close>: both from the interrupt of their key, inside the keyboard handler. \<open>Demo_Boot\<close>: from power
    on through the menu and a session of F1 back to the menu.
\<close>

text \<open>
  \<^bold>\<open>What the theorems show.\<close> Scheduling is round robin and a context switch restores what it saved; a
  new thread joins the run list and starts its function with its argument, returning into
  \<open>thread_exit\<close>. Frames are handed out once; mapping a page changes the translation of that page
  only; the boot and kernel tables map the windows they are meant to. A heap without free blocks
  serves every request that the free frames can, and writing to payloads leaves it intact. The
  console does to the screen what an abstract terminal does. \<open>printf\<close> replaces each directive by what
  stands for its argument, and the two number printers of the console agree with it; \<open>_doscan\<close> reads a
  number back, and \<open>scanf\<close> stores the number whose digits are typed, from the scan codes of the
  keyboard interrupts, among any timer interrupts, to the variable.
  Strings are ordered as sequences of unsigned bytes. File searches find the first match; a file
  just added is found, its entry holds what was asked for, and nothing else changes but the size of its father;
  each entry behind the first two has an older one as its father. For interrupts and exceptions without error
  code the stubs give back the general registers, \<open>ds\<close>, flags and stack (but not \<open>es\<close>, \<open>fs\<close> and \<open>gs\<close>);
  lines are acknowledged before their handlers run; \<open>sleep\<close> lasts as many ticks as asked when its process is
  alone, and up to the next multiple of the number of processes otherwise, across the wrap-around of the counter.
  The boot ends with the menu on the screen, and from the \<open>sti\<close> on, after any interrupts and any keys but F1 and
  F2, the handlers, the directory, the run list, the cursor, the LEDs and the interrupt flag are as they should be.
  From power on, F1 at the menu starts the memory demonstration, which serves the requests and other words that
  are typed, as long as there are at most 20 requests, for which addresses and frames suffice, and every other
  word fits the 20 bytes of its array; it returns at \<open>exit\<close> to the menu with a heap of the blocks asked for. F2
  reads three strings and puts three threads into the run list; the next tick switches to the first of them, at
  its function with the address of its string, and a thread that runs alone prints its 15 lines.

  Other theorems state what the code does where it is not what it means to: splitting a heap block
  writes the new header over the next block, and a later search may not end; \<open>kfree\<close> goes back twelve
  headers instead of one; the limits of both descriptor tables are computed from the wrong structure;
  the stubs of exceptions with an error code push another word, so the page-fault report shows
  the error code as the instruction pointer; the multiboot pointer is not moved to the window.

  \<^bold>\<open>Assumptions.\<close> What the sources do not determine are arguments of the definitions: the addresses of
  arrays, literals and stubs, the contents of uninitialised variables, the bytes that devices answer
  with, the variable arguments of a call as a list of words. Memory does not overlap where the C
  program has different objects: a theorem that needs this says so with \<open>sep\<close>, \<open>in_video\<close> or a
  layout predicate. In \<open>Paging\<close> and above, memory is addressed as the kernel sees it; only \<open>Boot\<close> is about
  physical memory, so that page tables, although edited in it, do not change what an address
  means. Interrupts happen between the steps modelled: while the kernel waits in \<open>hlt\<close>, between two
  reads of the tick counter in \<open>sleep\<close>, and between two looks at the input line in \<open>scanf\<close>; they
  are a list of events in the world. One is delivered only while the interrupt flag \<open>sti_flag\<close> is on: \<open>_init\<close>
  turns it on, a stub turns it off and \<open>iret\<close> gives it back, and the demonstrations, which run inside the
  interrupt of their key, turn it on themselves. What calls and interrupts push on the stack is not written to the
  memory of the model, and nothing is claimed of memory below a stack pointer: that no memory but the screen
  changes means, none apart from those frames. The local variables of a demonstration are undetermined from its
  return on (\<open>stale_locals\<close>), since its stack is used again. \<open>sleep\<close> in \<open>Trap\<close> is also for several
  processes: it looks at the counter again when its own process has been switched back to. An interrupt handler reads
  its own answers from the devices: the interrupted code finds those it waits for as it left them. What a function
  key does while a demonstration runs already is the argument \<open>run\<close>. No interrupt arrives between the three
  calls of \<open>init_thread\<close>, and the lines of a thread are those it prints when the scheduler runs no
  other one.

  \<^bold>\<open>Not modelled.\<close> \<open>invlpg\<close>, the delays of the port instructions, the declarations of
  operations that no file defines (\<open>seek\<close>, \<open>read\<close> and \<open>write\<close> of a file, its requests), the floating point part of \<open>_doscan.c\<close> that \<open>NOFLOAT\<close> switches off, the multiboot header and the linker
  script, which have no behaviour of their own.
\<close>

end
